(* ===== verification/Radish_Prelude.thy ===== *)
theory Radish_Prelude
  imports Main "HOL-Library.Word" "HOL-Library.AList" "HOL-Library.Multiset"
begin

text \<open>
  The prelude of the Radish development: the errors of the C++ program as values, the result
  type and its sequencing, the machine integers the program stores and compares, and the
  little-endian object representation of unsigned integers.

  A C++ \<^verbatim>\<open>char\<close> is an HOL \<open>char\<close> (both are one byte) and a \<^verbatim>\<open>std::string\<close> is a
  \<open>string\<close>. A \<^verbatim>\<open>long long\<close> is a \<open>64 word\<close> read with \<open>sint\<close>; a
  \<^verbatim>\<open>std::size_t\<close> that only counts bytes held in memory is a \<open>nat\<close>.
\<close>

section \<open>Errors and results\<close>

text \<open>
  One constructor per class of exception the sources throw, with the message. The constructor
  \<open>UndefinedBehaviour\<close> marks an execution the C++ standard gives no meaning to (signed
  overflow, dereferencing an empty optional, reading a string out of range): the model returns
  it instead of inventing a value, and lemmas show where it cannot occur.
\<close>

datatype error =
    RuntimeError string
  | LengthError string
  | IosFailure string
  | InvalidArgument string
  | OutOfRange string
  | FilesystemError string
  | BadOptionalAccess
  | UndefinedBehaviour string

type_synonym 'a result = "error + 'a"

named_theorems result_simps \<open>inversion of sequenced results\<close>

definition rbind :: "'a result \<Rightarrow> ('a \<Rightarrow> 'b result) \<Rightarrow> 'b result" where
  "rbind m f = (case m of Inl e \<Rightarrow> Inl e | Inr x \<Rightarrow> f x)"

text \<open>\<^verbatim>\<open>*opt\<close> is undefined on an empty optional, \<^verbatim>\<open>opt.value()\<close> throws.\<close>

definition deref :: "'a option \<Rightarrow> 'a result" where
  "deref x = (case x of None \<Rightarrow> Inl (UndefinedBehaviour ''empty optional'') | Some v \<Rightarrow> Inr v)"

definition opt_value :: "'a option \<Rightarrow> 'a result" where
  "opt_value x = (case x of None \<Rightarrow> Inl BadOptionalAccess | Some v \<Rightarrow> Inr v)"

text \<open>Sequencing of operations on a stream or a file system that may throw halfway.\<close>

definition sbind :: "'a result \<times> 's \<Rightarrow> ('a \<Rightarrow> 's \<Rightarrow> 'b result \<times> 's) \<Rightarrow> 'b result \<times> 's" where
  "sbind m f = (case m of (Inl e, s) \<Rightarrow> (Inl e, s) | (Inr x, s) \<Rightarrow> f x s)"

fun is_ok :: "'a result \<Rightarrow> bool" where
  "is_ok (Inl e) = False"
| "is_ok (Inr x) = True"

section \<open>Machine integers\<close>

type_synonym Timestamp = "64 word"
type_synonym BinarySize = "32 word"

text \<open>\<^verbatim>\<open>a + b\<close> on \<^verbatim>\<open>long long\<close>: signed overflow has no defined result.\<close>

definition add_ll :: "64 word \<Rightarrow> 64 word \<Rightarrow> 64 word result" where
  "add_ll a b =
     (let s = sint a + sint b
      in if - (2 ^ 63) \<le> s \<and> s < 2 ^ 63 then Inr (word_of_int s)
         else Inl (UndefinedBehaviour ''signed overflow''))"

section \<open>Little-endian object representation\<close>

fun le_bytes :: "nat \<Rightarrow> nat \<Rightarrow> char list" where
  "le_bytes 0 n = []"
| "le_bytes (Suc k) n = char_of (n mod 256) # le_bytes k (n div 256)"

fun le_nat :: "char list \<Rightarrow> nat" where
  "le_nat [] = 0"
| "le_nat (c # cs) = of_char c + 256 * le_nat cs"

section \<open>Lemmas\<close>

lemma rbind_Inr [simp]: "rbind (Inr x) f = f x"
  by (simp add: rbind_def)

lemma rbind_Inl [simp]: "rbind (Inl e) f = Inl e"
  by (simp add: rbind_def)

lemma rbind_eq_Inr [result_simps]: "rbind m f = Inr y \<longleftrightarrow> (\<exists>x. m = Inr x \<and> f x = Inr y)"
  by (auto simp: rbind_def split: sum.splits)

lemma rbind_eq_Inl [result_simps]:
  "rbind m f = Inl e \<longleftrightarrow> m = Inl e \<or> (\<exists>x. m = Inr x \<and> f x = Inl e)"
  by (auto simp: rbind_def split: sum.splits)

lemma sbind_simps [simp]: "sbind (Inr x, s) f = f x s" "sbind (Inl e, s) f = (Inl e, s)"
  by (simp_all add: sbind_def)

lemma sbind_eq_Inr [result_simps]:
  "sbind m f = (Inr y, t) \<longleftrightarrow> (\<exists>x s. m = (Inr x, s) \<and> f x s = (Inr y, t))"
  by (auto simp: sbind_def split: prod.splits sum.splits)

lemma sbind_InrE:
  assumes "sbind m f = (Inr y, t)"
  obtains x s where "m = (Inr x, s)" and "f x s = (Inr y, t)"
  using assms by (auto simp: sbind_eq_Inr)

lemma deref_simps [simp]: "deref (Some v) = Inr v"
  "deref None = Inl (UndefinedBehaviour ''empty optional'')"
  by (simp_all add: deref_def)

lemma opt_value_simps [simp]: "opt_value (Some v) = Inr v" "opt_value None = Inl BadOptionalAccess"
  by (simp_all add: opt_value_def)

lemma deref_eq_Inr [result_simps]: "deref x = Inr v \<longleftrightarrow> x = Some v"
  by (cases x) auto

lemma opt_value_eq_Inr [result_simps]: "opt_value x = Inr v \<longleftrightarrow> x = Some v"
  by (cases x) auto

lemma is_ok_iff: "is_ok r \<longleftrightarrow> (\<exists>x. r = Inr x)"
  by (cases r) auto

lemma add_ll_Inr:
  assumes "add_ll a b = Inr c"
  shows "sint c = sint a + sint b"
proof -
  from assms have range: "- (2 ^ 63) \<le> sint a + sint b" "sint a + sint b < 2 ^ 63"
    and c: "c = word_of_int (sint a + sint b)"
    by (auto simp: add_ll_def Let_def split: if_splits)
  have "sint (word_of_int (sint a + sint b) :: 64 word) = sint a + sint b"
    unfolding sint_sbintrunc' by (rule signed_take_bit_int_eq_self) (use range in simp_all)
  with c show ?thesis by simp
qed

lemma add_ll_overflow:
  "(\<exists>e. add_ll a b = Inl e) \<longleftrightarrow> sint a + sint b < - (2 ^ 63) \<or> 2 ^ 63 \<le> sint a + sint b"
  by (auto simp: add_ll_def Let_def)

lemma sint_linear:
  assumes "a \<noteq> b" and "\<not> sint a < sint b"
  shows "sint b < sint a"
proof -
  have "sint a \<noteq> sint b" using assms(1) by (auto dest: signed_word_eqI)
  with assms(2) show ?thesis by linarith
qed

lemma length_le_bytes [simp]: "length (le_bytes k n) = k"
  by (induction k arbitrary: n) auto

lemma le_nat_le_bytes: "le_nat (le_bytes k n) = n mod 256 ^ k"
proof (induction k arbitrary: n)
  case 0
  then show ?case by simp
next
  case (Suc k)
  have "n mod 256 ^ Suc k = 256 * (n div 256 mod 256 ^ k) + n mod 256"
    by (simp add: mod_mult2_eq)
  then show ?case by (simp add: Suc.IH of_char_of)
qed

lemma le_nat_less: "le_nat bs < 256 ^ length bs"
proof (induction bs)
  case Nil
  then show ?case by simp
next
  case (Cons c cs)
  have "(of_char c :: nat) < 256" by (rule nat_of_char_less_256)
  with Cons.IH have "of_char c + 256 * le_nat cs < 256 * 256 ^ length cs" by linarith
  then show ?case by simp
qed

lemma le_bytes_le_nat: "le_bytes (length bs) (le_nat bs) = bs"
proof (induction bs)
  case Nil
  then show ?case by simp
next
  case (Cons c cs)
  have "(of_char c :: nat) < 256" by (rule nat_of_char_less_256)
  then have "(of_char c + 256 * le_nat cs) mod 256 = of_char c"
    and "(of_char c + 256 * le_nat cs) div 256 = le_nat cs"
    by simp_all
  with Cons.IH show ?case by simp
qed

text \<open>The object representation of a word round-trips through \<^const>\<open>le_bytes\<close>.\<close>

lemma le_nat_le_bytes_less: "n < 256 ^ k \<Longrightarrow> le_nat (le_bytes k n) = n"
  by (simp add: le_nat_le_bytes)

lemma le_nat_word8 [simp]: "le_nat (le_bytes 1 (unat (w :: 8 word))) = unat w"
proof (rule le_nat_le_bytes_less)
  show "unat w < 256 ^ 1" by (rule less_le_trans [OF unsigned_less]) simp
qed

lemma le_nat_word32 [simp]: "le_nat (le_bytes 4 (unat (w :: 32 word))) = unat w"
proof (rule le_nat_le_bytes_less)
  show "unat w < 256 ^ 4" by (rule less_le_trans [OF unsigned_less]) simp
qed

lemma le_nat_word64 [simp]: "le_nat (le_bytes 8 (unat (w :: 64 word))) = unat w"
proof (rule le_nat_le_bytes_less)
  show "unat w < 256 ^ 8" by (rule less_le_trans [OF unsigned_less]) simp
qed

end
