(* ===== verification/Decimal.thy ===== *)
theory Decimal
  imports Radish_Prelude
begin

text \<open>
  Decimal numbers as the C++ library prints and parses them: \<^verbatim>\<open>std::to_string\<close> on sizes and
  on \<^verbatim>\<open>long long\<close>, and \<^verbatim>\<open>std::from_chars\<close> on \<^verbatim>\<open>long long\<close>, which returns an error
  or a value, and where it stopped.
\<close>

definition digit_char :: "nat \<Rightarrow> char" where
  "digit_char d = char_of (48 + d)"

definition is_digit :: "char \<Rightarrow> bool" where
  "is_digit c \<longleftrightarrow> 48 \<le> (of_char c :: nat) \<and> (of_char c :: nat) \<le> 57"

definition digit_value :: "char \<Rightarrow> nat" where
  "digit_value c = of_char c - 48"

fun to_string_nat :: "nat \<Rightarrow> string" where
  "to_string_nat n = (if n < 10 then [digit_char n] else to_string_nat (n div 10) @ [digit_char (n mod 10)])"

declare to_string_nat.simps [simp del]

definition to_string_int :: "int \<Rightarrow> string" where
  "to_string_int i = (if i < 0 then ''-'' @ to_string_nat (nat (- i)) else to_string_nat (nat i))"

definition decimal_value :: "string \<Rightarrow> nat" where
  "decimal_value ds = foldl (\<lambda>v c. 10 * v + digit_value c) 0 ds"

text \<open>
  The value, if any, and the number of characters read. No sign but a minus is accepted, no
  blanks, and a value outside the range of \<^verbatim>\<open>long long\<close> is an error.
\<close>

definition from_chars :: "string \<Rightarrow> int option \<times> nat" where
  "from_chars s =
     (let minus = (s \<noteq> [] \<and> hd s = CHR ''-'');
          ds = takeWhile is_digit (if minus then tl s else s);
          v = (if minus then - int (decimal_value ds) else int (decimal_value ds));
          n = (if minus then 1 else 0) + length ds
      in if ds = [] then (None, 0)
         else if v < - (2 ^ 63) \<or> v \<ge> 2 ^ 63 then (None, n)
         else (Some v, n))"

section \<open>Lemmas\<close>

lemma of_digit_char [simp]: "d < 10 \<Longrightarrow> (of_char (digit_char d) :: nat) = 48 + d"
  by (simp add: digit_char_def of_char_of)

lemma is_digit_digit_char [simp]: "d < 10 \<Longrightarrow> is_digit (digit_char d)"
  by (simp add: is_digit_def)

lemma digit_value_digit_char [simp]: "d < 10 \<Longrightarrow> digit_value (digit_char d) = d"
  by (simp add: digit_value_def)

lemma to_string_nat_digits: "\<forall>c \<in> set (to_string_nat n). is_digit c"
  by (induction n rule: to_string_nat.induct) (subst to_string_nat.simps, auto)

lemma to_string_nat_nonempty [simp]: "to_string_nat n \<noteq> []"
  by (subst to_string_nat.simps) simp

lemma decimal_value_snoc [simp]: "decimal_value (ds @ [c]) = 10 * decimal_value ds + digit_value c"
  by (simp add: decimal_value_def)

lemma decimal_value_Nil [simp]: "decimal_value [] = 0"
  by (simp add: decimal_value_def)

lemma decimal_value_to_string [simp]: "decimal_value (to_string_nat n) = n"
proof (induction n rule: to_string_nat.induct)
  case (1 n)
  show ?case
  proof (cases "n < 10")
    case True
    then show ?thesis by (subst to_string_nat.simps) (simp add: decimal_value_def)
  next
    case False
    with 1 show ?thesis by (subst to_string_nat.simps) simp
  qed
qed

lemma not_digit_cr [simp]: "\<not> is_digit (CHR 0x0D)" and not_digit_minus [simp]: "\<not> is_digit (CHR ''-'')"
  by (simp_all add: is_digit_def)

lemma takeWhile_digits: "takeWhile is_digit (to_string_nat n) = to_string_nat n"
  using to_string_nat_digits by (simp add: takeWhile_eq_all_conv)

lemma to_string_nat_hd: "hd (to_string_nat n) \<noteq> CHR ''-''"
proof -
  have "is_digit (hd (to_string_nat n))"
    using to_string_nat_digits [of n] hd_in_set [OF to_string_nat_nonempty] by blast
  then show ?thesis by auto
qed

lemma from_chars_nat:
  "n < 2 ^ 63 \<Longrightarrow> from_chars (to_string_nat n) = (Some (int n), length (to_string_nat n))"
  by (simp add: from_chars_def Let_def to_string_nat_hd takeWhile_digits)

lemma from_chars_int:
  assumes "- (2 ^ 63) \<le> i" and "i < 2 ^ 63"
  shows "from_chars (to_string_int i) = (Some i, length (to_string_int i))"
proof (cases "i < 0")
  case True
  with assms show ?thesis
    by (simp add: from_chars_def to_string_int_def Let_def takeWhile_digits)
next
  case False
  with assms from_chars_nat [of "nat i"] show ?thesis by (simp add: to_string_int_def)
qed

lemma from_chars_value:
  "from_chars s = (Some v, n) \<Longrightarrow> - (2 ^ 63) \<le> v \<and> v < 2 ^ 63 \<and> n \<le> length s"
proof -
  assume a: "from_chars s = (Some v, n)"
  have "length (takeWhile is_digit (tl s)) \<le> length (tl s)" by (rule length_takeWhile_le)
  with a show ?thesis
    by (cases s) (auto simp: from_chars_def Let_def length_takeWhile_le split: if_splits)
qed

lemma cr_not_in_to_string [simp]: "CHR 0x0D \<notin> set (to_string_nat n)"
  using to_string_nat_digits by fastforce

end
