(* ===== verification/Incremental_Parser.thy ===== *)
theory Incremental_Parser
  imports Radish_Prelude
begin

text \<open>
  The contract between a request parser and a session that feeds it whatever bytes have
  arrived: the parser consumes something when it returns a command, and a verdict on some bytes
  is not changed by the bytes that follow. From this contract follows, once and for all, that
  the commands of a byte stream do not depend on how the stream was cut into pieces.
\<close>

datatype 'c outcome = Done 'c nat | More | Bad string

locale incremental_parser =
  fixes parse :: "'a list \<Rightarrow> 'c outcome"
  assumes parse_Nil: "parse [] = More"
    and done_consumes: "parse xs = Done c n \<Longrightarrow> 0 < n \<and> n \<le> length xs"
    and done_stable: "parse xs = Done c n \<Longrightarrow> parse (xs @ ys) = Done c n"
    and bad_stable: "parse xs = Bad e \<Longrightarrow> parse (xs @ ys) = Bad e"
begin

text \<open>The commands of a stream up to the first error, and what is left over.\<close>

function drain :: "'a list \<Rightarrow> 'c list \<times> string option \<times> 'a list" where
  "drain xs =
     (case parse xs of
        More \<Rightarrow> ([], None, xs)
      | Bad e \<Rightarrow> ([], Some e, xs)
      | Done c n \<Rightarrow> (case drain (drop n xs) of (cs, e, rest) \<Rightarrow> (c # cs, e, rest)))"
  by pat_completeness auto
termination
  by (relation "measure length") (auto dest: done_consumes)

declare drain.simps [simp del]

lemma drain_More: "parse xs = More \<Longrightarrow> drain xs = ([], None, xs)"
  by (subst drain.simps) simp

lemma drain_Bad: "parse xs = Bad e \<Longrightarrow> drain xs = ([], Some e, xs)"
  by (subst drain.simps) simp

lemma drain_Done:
  "parse xs = Done c n \<Longrightarrow> drain (drop n xs) = (cs, e, rest) \<Longrightarrow> drain xs = (c # cs, e, rest)"
  by (subst drain.simps) simp

text \<open>What is left over is not a command and not an error.\<close>

lemma drain_rest: "drain xs = (cs, None, rest) \<Longrightarrow> parse rest = More"
proof (induction xs arbitrary: cs rule: drain.induct)
  case (1 xs)
  show ?case
  proof (cases "parse xs")
    case (Done c n)
    with 1 show ?thesis
      by (cases "drain (drop n xs)") (auto simp: drain_Done)
  qed (use 1(2) in \<open>simp_all add: drain_More drain_Bad\<close>)
qed

text \<open>Cutting the stream: draining the first piece, then the left-over with the second piece.\<close>

lemma drain_append:
  assumes "drain xs = (cs, None, rest)" and "drain (rest @ ys) = (cs', e, rest')"
  shows "drain (xs @ ys) = (cs @ cs', e, rest')"
  using assms(1)
proof (induction xs arbitrary: cs rule: drain.induct)
  case (1 xs)
  show ?case
  proof (cases "parse xs")
    case More
    with 1(2) assms(2) show ?thesis by (simp add: drain_More)
  next
    case (Bad e)
    with 1(2) show ?thesis by (simp add: drain_Bad)
  next
    case (Done c n)
    obtain cs1 e1 rest1 where d: "drain (drop n xs) = (cs1, e1, rest1)" by (cases "drain (drop n xs)")
    with 1(2) Done have cs: "cs = c # cs1" "e1 = None" "rest1 = rest" by (simp_all add: drain_Done)
    from 1(1) [OF Done] d cs have "drain (drop n xs @ ys) = (cs1 @ cs', e, rest')" by simp
    moreover have "drop n (xs @ ys) = drop n xs @ ys" using done_consumes [OF Done] by simp
    ultimately show ?thesis using done_stable [OF Done, of ys] cs(1) by (simp add: drain_Done)
  qed
qed

text \<open>An error in the first piece hides everything that follows.\<close>

lemma drain_append_Bad:
  assumes "drain xs = (cs, Some e, rest)"
  shows "drain (xs @ ys) = (cs, Some e, rest @ ys)"
  using assms
proof (induction xs arbitrary: cs rule: drain.induct)
  case (1 xs)
  show ?case
  proof (cases "parse xs")
    case (Bad e')
    with 1(2) bad_stable [OF Bad, of ys] show ?thesis by (simp add: drain_Bad)
  next
    case (Done c n)
    obtain cs1 e1 rest1 where d: "drain (drop n xs) = (cs1, e1, rest1)" by (cases "drain (drop n xs)")
    with 1(2) Done have cs: "cs = c # cs1" "e1 = Some e" "rest1 = rest" by (simp_all add: drain_Done)
    from 1(1) [OF Done] d cs have "drain (drop n xs @ ys) = (cs1, Some e, rest @ ys)" by simp
    moreover have "drop n (xs @ ys) = drop n xs @ ys" using done_consumes [OF Done] by simp
    ultimately show ?thesis using done_stable [OF Done, of ys] cs(1) by (simp add: drain_Done)
  qed (use 1(2) in \<open>simp add: drain_More\<close>)
qed

text \<open>A strict prefix of what makes one command asks for more.\<close>

lemma strict_prefix_More:
  assumes "parse (xs @ ys) = Done c n" and "length xs < n"
  shows "parse xs = More"
proof (cases "parse xs")
  case (Done c' n')
  from done_stable [OF this, of ys] done_consumes [OF this] assms show ?thesis by simp
next
  case (Bad e)
  from bad_stable [OF this, of ys] assms show ?thesis by simp
qed

end

end
