(* ===== verification/Resp_Codec.thy ===== *)
theory Resp_Codec
  imports Decimal Incremental_Parser
begin

text \<open>
  \<^verbatim>\<open>include/network/RespCodec.h\<close> and \<^verbatim>\<open>src/network/RespCodec.cpp\<close>: parsing a client request
  from the bytes that have arrived, and encoding requests and replies. The parser works on
  offsets into its input as the code does; reading a character or a substring outside the input
  is an error value of the model, and the parser is shown never to do it.
\<close>

datatype RespVersion = Resp2 | Resp3

datatype RespStatus = Complete | Incomplete | StatusError

record RespParseResult =
  rp_status :: RespStatus
  rp_arguments :: "string list"
  rp_consumed :: nat
  rp_error :: string

definition kMaxArguments :: nat where
  "kMaxArguments = 1024"

definition kMaxBulkLength :: nat where
  "kMaxBulkLength = 4 * 1024 * 1024"

definition kMaxBufferedInput :: nat where
  "kMaxBufferedInput = 8 * 1024 * 1024"

abbreviation CR :: char where "CR \<equiv> CHR 0x0D"
abbreviation LF :: char where "LF \<equiv> CHR 0x0A"
abbreviation CRLF :: string where "CRLF \<equiv> [CR, LF]"

section \<open>String views\<close>

definition sv_at :: "string \<Rightarrow> nat \<Rightarrow> char result" where
  "sv_at s i = (if i < length s then Inr (s ! i) else Inl (UndefinedBehaviour ''string_view index''))"

definition sv_substr :: "string \<Rightarrow> nat \<Rightarrow> nat \<Rightarrow> string result" where
  "sv_substr s pos n = (if pos > length s then Inl (OutOfRange ''string_view::substr'') else Inr (take n (drop pos s)))"

fun crlf_index :: "string \<Rightarrow> nat option" where
  "crlf_index (a # b # cs) = (if a = CR \<and> b = LF then Some 0 else map_option Suc (crlf_index (b # cs)))"
| "crlf_index _ = None"

definition sv_find_crlf :: "string \<Rightarrow> nat \<Rightarrow> nat option" where
  "sv_find_crlf s pos = map_option (\<lambda>i. pos + i) (crlf_index (drop pos s))"

section \<open>Parsing\<close>

datatype NumberStatus = NumberComplete int nat | NumberIncomplete | NumberError

definition ParseNumber :: "string \<Rightarrow> nat \<Rightarrow> NumberStatus result" where
  "ParseNumber input offset =
     (case sv_find_crlf input offset of
        None \<Rightarrow> Inr NumberIncomplete
      | Some terminator \<Rightarrow>
          if terminator = offset then Inr NumberError
          else rbind (sv_substr input offset (terminator - offset)) (\<lambda>number.
            case from_chars number of
              (None, _) \<Rightarrow> Inr NumberError
            | (Some value, n) \<Rightarrow>
                if n \<noteq> length number then Inr NumberError
                else Inr (NumberComplete value (terminator + 2))))"

definition parse_more :: RespParseResult where
  "parse_more = \<lparr>rp_status = Incomplete, rp_arguments = [], rp_consumed = 0, rp_error = ''''\<rparr>"

definition parse_error :: "string \<Rightarrow> RespParseResult" where
  "parse_error message = \<lparr>rp_status = StatusError, rp_arguments = [], rp_consumed = 0, rp_error = message\<rparr>"

fun ParseCommand_loop :: "string \<Rightarrow> nat \<Rightarrow> nat \<Rightarrow> string list \<Rightarrow> RespParseResult result" where
  "ParseCommand_loop input 0 offset arguments =
     Inr \<lparr>rp_status = Complete, rp_arguments = arguments, rp_consumed = offset, rp_error = ''''\<rparr>"
| "ParseCommand_loop input (Suc remaining) offset arguments =
     (if offset = length input then Inr parse_more
      else
        rbind (sv_at input offset) (\<lambda>c.
        if c \<noteq> CHR ''$'' then Inr (parse_error ''Protocol error: expected a bulk string'')
        else
          rbind (ParseNumber input (offset + 1)) (\<lambda>lengthStatus.
          case lengthStatus of
            NumberIncomplete \<Rightarrow> Inr parse_more
          | NumberError \<Rightarrow> Inr (parse_error ''Protocol error: invalid bulk string length'')
          | NumberComplete len dataOffset \<Rightarrow>
              if len < 0 \<or> len > int kMaxBulkLength
              then Inr (parse_error ''Protocol error: invalid bulk string length'')
              else
                let bulkLength = nat len
                in if dataOffset > length input \<or> bulkLength > length input - dataOffset then Inr parse_more
                   else if length input - dataOffset - bulkLength < 2 then Inr parse_more
                   else
                     rbind (sv_at input (dataOffset + bulkLength)) (\<lambda>c1.
                     rbind (sv_at input (dataOffset + bulkLength + 1)) (\<lambda>c2.
                     if c1 \<noteq> CR \<or> c2 \<noteq> LF
                     then Inr (parse_error ''Protocol error: invalid bulk string terminator'')
                     else
                       rbind (sv_substr input dataOffset bulkLength) (\<lambda>argument.
                         ParseCommand_loop input remaining (dataOffset + bulkLength + 2) (arguments @ [argument])))))))"

definition ParseCommand :: "string \<Rightarrow> RespParseResult result" where
  "ParseCommand input =
     (if input = [] then Inr parse_more
      else
        rbind (sv_at input 0) (\<lambda>c.
        if c \<noteq> CHR ''*'' then Inr (parse_error ''Protocol error: expected an array request'')
        else
          rbind (ParseNumber input 1) (\<lambda>countStatus.
          case countStatus of
            NumberIncomplete \<Rightarrow> Inr parse_more
          | NumberError \<Rightarrow> Inr (parse_error ''Protocol error: invalid argument count'')
          | NumberComplete cnt offset \<Rightarrow>
              if cnt \<le> 0 \<or> cnt > int kMaxArguments
              then Inr (parse_error ''Protocol error: invalid argument count'')
              else ParseCommand_loop input (nat cnt) offset [])))"

section \<open>Encoding\<close>

definition SanitizeSimpleValue :: "string \<Rightarrow> string" where
  "SanitizeSimpleValue v = map (\<lambda>c. if c = CR \<or> c = LF then CHR '' '' else c) v"

definition EncodeCommand :: "string list \<Rightarrow> string" where
  "EncodeCommand arguments =
     foldl (\<lambda>result argument. result @ ''$'' @ to_string_nat (length argument) @ CRLF @ argument @ CRLF)
       (''*'' @ to_string_nat (length arguments) @ CRLF) arguments"

definition RespCodec_SimpleString :: "string \<Rightarrow> string" where
  "RespCodec_SimpleString v = ''+'' @ SanitizeSimpleValue v @ CRLF"

definition RespCodec_Error :: "string \<Rightarrow> string" where
  "RespCodec_Error message = ''-ERR '' @ SanitizeSimpleValue message @ CRLF"

definition RespCodec_Integer :: "int \<Rightarrow> string" where
  "RespCodec_Integer v = '':'' @ to_string_int v @ CRLF"

definition RespCodec_BulkString :: "string option \<Rightarrow> RespVersion \<Rightarrow> string" where
  "RespCodec_BulkString v version =
     (case v of
        None \<Rightarrow> if version = Resp3 then ''_'' @ CRLF else ''$-1'' @ CRLF
      | Some s \<Rightarrow> ''$'' @ to_string_nat (length s) @ CRLF @ s @ CRLF)"

definition RespCodec_Array :: "string list \<Rightarrow> RespVersion \<Rightarrow> string" where
  "RespCodec_Array values version =
     foldl (\<lambda>result v. result @ RespCodec_BulkString (Some v) Resp2)
       (''*'' @ to_string_nat (length values) @ CRLF) values"

fun Hello_loop :: "RespVersion \<Rightarrow> string list \<Rightarrow> nat \<Rightarrow> nat \<Rightarrow> string \<Rightarrow> string" where
  "Hello_loop version values 0 index result = result"
| "Hello_loop version values (Suc fuel) index result =
     (if index < length values - 2
      then Hello_loop version values fuel (index + 2)
             (result @ RespCodec_BulkString (Some (values ! index)) version @
              RespCodec_BulkString (Some (values ! (index + 1))) version)
      else result)"

definition hello_values :: "RespVersion \<Rightarrow> string list" where
  "hello_values version =
     [''server'', ''radish'', ''version'', ''0.1'', ''proto'', (if version = Resp3 then ''3'' else ''2''),
      ''mode'', ''standalone'', ''role'', ''master'', ''modules'', '''']"

definition RespCodec_Hello :: "RespVersion \<Rightarrow> string" where
  "RespCodec_Hello version =
     (let values = hello_values version
      in if version = Resp2 then RespCodec_Array values version
         else
           Hello_loop version values (length values) 0 (''%6'' @ CRLF) @
           RespCodec_BulkString (Some ''modules'') version @ ''*0'' @ CRLF)"

section \<open>Lemmas: searching\<close>

lemma crlf_index_bound: "crlf_index s = Some i \<Longrightarrow> i + 2 \<le> length s"
  by (induction s arbitrary: i rule: crlf_index.induct) (auto split: if_splits)

lemma crlf_index_append: "crlf_index s = Some i \<Longrightarrow> crlf_index (s @ t) = Some i"
  by (induction s arbitrary: i rule: crlf_index.induct) (auto split: if_splits)

lemma crlf_index_skip: "CR \<notin> set ds \<Longrightarrow> crlf_index (ds @ CR # LF # t) = Some (length ds)"
proof (induction ds)
  case (Cons d ds)
  then show ?case by (cases ds) auto
qed simp

lemma sv_find_bound:
  "sv_find_crlf s pos = Some t \<Longrightarrow> pos \<le> t \<and> t + 2 \<le> length s"
  using crlf_index_bound [of "drop pos s"] by (auto simp: sv_find_crlf_def)

lemma sv_find_append:
  assumes "sv_find_crlf s pos = Some i"
  shows "sv_find_crlf (s @ t) pos = Some i"
proof -
  have "pos \<le> length s" using sv_find_bound [OF assms] by simp
  with assms show ?thesis by (auto simp: sv_find_crlf_def crlf_index_append)
qed

lemma sv_at_append: "sv_at s i = Inr c \<Longrightarrow> sv_at (s @ t) i = Inr c"
  by (auto simp: sv_at_def nth_append split: if_splits)

text \<open>\<^const>\<open>ParseNumber\<close> stays inside its input and does not change its mind.\<close>

lemma ParseNumber_total: "\<exists>r. ParseNumber s pos = Inr r"
proof (cases "sv_find_crlf s pos")
  case (Some t)
  with sv_find_bound [OF this] show ?thesis
    by (auto simp: ParseNumber_def sv_substr_def split: prod.split option.split)
qed (simp add: ParseNumber_def)

lemma ParseNumber_bound:
  assumes "ParseNumber s pos = Inr (NumberComplete v next)"
  shows "pos < next \<and> next \<le> length s"
proof (cases "sv_find_crlf s pos")
  case None
  with assms show ?thesis by (simp add: ParseNumber_def)
next
  case (Some t)
  with assms sv_find_bound [OF this] show ?thesis
    by (auto simp: ParseNumber_def sv_substr_def split: prod.splits option.splits if_splits)
qed

lemma ParseNumber_append:
  assumes "ParseNumber s pos = Inr r" and "r \<noteq> NumberIncomplete"
  shows "ParseNumber (s @ t) pos = Inr r"
proof (cases "sv_find_crlf s pos")
  case None
  with assms show ?thesis by (simp add: ParseNumber_def)
next
  case (Some i)
  have b: "pos \<le> i" "i + 2 \<le> length s" using sv_find_bound [OF Some] by simp_all
  then have "take (i - pos) (drop pos (s @ t)) = take (i - pos) (drop pos s)" by simp
  then have "sv_substr (s @ t) pos (i - pos) = sv_substr s pos (i - pos)"
    using b by (simp add: sv_substr_def)
  with assms show ?thesis
    by (simp only: ParseNumber_def Some sv_find_append [OF Some] option.simps)
qed

lemma ParseNumber_to_string:
  assumes "n < 2 ^ 63"
  shows "ParseNumber (pre @ to_string_nat n @ CR # LF # rest) (length pre) =
    Inr (NumberComplete (int n) (length pre + length (to_string_nat n) + 2))"
proof -
  have "sv_find_crlf (pre @ to_string_nat n @ CR # LF # rest) (length pre) = Some (length pre + length (to_string_nat n))"
    using crlf_index_skip [of "to_string_nat n" rest] by (simp add: sv_find_crlf_def)
  then show ?thesis by (simp add: ParseNumber_def sv_substr_def from_chars_nat [OF assms])
qed


section \<open>Lemmas: requests\<close>

text \<open>What the parser may return, and the bounds on a complete request.\<close>

definition parse_ok :: "string \<Rightarrow> nat \<Rightarrow> RespParseResult \<Rightarrow> bool" where
  "parse_ok input k r \<longleftrightarrow>
     (if rp_status r = Complete
      then rp_consumed r \<le> length input \<and> length (rp_arguments r) = k \<and>
           (\<forall>a \<in> set (rp_arguments r). length a \<le> kMaxBulkLength) \<and> rp_error r = ''''
      else rp_arguments r = [] \<and> rp_consumed r = 0)"

lemma parse_ok_simps [simp]: "parse_ok input k parse_more" "parse_ok input k (parse_error message)"
  by (simp_all add: parse_ok_def parse_more_def parse_error_def)

text \<open>One turn of the loop, without the bounds checks that it turns out not to need.\<close>

datatype argument_step = Argument string nat | Stop RespParseResult

definition parse_argument :: "string \<Rightarrow> nat \<Rightarrow> argument_step" where
  "parse_argument input offset =
     (if offset = length input then Stop parse_more
      else if input ! offset \<noteq> CHR ''$'' then Stop (parse_error ''Protocol error: expected a bulk string'')
      else
        (case ParseNumber input (offset + 1) of
           Inr (NumberComplete len d) \<Rightarrow>
             if len < 0 \<or> len > int kMaxBulkLength
             then Stop (parse_error ''Protocol error: invalid bulk string length'')
             else if length input < d + nat len + 2 then Stop parse_more
             else if input ! (d + nat len) \<noteq> CR \<or> input ! (d + nat len + 1) \<noteq> LF
             then Stop (parse_error ''Protocol error: invalid bulk string terminator'')
             else Argument (take (nat len) (drop d input)) (d + nat len + 2)
         | Inr NumberError \<Rightarrow> Stop (parse_error ''Protocol error: invalid bulk string length'')
         | _ \<Rightarrow> Stop parse_more))"

lemma loop_Suc:
  assumes "offset \<le> length input"
  shows "ParseCommand_loop input (Suc remaining) offset args =
    (case parse_argument input offset of
       Stop r \<Rightarrow> Inr r
     | Argument a nxt \<Rightarrow> ParseCommand_loop input remaining nxt (args @ [a]))"
proof (cases "offset = length input \<or> input ! offset \<noteq> CHR ''$''")
  case True
  with assms show ?thesis by (auto simp: parse_argument_def sv_at_def)
next
  case False
  obtain st where st: "ParseNumber input (Suc offset) = Inr st" using ParseNumber_total by blast
  have at: "sv_at input offset = Inr (CHR ''$'')" using False assms by (simp add: sv_at_def)
  show ?thesis
  proof (cases st)
    case (NumberComplete len d)
    have d: "d \<le> length input" using ParseNumber_bound [OF st [unfolded NumberComplete]] by simp
    consider "len < 0 \<or> len > int kMaxBulkLength" | "length input < d + nat len + 2"
      | "0 \<le> len" "len \<le> int kMaxBulkLength" "d + nat len + 2 \<le> length input" by linarith
    then show ?thesis
    proof cases
      case 3
      then have "\<not> (d > length input \<or> nat len > length input - d)" "\<not> length input - d - nat len < 2" by linarith+
      moreover have "sv_at input (d + nat len) = Inr (input ! (d + nat len))"
        "sv_at input (d + nat len + 1) = Inr (input ! (d + nat len + 1))"
        "sv_substr input d (nat len) = Inr (take (nat len) (drop d input))"
        using 3(3) by (simp_all add: sv_at_def sv_substr_def)
      ultimately show ?thesis
        using False 3 at st NumberComplete by (simp add: parse_argument_def Let_def)
    next
      case 2
      then have "nat len > length input - d \<or> length input - d - nat len < 2" using d by linarith
      with 2 False at st NumberComplete show ?thesis by (auto simp: parse_argument_def Let_def)
    qed (use False at st NumberComplete in \<open>simp add: parse_argument_def\<close>)
  qed (use False at st in \<open>simp_all add: parse_argument_def\<close>)
qed

declare ParseCommand_loop.simps(2) [simp del]

lemma parse_argument_bound:
  assumes "parse_argument input offset = Argument a nxt"
  shows "offset < nxt \<and> nxt \<le> length input \<and> length a \<le> kMaxBulkLength"
  using assms ParseNumber_bound [of input "Suc offset"]
  by (auto simp: parse_argument_def split: if_splits sum.splits NumberStatus.splits)

lemma parse_argument_Stop:
  assumes "parse_argument input offset = Stop r"
  shows "r = parse_more \<or> (\<exists>message. r = parse_error message)"
  using assms by (auto simp: parse_argument_def split: if_splits sum.splits NumberStatus.splits)

lemma parse_argument_append:
  assumes "parse_argument input offset = st" and "st \<noteq> Stop parse_more" and "offset \<le> length input"
  shows "parse_argument (input @ t) offset = st"
proof -
  obtain n where n: "ParseNumber input (Suc offset) = Inr n" using ParseNumber_total by blast
  show ?thesis
  proof (cases "input ! offset = CHR ''$''")
    case True
    with assms n have "n \<noteq> NumberIncomplete" by (auto simp: parse_argument_def split: if_splits)
    from ParseNumber_append [OF n this] assms n ParseNumber_bound [of input "Suc offset"] True show ?thesis
      by (cases n) (auto simp: parse_argument_def nth_append split: if_splits)
  qed (use assms in \<open>auto simp: parse_argument_def nth_append split: if_splits\<close>)
qed

lemma loop_total:
  assumes "offset \<le> length input" and "\<forall>a \<in> set args. length a \<le> kMaxBulkLength"
  shows "\<exists>r. ParseCommand_loop input remaining offset args = Inr r \<and> parse_ok input (length args + remaining) r \<and>
    (rp_status r = Complete \<longrightarrow> offset \<le> rp_consumed r)"
  using assms
proof (induction remaining arbitrary: offset args)
  case 0
  then show ?case by (simp add: parse_ok_def)
next
  case (Suc remaining)
  show ?case
  proof (cases "parse_argument input offset")
    case (Argument a nxt)
    with parse_argument_bound [OF Argument] Suc.prems Suc.IH [of nxt "args @ [a]"] show ?thesis
      by (auto simp: loop_Suc)
  next
    case (Stop r)
    with parse_argument_Stop [OF Stop] Suc.prems(1) show ?thesis
      by (auto simp: loop_Suc) (simp_all add: parse_more_def parse_error_def)
  qed
qed

lemma loop_append:
  assumes "ParseCommand_loop input remaining offset args = Inr r" and "r \<noteq> parse_more" and "offset \<le> length input"
  shows "ParseCommand_loop (input @ t) remaining offset args = Inr r"
  using assms
proof (induction remaining arbitrary: offset args)
  case (Suc remaining)
  show ?case
  proof (cases "parse_argument input offset")
    case (Argument a nxt)
    with parse_argument_append [OF Argument] parse_argument_bound [OF Argument] Suc show ?thesis
      by (simp add: loop_Suc)
  next
    case (Stop r')
    with parse_argument_append [OF Stop] Suc.prems show ?thesis by (simp add: loop_Suc)
  qed
qed simp


lemma ParseCommand_total:
  "\<exists>r. ParseCommand input = Inr r \<and>
    (rp_status r = Complete \<longrightarrow> 0 < rp_consumed r \<and> rp_consumed r \<le> length input \<and>
       1 \<le> length (rp_arguments r) \<and> length (rp_arguments r) \<le> kMaxArguments \<and>
       (\<forall>a \<in> set (rp_arguments r). length a \<le> kMaxBulkLength)) \<and>
    (rp_status r \<noteq> Complete \<longrightarrow> rp_arguments r = [] \<and> rp_consumed r = 0)"
proof -
  obtain n where n: "ParseNumber input 1 = Inr n" using ParseNumber_total by blast
  show ?thesis
  proof (cases "\<exists>cnt offset. n = NumberComplete cnt offset \<and> 0 < cnt \<and> cnt \<le> int kMaxArguments \<and>
      input \<noteq> [] \<and> input ! 0 = CHR ''*''")
    case True
    then obtain cnt offset where c: "n = NumberComplete cnt offset" "0 < cnt" "cnt \<le> int kMaxArguments"
      "input \<noteq> []" "input ! 0 = CHR ''*''" by blast
    have o: "1 < offset" "offset \<le> length input" using ParseNumber_bound [OF n [unfolded c(1)]] by simp_all
    have eq: "ParseCommand input = ParseCommand_loop input (nat cnt) offset []"
      using c n by (simp add: ParseCommand_def sv_at_def)
    from loop_total [OF o(2), of "[]" "nat cnt"] obtain r where
      "ParseCommand_loop input (nat cnt) offset [] = Inr r" "parse_ok input (nat cnt) r"
      "rp_status r = Complete \<longrightarrow> offset \<le> rp_consumed r" by auto
    with eq o c(2,3) show ?thesis by (auto simp: parse_ok_def split: if_splits)
  next
    case False
    then have "ParseCommand input = Inr parse_more \<or> (\<exists>m. ParseCommand input = Inr (parse_error m))"
      using n by (cases n) (auto simp: ParseCommand_def sv_at_def)
    then show ?thesis by (auto simp: parse_more_def parse_error_def)
  qed
qed

lemma ParseCommand_append:
  assumes "ParseCommand input = Inr r" and "rp_status r \<noteq> Incomplete"
  shows "ParseCommand (input @ t) = Inr r"
proof -
  have r: "r \<noteq> parse_more" using assms(2) by (auto simp: parse_more_def)
  with assms(1) have ne: "input \<noteq> []" by (auto simp: ParseCommand_def)
  then have at: "sv_at input 0 = Inr (input ! 0)" "sv_at (input @ t) 0 = Inr (input ! 0)"
    by (auto simp: sv_at_def nth_append)
  obtain n where n: "ParseNumber input 1 = Inr n" using ParseNumber_total by blast
  show ?thesis
  proof (cases "input ! 0 = CHR ''*''")
    case True
    with assms(1) n r ne at have ni: "n \<noteq> NumberIncomplete" by (auto simp: ParseCommand_def)
    from ParseNumber_append [OF n ni] n assms(1) r ne at True loop_append [of input _ _ "[]" r t] ParseNumber_bound [of input 1]
    show ?thesis by (cases n) (auto simp: ParseCommand_def split: if_splits)
  qed (use assms(1) ne at in \<open>simp add: ParseCommand_def\<close>)
qed

section \<open>The codec as an incremental parser\<close>

definition command_outcome :: "string \<Rightarrow> string list outcome" where
  "command_outcome input =
     (case ParseCommand input of
        Inl _ \<Rightarrow> More
      | Inr r \<Rightarrow>
          (case rp_status r of
             Complete \<Rightarrow> Done (rp_arguments r) (rp_consumed r)
           | Incomplete \<Rightarrow> More
           | StatusError \<Rightarrow> Bad (rp_error r)))"

interpretation rc: incremental_parser command_outcome
proof
  show "command_outcome [] = More"
    by (simp add: command_outcome_def ParseCommand_def parse_more_def)
next
  fix xs c n assume "command_outcome xs = Done c n"
  with ParseCommand_total [of xs] show "0 < n \<and> n \<le> length xs"
    by (auto simp: command_outcome_def split: sum.splits RespStatus.splits)
next
  fix xs ys :: string and c n assume d: "command_outcome xs = Done c n"
  then obtain r where "ParseCommand xs = Inr r" "rp_status r = Complete"
    by (auto simp: command_outcome_def split: sum.splits RespStatus.splits)
  with ParseCommand_append [of xs r ys] d show "command_outcome (xs @ ys) = Done c n"
    by (simp add: command_outcome_def)
next
  fix xs ys :: string and e assume d: "command_outcome xs = Bad e"
  then obtain r where "ParseCommand xs = Inr r" "rp_status r = StatusError"
    by (auto simp: command_outcome_def split: sum.splits RespStatus.splits)
  with ParseCommand_append [of xs r ys] d show "command_outcome (xs @ ys) = Bad e"
    by (simp add: command_outcome_def)
qed

section \<open>Encoding and parsing\<close>

definition encode_argument :: "string \<Rightarrow> string" where
  "encode_argument a = ''$'' @ to_string_nat (length a) @ CRLF @ a @ CRLF"

definition command_ok :: "string list \<Rightarrow> bool" where
  "command_ok args \<longleftrightarrow> args \<noteq> [] \<and> length args \<le> kMaxArguments \<and> (\<forall>a \<in> set args. length a \<le> kMaxBulkLength)"

lemma foldl_append_concat: "foldl (\<lambda>r a. r @ f a) r xs = r @ concat (map f xs)"
  by (induction xs arbitrary: r) simp_all

lemma EncodeCommand_eq:
  "EncodeCommand args = ''*'' @ to_string_nat (length args) @ CRLF @ concat (map encode_argument args)"
  unfolding EncodeCommand_def by (simp add: foldl_append_concat encode_argument_def [abs_def])

lemma small_numbers: "n \<le> kMaxBulkLength \<Longrightarrow> n < 2 ^ 63" "n \<le> kMaxArguments \<Longrightarrow> n < 2 ^ 63"
  by (simp_all add: kMaxBulkLength_def kMaxArguments_def)

lemma parse_argument_encode:
  assumes "length a \<le> kMaxBulkLength"
  shows "parse_argument (pre @ encode_argument a @ rest) (length pre) =
    Argument a (length pre + length (encode_argument a))"
proof -
  let ?in = "pre @ encode_argument a @ rest"
  define head where "head = pre @ ''$'' @ to_string_nat (length a) @ CRLF"
  have split: "?in = head @ a @ CRLF @ rest" by (simp add: head_def encode_argument_def)
  have "ParseNumber ((pre @ ''$'') @ to_string_nat (length a) @ CR # LF # a @ CRLF @ rest) (length (pre @ ''$'')) =
      Inr (NumberComplete (int (length a)) (length (pre @ ''$'') + length (to_string_nat (length a)) + 2))"
    using small_numbers(1) [OF assms] by (rule ParseNumber_to_string)
  then have number: "ParseNumber ?in (length pre + 1) = Inr (NumberComplete (int (length a)) (length head))"
    by (simp add: encode_argument_def head_def)
  have first: "?in ! length pre = CHR ''$''" "length pre \<noteq> length ?in"
    by (simp_all add: encode_argument_def nth_append)
  have body: "take (length a) (drop (length head) ?in) = a" "\<not> length ?in < length head + length a + 2"
    "?in ! (length head + length a) = CR" "?in ! (length head + length a + 1) = LF"
    unfolding split by (simp_all add: nth_append)
  have "length head + length a + 2 = length pre + length (encode_argument a)"
    by (simp add: head_def encode_argument_def)
  with first number body assms show ?thesis by (simp add: parse_argument_def)
qed

lemma loop_encode:
  assumes "\<forall>a \<in> set args. length a \<le> kMaxBulkLength"
  shows "ParseCommand_loop (pre @ concat (map encode_argument args) @ rest) (length args) (length pre) acc =
    Inr \<lparr>rp_status = Complete, rp_arguments = acc @ args,
         rp_consumed = length pre + length (concat (map encode_argument args)), rp_error = ''''\<rparr>"
  using assms
proof (induction args arbitrary: pre acc)
  case (Cons a args)
  have "parse_argument (pre @ encode_argument a @ concat (map encode_argument args) @ rest) (length pre) =
      Argument a (length pre + length (encode_argument a))"
    using Cons.prems by (intro parse_argument_encode) simp
  with Cons.IH [of "pre @ encode_argument a" "acc @ [a]"] Cons.prems show ?case
    by (simp add: loop_Suc)
qed simp

lemma ParseCommand_encode:
  assumes "command_ok args"
  shows "ParseCommand (EncodeCommand args @ rest) =
    Inr \<lparr>rp_status = Complete, rp_arguments = args, rp_consumed = length (EncodeCommand args), rp_error = ''''\<rparr>"
proof -
  let ?head = "''*'' @ to_string_nat (length args) @ CRLF" and ?body = "concat (map encode_argument args)"
  have len: "0 < length args" "length args \<le> kMaxArguments" using assms by (auto simp: command_ok_def)
  have "ParseNumber (''*'' @ to_string_nat (length args) @ CR # LF # ?body @ rest) (length ''*'') =
      Inr (NumberComplete (int (length args)) (length ''*'' + length (to_string_nat (length args)) + 2))"
    using small_numbers(2) [OF len(2)] by (rule ParseNumber_to_string)
  moreover have "ParseCommand_loop (?head @ ?body @ rest) (length args) (length ?head) [] =
      Inr \<lparr>rp_status = Complete, rp_arguments = args, rp_consumed = length ?head + length ?body, rp_error = ''''\<rparr>"
    using loop_encode [of args ?head rest "[]"] assms by (simp add: command_ok_def)
  ultimately show ?thesis using len
    by (simp add: EncodeCommand_eq ParseCommand_def sv_at_def)
qed


lemma sanitize_clean: "CR \<notin> set (SanitizeSimpleValue v)" "LF \<notin> set (SanitizeSimpleValue v)"
  by (auto simp: SanitizeSimpleValue_def)

lemma sanitize_length [simp]: "length (SanitizeSimpleValue v) = length v"
  by (simp add: SanitizeSimpleValue_def)

lemma sanitize_idem: "CR \<notin> set v \<Longrightarrow> LF \<notin> set v \<Longrightarrow> SanitizeSimpleValue v = v"
  unfolding SanitizeSimpleValue_def by (rule map_idI) auto

section \<open>Properties\<close>

text \<open>
  (C26) Whatever bytes arrive, the parser never reads outside its input; a complete request has
  between one and 1024 arguments of at most 4 MiB and consumed some bytes of the input; any
  other verdict returns no argument and consumes nothing.
\<close>

theorem parser_stays_in_bounds:
  "\<exists>r. ParseCommand input = Inr r \<and>
    (if rp_status r = Complete
     then 0 < rp_consumed r \<and> rp_consumed r \<le> length input \<and>
          1 \<le> length (rp_arguments r) \<and> length (rp_arguments r) \<le> kMaxArguments \<and>
          list_all (\<lambda>a. length a \<le> kMaxBulkLength) (rp_arguments r)
     else rp_arguments r = [] \<and> rp_consumed r = 0)"
  using ParseCommand_total [of input] by (auto simp: list_all_iff)

text \<open>
  (C21) A request that the client encoded is parsed back exactly, byte for byte, with whatever
  follows it left over, and every strict prefix of it makes the parser wait for more.
\<close>

theorem request_round_trip:
  assumes "command_ok args"
  shows "ParseCommand (EncodeCommand args @ rest) =
      Inr \<lparr>rp_status = Complete, rp_arguments = args, rp_consumed = length (EncodeCommand args), rp_error = ''''\<rparr> \<and>
    (n < length (EncodeCommand args) \<longrightarrow>
      (\<exists>r. ParseCommand (take n (EncodeCommand args)) = Inr r \<and> rp_status r = Incomplete))"
proof (intro conjI impI)
  show "ParseCommand (EncodeCommand args @ rest) =
      Inr \<lparr>rp_status = Complete, rp_arguments = args, rp_consumed = length (EncodeCommand args), rp_error = ''''\<rparr>"
    using assms by (rule ParseCommand_encode)
  assume n: "n < length (EncodeCommand args)"
  have "command_outcome (take n (EncodeCommand args) @ drop n (EncodeCommand args)) = Done args (length (EncodeCommand args))"
    using ParseCommand_encode [OF assms, of "[]"] by (simp add: command_outcome_def)
  from rc.strict_prefix_More [OF this] n have "command_outcome (take n (EncodeCommand args)) = More" by simp
  with ParseCommand_total [of "take n (EncodeCommand args)"]
  show "\<exists>r. ParseCommand (take n (EncodeCommand args)) = Inr r \<and> rp_status r = Incomplete"
    by (auto simp: command_outcome_def split: RespStatus.splits)
qed

theorem request_round_trip_witness:
  "ParseCommand (EncodeCommand [''SET'', ''k'', [CHR 0x00, CR, LF]] @ ''*1'') =
     Inr \<lparr>rp_status = Complete, rp_arguments = [''SET'', ''k'', [CHR 0x00, CR, LF]],
          rp_consumed = length (EncodeCommand [''SET'', ''k'', [CHR 0x00, CR, LF]]), rp_error = ''''\<rparr>"
proof -
  have "command_ok [''SET'', ''k'', [CHR 0x00, CR, LF]]"
    by (simp add: command_ok_def kMaxArguments_def kMaxBulkLength_def)
  from request_round_trip [OF this, of "''*1''"] show ?thesis by blast
qed

text \<open>
  A verdict of the parser is final: once it accepts or rejects the bytes received so far,
  bytes that arrive later do not change what it returns for them.
\<close>

lemma parser_verdict_is_final:
  assumes "ParseCommand input = Inr r" and "rp_status r \<noteq> Incomplete"
  shows "ParseCommand (input @ later) = Inr r"
  using assms by (rule ParseCommand_append)

lemma parser_verdict_is_final_witness:
  "ParseCommand (''+PING'' @ CRLF) = Inr (parse_error ''Protocol error: expected an array request'')"
proof -
  have "ParseCommand ''+'' = Inr (parse_error ''Protocol error: expected an array request'')"
    by (simp add: ParseCommand_def sv_at_def)
  from parser_verdict_is_final [OF this, of "''PING'' @ CRLF"] show ?thesis
    by (simp add: parse_error_def)
qed

text \<open>
  No value or message can break the framing of a one-line reply: status and error replies
  end at the first line terminator of the stream, whatever was put into them, and text without
  line breaks is passed on unchanged.
\<close>

lemma simple_replies_are_one_line:
  "crlf_index (RespCodec_SimpleString v @ rest) = Some (length v + 1) \<and>
   crlf_index (RespCodec_Error v @ rest) = Some (length v + 5) \<and>
   LF \<notin> set (take (length v + 1) (RespCodec_SimpleString v)) \<and>
   LF \<notin> set (take (length v + 5) (RespCodec_Error v)) \<and>
   (CR \<in> set v \<or> LF \<in> set v \<or> RespCodec_SimpleString v = ''+'' @ v @ CRLF \<and> RespCodec_Error v = ''-ERR '' @ v @ CRLF)"
proof -
  have "crlf_index ((''+'' @ SanitizeSimpleValue v) @ CR # LF # rest) = Some (length (''+'' @ SanitizeSimpleValue v))"
    by (rule crlf_index_skip) (use sanitize_clean in auto)
  moreover have "crlf_index ((''-ERR '' @ SanitizeSimpleValue v) @ CR # LF # rest) = Some (length (''-ERR '' @ SanitizeSimpleValue v))"
    by (rule crlf_index_skip) (use sanitize_clean in auto)
  ultimately show ?thesis
    using sanitize_clean(2) [of v] sanitize_idem [of v]
    by (auto simp: RespCodec_SimpleString_def RespCodec_Error_def eval_nat_numeral)
qed

end
