(* ===== verification/Journal.thy ===== *)
theory Journal
  imports Radish_Prelude
begin

text \<open>
  The contract of a journal: what \<^verbatim>\<open>RadishDB\<close> relies on when it rebuilds a store from the
  log. Replaying folds the same application of an event that committed it, a refused event
  changes nothing, and applying an event keeps the store well formed.
\<close>

locale journal =
  fixes apply1 :: "'t \<Rightarrow> 's \<Rightarrow> 'e \<Rightarrow> (bool \<times> 's) result"
    and replay :: "(nat \<Rightarrow> 't) \<Rightarrow> nat \<Rightarrow> 'e list \<Rightarrow> 's \<Rightarrow> 's result"
    and invar :: "'s \<Rightarrow> bool"
  assumes replay_Nil: "replay now i [] s = Inr s"
    and replay_Cons: "replay now i (e # es) s = rbind (apply1 (now i) s e) (\<lambda>(_, s1). replay now (Suc i) es s1)"
    and refused: "invar s \<Longrightarrow> apply1 t s e = Inr (False, s1) \<Longrightarrow> s1 = s"
    and invar_apply: "invar s \<Longrightarrow> apply1 t s e = Inr (b, s1) \<Longrightarrow> invar s1"
begin

lemma replay_append:
  "replay now i (xs @ ys) s = rbind (replay now i xs s) (replay now (i + length xs) ys)"
proof (induction xs arbitrary: i s)
  case Nil
  then show ?case by (simp add: replay_Nil)
next
  case (Cons x xs)
  then show ?case
    by (cases "apply1 (now i) s x") (auto simp: replay_Cons split: prod.splits)
qed

lemma replay_snoc:
  "replay now i (xs @ [e]) s =
     rbind (replay now i xs s) (\<lambda>s1. rbind (apply1 (now (i + length xs)) s1 e) (\<lambda>(_, s2). Inr s2))"
proof -
  have "replay now j [e] = (\<lambda>s1. rbind (apply1 (now j) s1 e) (\<lambda>(_, s2). Inr s2))" for j
    by (rule ext) (simp add: replay_Cons replay_Nil)
  then show ?thesis by (simp add: replay_append)
qed

lemma invar_replay: "invar s \<Longrightarrow> replay now i es s = Inr s1 \<Longrightarrow> invar s1"
  by (induction es arbitrary: i s) (auto simp: replay_Nil replay_Cons result_simps dest: invar_apply)

text \<open>A refused event can be left out of the log.\<close>

lemma replay_refused_last:
  assumes "invar s" and "replay now i xs s = Inr s1" and "apply1 (now (i + length xs)) s1 e = Inr (False, s2)"
  shows "replay now i (xs @ [e]) s = Inr s1"
proof -
  have "invar s1" using assms(1,2) by (rule invar_replay)
  then have "s2 = s1" using assms(3) by (rule refused)
  with assms(2,3) show ?thesis by (simp add: replay_snoc)
qed

text \<open>Two clocks that make every application behave the same give the same replay.\<close>

lemma replay_clock_cong:
  assumes "P s" and "\<And>t s e b s1. P s \<Longrightarrow> apply1 t s e = Inr (b, s1) \<Longrightarrow> P s1"
    and "\<And>t t' s e. P s \<Longrightarrow> e \<in> set es \<Longrightarrow> apply1 t s e = apply1 t' s e"
  shows "replay now i es s = replay now' i' es s"
  using assms(1,3)
proof (induction es arbitrary: i i' s)
  case Nil
  then show ?case by (simp add: replay_Nil)
next
  case (Cons e es)
  have same: "apply1 (now' i') s e = apply1 (now i) s e"
    using Cons.prems by simp
  have rest: "replay now (Suc i) es s1 = replay now' (Suc i') es s1" if "apply1 (now i) s e = Inr (b, s1)" for b s1
    using assms(2) [OF Cons.prems(1) that] Cons.prems(2) by (intro Cons.IH) auto
  show ?case
    using rest by (cases "apply1 (now i) s e") (auto simp: replay_Cons same)
qed

text \<open>Committing an event after a replay is replaying a log that has it at its end.\<close>

lemma replay_commit:
  assumes "replay now 0 es s = Inr s1" and "apply1 t s1 e = Inr (b, s2)"
  shows "replay (now(length es := t)) 0 (es @ [e]) s = Inr s2"
proof -
  have upd: "replay (now(n := t)) i es s = replay now i es s" if "i + length es \<le> n" for n i s
    using that
  proof (induction es arbitrary: i s)
    case Nil
    then show ?case by (simp add: replay_Nil)
  next
    case (Cons x xs)
    have "(now(n := t)) i = now i" using Cons.prems by auto
    moreover have "replay (now(n := t)) (Suc i) xs s' = replay now (Suc i) xs s'" for s'
      using Cons.prems by (intro Cons.IH) simp
    ultimately show ?case by (simp only: replay_Cons)
  qed
  show ?thesis using assms upd [of 0 "length es" s] by (simp add: replay_snoc)
qed

end

end
