(* ===== verification/Binary_File.thy ===== *)
theory Binary_File
  imports Radish_Prelude
begin

text \<open>
  The binary streams of the standard library as the persistence layer uses them, and
  \<^verbatim>\<open>include/persistence/BinaryFile.h\<close> over them.

  The class template \<^verbatim>\<open>BinaryFile\<close> dispatches at compile time on the value type:
  arithmetic and enumeration types are written as their object representation, containers of
  trivially copyable elements as a 32-bit byte count followed by their bytes. A value of either
  kind is modelled by its bytes and its type by a \<open>TType\<close>: the width of the type, or the
  width of the container's elements. Multi-byte integers are little-endian, as on every
  platform the build supports.

  The locale \<open>stream_codec\<close> is the contract between a writer and the reader of what it
  wrote; \<^verbatim>\<open>BinaryFile\<close> and \<^verbatim>\<open>RadishEvent\<close> both satisfy it.
\<close>

section \<open>Streams\<close>

text \<open>
  An output stream: the bytes accepted so far, the number of bytes the device still accepts
  (\<open>None\<close> for a string stream, which accepts everything) and the error flag. A write that
  does not fit hands over the bytes that do and sets the flag; later writes do nothing.
\<close>

record ostream =
  obuf :: "char list"
  oroom :: "nat option"
  obad :: bool

definition ostringstream :: ostream where
  "ostringstream = \<lparr>obuf = [], oroom = None, obad = False\<rparr>"

definition ofstream :: "nat option \<Rightarrow> ostream" where
  "ofstream room = \<lparr>obuf = [], oroom = room, obad = False\<rparr>"

definition ostream_write :: "char list \<Rightarrow> ostream \<Rightarrow> ostream" where
  "ostream_write bs s =
     (if obad s then s
      else case oroom s of
             None \<Rightarrow> s\<lparr>obuf := obuf s @ bs\<rparr>
           | Some n \<Rightarrow>
               if length bs \<le> n then s\<lparr>obuf := obuf s @ bs, oroom := Some (n - length bs)\<rparr>
               else s\<lparr>obuf := obuf s @ take n bs, oroom := Some 0, obad := True\<rparr>)"

text \<open>
  An input stream: the bytes left, the number of bytes after which the device reports a read
  error (\<open>None\<close>: never), the fail and end-of-file flags. Reading past the end sets both
  flags, a device error sets only the first.
\<close>

record istream =
  ibuf :: "char list"
  ierr :: "nat option"
  ifail :: bool
  ieof :: bool

definition istringstream :: "char list \<Rightarrow> istream" where
  "istringstream bs = \<lparr>ibuf = bs, ierr = None, ifail = False, ieof = False\<rparr>"

definition ifstream :: "nat option \<Rightarrow> char list \<Rightarrow> istream" where
  "ifstream err bs = \<lparr>ibuf = bs, ierr = err, ifail = False, ieof = False\<rparr>"

definition istream_read :: "nat \<Rightarrow> istream \<Rightarrow> char list \<times> istream" where
  "istream_read n s =
     (if ifail s then ([], s)
      else case ierr s of
             None \<Rightarrow>
               if n \<le> length (ibuf s) then (take n (ibuf s), s\<lparr>ibuf := drop n (ibuf s)\<rparr>)
               else (ibuf s, s\<lparr>ibuf := [], ifail := True, ieof := True\<rparr>)
           | Some m \<Rightarrow>
               if n \<le> min m (length (ibuf s))
               then (take n (ibuf s), s\<lparr>ibuf := drop n (ibuf s), ierr := Some (m - n)\<rparr>)
               else if m < length (ibuf s)
               then (take m (ibuf s), s\<lparr>ibuf := drop m (ibuf s), ierr := Some 0, ifail := True\<rparr>)
               else (ibuf s, s\<lparr>ibuf := [], ifail := True, ieof := True\<rparr>))"

text \<open>\<^verbatim>\<open>peek() != EOF\<close>: a byte is left to read.\<close>

definition istream_has_more :: "istream \<Rightarrow> bool" where
  "istream_has_more s = (\<not> ifail s \<and> ibuf s \<noteq> [])"

section \<open>BinaryFile\<close>

datatype TType = BinaryType nat | HeapAllocated nat

abbreviation std_string :: TType where
  "std_string \<equiv> HeapAllocated 1"

definition BinarySize_max :: nat where
  "BinarySize_max = 2 ^ 32 - 1"

definition BinaryFile_Write :: "TType \<Rightarrow> char list \<Rightarrow> ostream \<Rightarrow> unit result \<times> ostream" where
  "BinaryFile_Write ty v s =
     (case ty of
        HeapAllocated w \<Rightarrow>
          if length v div w > BinarySize_max div w
          then (Inl (LengthError ''Binary value is too large to serialize''), s)
          else let bytes = (of_nat (length v div w * w) :: BinarySize);
                   s1 = ostream_write (le_bytes 4 (unat bytes)) s;
                   s2 = ostream_write (take (unat bytes) v) s1
               in (if obad s2 then Inl (IosFailure ''Failed to write binary value'') else Inr (), s2)
      | BinaryType w \<Rightarrow>
          let s1 = ostream_write v s
          in (if obad s1 then Inl (IosFailure ''Failed to write binary value'') else Inr (), s1))"

definition BinaryFile_Write_optional ::
    "TType \<Rightarrow> char list option \<Rightarrow> ostream \<Rightarrow> unit result \<times> ostream" where
  "BinaryFile_Write_optional ty v s =
     (case v of
        None \<Rightarrow> (Inl (InvalidArgument ''Cannot serialize a missing required field''), s)
      | Some bs \<Rightarrow> BinaryFile_Write ty bs s)"

definition BinaryFile_Read :: "TType \<Rightarrow> istream \<Rightarrow> char list result \<times> istream" where
  "BinaryFile_Read ty s =
     (case ty of
        HeapAllocated w \<Rightarrow>
          let (b, s1) = istream_read 4 s; bytes = le_nat b
          in if ifail s1 \<or> bytes mod w \<noteq> 0
             then (Inl (RuntimeError ''Invalid binary value length''), s1)
             else let (v, s2) = istream_read bytes s1
                  in (if ifail s2 then Inl (RuntimeError ''Unexpected end of binary value'') else Inr v, s2)
      | BinaryType w \<Rightarrow>
          let (v, s1) = istream_read w s
          in (if ifail s1 then Inl (RuntimeError ''Unexpected end of binary value'') else Inr v, s1))"

definition BinaryFile_Read_optional ::
    "TType \<Rightarrow> istream \<Rightarrow> char list option result \<times> istream" where
  "BinaryFile_Read_optional ty s =
     (case BinaryFile_Read ty s of (Inl e, s1) \<Rightarrow> (Inl e, s1) | (Inr v, s1) \<Rightarrow> (Inr (Some v), s1))"

text \<open>
  The values of a type: the bytes of an object of that width, or of a whole number of elements
  that the 32-bit byte count can express.
\<close>

fun value_ok :: "TType \<Rightarrow> char list \<Rightarrow> bool" where
  "value_ok (BinaryType w) v = (length v = w)"
| "value_ok (HeapAllocated w) v = (w dvd length v \<and> length v \<le> BinarySize_max)"

fun value_bytes :: "TType \<Rightarrow> char list \<Rightarrow> char list" where
  "value_bytes (BinaryType w) v = v"
| "value_bytes (HeapAllocated w) v = le_bytes 4 (length v) @ v"

section \<open>The contract of a codec on streams\<close>

locale stream_codec =
  fixes put :: "'a \<Rightarrow> ostream \<Rightarrow> unit result \<times> ostream"
    and get :: "istream \<Rightarrow> 'a result \<times> istream"
    and ok :: "'a \<Rightarrow> bool"
    and enc :: "'a \<Rightarrow> char list"
  assumes put_enc:
      "ok x \<Longrightarrow> oroom s = None \<Longrightarrow> \<not> obad s \<Longrightarrow> put x s = (Inr (), s\<lparr>obuf := obuf s @ enc x\<rparr>)"
    and get_enc: "ok x \<Longrightarrow> get (istringstream (enc x @ rest)) = (Inr x, istringstream rest)"
    and get_sound: "get (istringstream bs) = (Inr x, t) \<Longrightarrow>
      \<exists>rest. ok x \<and> bs = enc x @ rest \<and> t = istringstream rest"
begin

lemma put_string: "ok x \<Longrightarrow> put x ostringstream = (Inr (), \<lparr>obuf = enc x, oroom = None, obad = False\<rparr>)"
  by (simp add: put_enc ostringstream_def)

lemma round_trip:
  "ok x \<Longrightarrow> get (istringstream (obuf (snd (put x ostringstream)) @ rest)) = (Inr x, istringstream rest)"
  by (simp add: put_string get_enc)

text \<open>Encodings are prefix-free: what a reader takes off a stream is determined by the stream.\<close>

lemma enc_prefix_free:
  assumes "ok x" and "ok y" and "enc x @ r = enc y @ t"
  shows "x = y \<and> r = t"
proof -
  have "(Inr x, istringstream r) = get (istringstream (enc y @ t))"
    using get_enc [OF assms(1), of r] assms(3) by simp
  also have "\<dots> = (Inr y, istringstream t)"
    by (rule get_enc [OF assms(2)])
  finally show ?thesis by (simp add: istringstream_def)
qed

text \<open>A truncated encoding is never read as a value.\<close>

lemma get_torn:
  assumes "ok x" and "n < length (enc x)"
  shows "\<exists>e s. get (istringstream (take n (enc x))) = (Inl e, s)"
proof (cases "get (istringstream (take n (enc x)))")
  case (Pair r s)
  show ?thesis
  proof (cases r)
    case (Inl e)
    with Pair show ?thesis by blast
  next
    case (Inr y)
    with Pair get_sound obtain rest where y: "ok y" "take n (enc x) = enc y @ rest"
      by blast
    have "enc x @ [] = enc y @ (rest @ drop n (enc x))"
      using y(2) append_take_drop_id [of n "enc x"] by simp
    then have "x = y" and "[] = rest @ drop n (enc x)"
      using enc_prefix_free [OF assms(1) y(1)] by blast+
    with assms(2) show ?thesis by simp
  qed
qed

end

section \<open>Lemmas\<close>

lemma ostream_write_string [simp]:
  "oroom s = None \<Longrightarrow> \<not> obad s \<Longrightarrow> ostream_write bs s = s\<lparr>obuf := obuf s @ bs\<rparr>"
  by (simp add: ostream_write_def)

lemma ostream_write_append:
  "ostream_write (a @ b) s = ostream_write b (ostream_write a s)"
  by (auto simp: ostream_write_def min_def split: option.splits)

lemma ostream_write_limited:
  "ostream_write bs (ofstream room) =
     (case room of
        None \<Rightarrow> \<lparr>obuf = bs, oroom = None, obad = False\<rparr>
      | Some n \<Rightarrow> if length bs \<le> n then \<lparr>obuf = bs, oroom = Some (n - length bs), obad = False\<rparr>
                  else \<lparr>obuf = take n bs, oroom = Some 0, obad = True\<rparr>)"
  by (simp add: ostream_write_def ofstream_def split: option.splits)

lemma istream_read_string [simp]:
  "istream_read n (istringstream bs) =
     (if n \<le> length bs then (take n bs, istringstream (drop n bs))
      else (bs, \<lparr>ibuf = [], ierr = None, ifail = True, ieof = True\<rparr>))"
  by (simp add: istream_read_def istringstream_def)

lemma istringstream_sel [simp]:
  "ibuf (istringstream bs) = bs" "\<not> ifail (istringstream bs)" "\<not> ieof (istringstream bs)"
  by (simp_all add: istringstream_def)

lemma istringstream_inject [simp]: "istringstream a = istringstream b \<longleftrightarrow> a = b"
  by (simp add: istringstream_def)

lemma ifstream_None: "ifstream None bs = istringstream bs"
  by (simp add: ifstream_def istringstream_def)

lemma has_more_string [simp]: "istream_has_more (istringstream bs) \<longleftrightarrow> bs \<noteq> []"
  by (simp add: istream_has_more_def)

lemma istream_read_length:
  "istream_read n s = (b, s') \<Longrightarrow> \<not> ifail s' \<Longrightarrow>
     length b = n \<and> length (ibuf s') + n = length (ibuf s)"
  by (auto simp: istream_read_def split: if_splits option.splits)

lemma BinarySize_max_less: "n \<le> BinarySize_max \<Longrightarrow> unat (of_nat n :: BinarySize) = n"
  by (simp add: BinarySize_max_def unat_of_nat)

lemma value_ok_fits:
  assumes "value_ok (HeapAllocated w) v"
  shows "length v div w \<le> BinarySize_max div w" and "length v div w * w = length v"
proof -
  from assms have "w dvd length v" and le: "length v \<le> BinarySize_max" by auto
  then show "length v div w * w = length v" by simp
  show "length v div w \<le> BinarySize_max div w" using le by (rule div_le_mono)
qed

lemma BinaryFile_Write_enc:
  assumes "value_ok ty v" and "oroom s = None" and "\<not> obad s"
  shows "BinaryFile_Write ty v s = (Inr (), s\<lparr>obuf := obuf s @ value_bytes ty v\<rparr>)"
proof (cases ty)
  case (BinaryType w)
  with assms show ?thesis by (simp add: BinaryFile_Write_def)
next
  case (HeapAllocated w)
  with assms(1) have "\<not> length v div w > BinarySize_max div w" "length v div w * w = length v"
    "unat (of_nat (length v) :: BinarySize) = length v"
    using value_ok_fits [of w v] by (simp_all add: BinarySize_max_less)
  with HeapAllocated assms(2,3) show ?thesis
    by (simp add: BinaryFile_Write_def Let_def del: of_nat_mult)
qed

lemma le_nat_length: "length v \<le> BinarySize_max \<Longrightarrow> le_nat (le_bytes 4 (length v)) = length v"
  by (rule le_nat_le_bytes_less) (simp add: BinarySize_max_def)

lemma BinaryFile_Read_enc:
  assumes "value_ok ty v"
  shows "BinaryFile_Read ty (istringstream (value_bytes ty v @ rest)) = (Inr v, istringstream rest)"
proof (cases ty)
  case (BinaryType w)
  with assms show ?thesis by (simp add: BinaryFile_Read_def)
next
  case (HeapAllocated w)
  with assms have "le_nat (le_bytes 4 (length v)) = length v" "length v mod w = 0"
    by (simp_all add: le_nat_length)
  with HeapAllocated show ?thesis
    by (simp add: BinaryFile_Read_def Let_def)
qed

lemma BinaryFile_Read_sound:
  assumes "BinaryFile_Read ty (istringstream bs) = (Inr v, s)"
  shows "\<exists>rest. value_ok ty v \<and> bs = value_bytes ty v @ rest \<and> s = istringstream rest"
proof (cases ty)
  case (BinaryType w)
  with assms have w: "w \<le> length bs" "v = take w bs" "s = istringstream (drop w bs)"
    by (auto simp: BinaryFile_Read_def split: if_splits)
  then have "value_ok ty v \<and> bs = value_bytes ty v @ drop w bs" using BinaryType by simp
  with w(3) show ?thesis by blast
next
  case (HeapAllocated w)
  let ?n = "le_nat (take 4 bs)" and ?r = "drop 4 bs"
  from assms HeapAllocated have n: "4 \<le> length bs" "?n mod w = 0" "?n \<le> length ?r"
    and v: "v = take ?n ?r" and s: "s = istringstream (drop ?n ?r)"
    by (auto simp: BinaryFile_Read_def Let_def split: if_splits)
  have "?n < 256 ^ 4" using le_nat_less [of "take 4 bs"] n(1) by simp
  then have "?n \<le> BinarySize_max" by (simp add: BinarySize_max_def)
  moreover have "length v = ?n" using v n(3) by simp
  moreover have "le_bytes 4 ?n = take 4 bs" using le_bytes_le_nat [of "take 4 bs"] n(1) by simp
  moreover have "bs = take 4 bs @ take ?n ?r @ drop ?n ?r" by (simp only: append_take_drop_id)
  ultimately have "value_ok ty v \<and> bs = value_bytes ty v @ drop ?n ?r"
    using HeapAllocated n(2) v by (simp add: mod_0_imp_dvd)
  with s show ?thesis by blast
qed

interpretation bf: stream_codec "BinaryFile_Write ty" "BinaryFile_Read ty" "value_ok ty" "value_bytes ty"
  for ty
  by unfold_locales (blast intro: BinaryFile_Write_enc BinaryFile_Read_enc BinaryFile_Read_sound)+

section \<open>Properties\<close>

text \<open>
  A value of either kind that is written to a healthy stream reads back unchanged and the
  reader stops exactly after it; a container whose byte count does not fit 32 bits is refused
  before anything is written.
\<close>

lemma binary_value_round_trip:
  "(value_ok ty v \<longrightarrow> (\<exists>bytes. BinaryFile_Write ty v ostringstream = (Inr (), \<lparr>obuf = bytes, oroom = None, obad = False\<rparr>) \<and>
      BinaryFile_Read ty (istringstream (bytes @ rest)) = (Inr v, istringstream rest))) \<and>
   (0 < w \<and> BinarySize_max div w < length u div w \<longrightarrow>
      BinaryFile_Write (HeapAllocated w) u s = (Inl (LengthError ''Binary value is too large to serialize''), s))"
proof (intro conjI impI)
  assume "value_ok ty v"
  then show "\<exists>bytes. BinaryFile_Write ty v ostringstream = (Inr (), \<lparr>obuf = bytes, oroom = None, obad = False\<rparr>) \<and>
      BinaryFile_Read ty (istringstream (bytes @ rest)) = (Inr v, istringstream rest)"
    using bf.put_string bf.get_enc by blast
qed (simp add: BinaryFile_Write_def)

end
