(* ===== verification/Radish_Event.thy ===== *)
theory Radish_Event
  imports Binary_File
begin

text \<open>
  \<^verbatim>\<open>include/enums/EventType.h\<close> and \<^verbatim>\<open>include/RadishEvent.h\<close>: the event types with their
  names, the event record, and its operation-driven binary form. An \<^verbatim>\<open>EventType\<close> has a fixed
  underlying type, so it can hold any 8-bit value; it is an \<open>8 word\<close> and the four
  enumerators are values of it.

  Shown here: a well-formed event survives serialisation and deserialisation unchanged and
  leaves the rest of the stream untouched, a truncated one is rejected, an unknown type byte is
  rejected on both paths, and what is deserialised is always well formed.
\<close>

section \<open>Event types\<close>

type_synonym EventType = "8 word"

abbreviation CREATE :: EventType where "CREATE \<equiv> 0"
abbreviation RENAME :: EventType where "RENAME \<equiv> 1"
abbreviation DELETE :: EventType where "DELETE \<equiv> 2"
abbreviation CLEAR :: EventType where "CLEAR \<equiv> 3"

definition TryGetEventTypeByName :: "string \<Rightarrow> EventType option" where
  "TryGetEventTypeByName name =
     (if name = ''CREATE'' then Some CREATE
      else if name = ''RENAME'' then Some RENAME
      else if name = ''DELETE'' then Some DELETE
      else if name = ''CLEAR'' then Some CLEAR
      else None)"

definition TryGetNameByEventType :: "EventType \<Rightarrow> string option" where
  "TryGetNameByEventType type =
     (if type = CREATE then Some ''CREATE''
      else if type = RENAME then Some ''RENAME''
      else if type = DELETE then Some ''DELETE''
      else if type = CLEAR then Some ''CLEAR''
      else None)"

section \<open>Events\<close>

record RadishEvent =
  m_type :: EventType
  m_timestamp :: Timestamp
  m_key :: "string option"
  m_renameKey :: "string option"
  m_payload :: "char list option"

definition RadishEvent_default :: RadishEvent where
  "RadishEvent_default =
     \<lparr>m_type = 0, m_timestamp = 0, m_key = None, m_renameKey = None, m_payload = None\<rparr>"

text \<open>The constructor and the accessors.\<close>

abbreviation RadishEvent_new ::
    "EventType \<Rightarrow> Timestamp \<Rightarrow> string option \<Rightarrow> string option \<Rightarrow> char list option \<Rightarrow> RadishEvent" where
  "RadishEvent_new type timestamp key renameKey payload \<equiv>
     \<lparr>m_type = type, m_timestamp = timestamp, m_key = key, m_renameKey = renameKey, m_payload = payload\<rparr>"

abbreviation GetEventType :: "RadishEvent \<Rightarrow> EventType" where
  "GetEventType event \<equiv> m_type event"

abbreviation GetTimestamp :: "RadishEvent \<Rightarrow> Timestamp" where
  "GetTimestamp event \<equiv> m_timestamp event"

abbreviation GetKey :: "RadishEvent \<Rightarrow> string option" where
  "GetKey event \<equiv> m_key event"

abbreviation GetRenameKey :: "RadishEvent \<Rightarrow> string option" where
  "GetRenameKey event \<equiv> m_renameKey event"

abbreviation GetPayload :: "RadishEvent \<Rightarrow> char list option" where
  "GetPayload event \<equiv> m_payload event"

text \<open>The events the database builds.\<close>

abbreviation create_event :: "Timestamp \<Rightarrow> string \<Rightarrow> char list \<Rightarrow> RadishEvent" where
  "create_event t k v \<equiv> \<lparr>m_type = CREATE, m_timestamp = t, m_key = Some k, m_renameKey = None, m_payload = Some v\<rparr>"

abbreviation rename_event :: "string \<Rightarrow> string \<Rightarrow> RadishEvent" where
  "rename_event a b \<equiv> \<lparr>m_type = RENAME, m_timestamp = -1, m_key = Some a, m_renameKey = Some b, m_payload = None\<rparr>"

abbreviation delete_event :: "string \<Rightarrow> RadishEvent" where
  "delete_event k \<equiv> \<lparr>m_type = DELETE, m_timestamp = -1, m_key = Some k, m_renameKey = None, m_payload = None\<rparr>"

abbreviation clear_event :: RadishEvent where
  "clear_event \<equiv> \<lparr>m_type = CLEAR, m_timestamp = -1, m_key = None, m_renameKey = None, m_payload = None\<rparr>"

definition RadishEvent_SetKey :: "string \<Rightarrow> RadishEvent \<Rightarrow> RadishEvent" where
  "RadishEvent_SetKey key e = e\<lparr>m_key := Some key\<rparr>"

definition RadishEvent_ValidateType :: "RadishEvent \<Rightarrow> unit result" where
  "RadishEvent_ValidateType e =
     (if m_type e \<noteq> CREATE \<and> m_type e \<noteq> RENAME \<and> m_type e \<noteq> DELETE \<and> m_type e \<noteq> CLEAR
      then Inl (RuntimeError ''Invalid event type in persistence log'')
      else Inr ())"

definition RadishEvent_Serialize :: "TType \<Rightarrow> RadishEvent \<Rightarrow> ostream \<Rightarrow> unit result \<times> ostream" where
  "RadishEvent_Serialize ty e s0 =
     sbind (RadishEvent_ValidateType e, s0) (\<lambda>_ s.
     sbind (BinaryFile_Write (BinaryType 1) (le_bytes 1 (unat (m_type e))) s) (\<lambda>_ s.
     sbind (BinaryFile_Write (BinaryType 8) (le_bytes 8 (unat (m_timestamp e))) s) (\<lambda>_ s.
     if m_type e = CLEAR then (Inr (), s)
     else
       sbind (BinaryFile_Write_optional std_string (m_key e) s) (\<lambda>_ s.
       sbind (if m_type e = RENAME then BinaryFile_Write_optional std_string (m_renameKey e) s
              else (Inr (), s)) (\<lambda>_ s.
       if m_type e = DELETE \<or> m_type e = RENAME then (Inr (), s)
       else BinaryFile_Write_optional ty (m_payload e) s)))))"

definition RadishEvent_Deserialize :: "TType \<Rightarrow> RadishEvent \<Rightarrow> istream \<Rightarrow> RadishEvent result \<times> istream" where
  "RadishEvent_Deserialize ty e0 s0 =
     (let e1 = e0\<lparr>m_key := None, m_renameKey := None, m_payload := None\<rparr> in
      sbind (BinaryFile_Read (BinaryType 1) s0) (\<lambda>t s.
      let e2 = e1\<lparr>m_type := of_nat (le_nat t)\<rparr> in
      sbind (RadishEvent_ValidateType e2, s) (\<lambda>_ s.
      sbind (BinaryFile_Read (BinaryType 8) s) (\<lambda>ts s.
      let e3 = e2\<lparr>m_timestamp := of_nat (le_nat ts)\<rparr> in
      if m_type e3 = CLEAR then (Inr e3, s)
      else
        sbind (BinaryFile_Read_optional std_string s) (\<lambda>k s.
        let e4 = e3\<lparr>m_key := k\<rparr> in
        sbind (if m_type e4 = RENAME
               then sbind (BinaryFile_Read_optional std_string s) (\<lambda>r s. (Inr (e4\<lparr>m_renameKey := r\<rparr>), s))
               else (Inr e4, s)) (\<lambda>e5 s.
        if m_type e5 = DELETE \<or> m_type e5 = RENAME then (Inr e5, s)
        else sbind (BinaryFile_Read_optional ty s) (\<lambda>p s. (Inr (e5\<lparr>m_payload := p\<rparr>), s))))))))"

section \<open>Well-formed events and their binary form\<close>

text \<open>The fields each operation uses, and only those.\<close>

definition event_ok :: "TType \<Rightarrow> RadishEvent \<Rightarrow> bool" where
  "event_ok ty e =
     (if m_type e = CREATE
      then (case (m_key e, m_payload e) of (Some k, Some p) \<Rightarrow> value_ok std_string k \<and> value_ok ty p | _ \<Rightarrow> False)
           \<and> m_renameKey e = None
      else if m_type e = RENAME
      then (case (m_key e, m_renameKey e) of
              (Some k, Some r) \<Rightarrow> value_ok std_string k \<and> value_ok std_string r | _ \<Rightarrow> False)
           \<and> m_payload e = None
      else if m_type e = DELETE
      then (case m_key e of Some k \<Rightarrow> value_ok std_string k | None \<Rightarrow> False)
           \<and> m_renameKey e = None \<and> m_payload e = None
      else m_type e = CLEAR \<and> m_key e = None \<and> m_renameKey e = None \<and> m_payload e = None)"

definition event_bytes :: "TType \<Rightarrow> RadishEvent \<Rightarrow> char list" where
  "event_bytes ty e =
     le_bytes 1 (unat (m_type e)) @ le_bytes 8 (unat (m_timestamp e)) @
     (if m_type e = CLEAR then []
      else value_bytes std_string (case m_key e of Some k \<Rightarrow> k | None \<Rightarrow> []) @
        (if m_type e = RENAME then value_bytes std_string (case m_renameKey e of Some r \<Rightarrow> r | None \<Rightarrow> [])
         else if m_type e = DELETE then []
         else value_bytes ty (case m_payload e of Some p \<Rightarrow> p | None \<Rightarrow> [])))"

section \<open>Lemmas\<close>

lemma TryGet_round_trip:
  "TryGetEventTypeByName name = Some t \<longleftrightarrow> TryGetNameByEventType t = Some name"
  by (auto simp: TryGetEventTypeByName_def TryGetNameByEventType_def)

lemma ValidateType_iff:
  "RadishEvent_ValidateType e = Inr () \<longleftrightarrow> m_type e \<in> {CREATE, RENAME, DELETE, CLEAR}"
  by (simp add: RadishEvent_ValidateType_def)

lemma event_ok_cases [consumes 1, case_names Create Rename Delete Clear]:
  assumes "event_ok ty e"
  obtains (Create) ts k p where "e = \<lparr>m_type = CREATE, m_timestamp = ts, m_key = Some k, m_renameKey = None, m_payload = Some p\<rparr>"
      "value_ok std_string k" "value_ok ty p"
  | (Rename) ts k r where "e = \<lparr>m_type = RENAME, m_timestamp = ts, m_key = Some k, m_renameKey = Some r, m_payload = None\<rparr>"
      "value_ok std_string k" "value_ok std_string r"
  | (Delete) ts k where "e = \<lparr>m_type = DELETE, m_timestamp = ts, m_key = Some k, m_renameKey = None, m_payload = None\<rparr>"
      "value_ok std_string k"
  | (Clear) ts where "e = \<lparr>m_type = CLEAR, m_timestamp = ts, m_key = None, m_renameKey = None, m_payload = None\<rparr>"
proof (cases e)
  case (fields t ts k r p)
  have "t = CREATE \<or> t = RENAME \<or> t = DELETE \<or> t = CLEAR"
    using assms by (simp add: fields event_ok_def split: if_splits)
  then consider "t = CREATE" | "t = RENAME" | "t = DELETE" | "t = CLEAR"
    by blast
  then show thesis
  proof cases
    case 1
    then obtain k' p' where "k = Some k'" "p = Some p'" "r = None"
      "value_ok std_string k'" "value_ok ty p'"
      using assms by (simp add: fields event_ok_def del: value_ok.simps split: option.splits)
    with 1 fields show thesis using Create [of ts k' p'] by simp
  next
    case 2
    then obtain k' r' where "k = Some k'" "r = Some r'" "p = None"
      "value_ok std_string k'" "value_ok std_string r'"
      using assms by (simp add: fields event_ok_def del: value_ok.simps split: option.splits)
    with 2 fields show thesis using Rename [of ts k' r'] by simp
  next
    case 3
    then obtain k' where "k = Some k'" "r = None" "p = None" "value_ok std_string k'"
      using assms by (simp add: fields event_ok_def del: value_ok.simps split: option.splits)
    with 3 fields show thesis using Delete [of ts k'] by simp
  next
    case 4
    then have "k = None" "r = None" "p = None"
      using assms by (simp_all add: fields event_ok_def)
    with 4 fields show thesis using Clear [of ts] by simp
  qed
qed

lemma write_optional_enc:
  "value_ok ty v \<Longrightarrow> oroom s = None \<Longrightarrow> \<not> obad s \<Longrightarrow>
     BinaryFile_Write_optional ty (Some v) s = (Inr (), s\<lparr>obuf := obuf s @ value_bytes ty v\<rparr>)"
  by (simp add: BinaryFile_Write_optional_def bf.put_enc)

lemma read_optional_enc:
  "value_ok ty v \<Longrightarrow>
     BinaryFile_Read_optional ty (istringstream (value_bytes ty v @ rest)) = (Inr (Some v), istringstream rest)"
  by (simp add: BinaryFile_Read_optional_def bf.get_enc)

lemma write_raw_enc:
  "length v = w \<Longrightarrow> oroom s = None \<Longrightarrow> \<not> obad s \<Longrightarrow>
     BinaryFile_Write (BinaryType w) v s = (Inr (), s\<lparr>obuf := obuf s @ v\<rparr>)"
  using bf.put_enc [of "BinaryType w" v s] by simp

lemma read_raw_enc:
  "length v = w \<Longrightarrow> BinaryFile_Read (BinaryType w) (istringstream (v @ rest)) = (Inr v, istringstream rest)"
  using bf.get_enc [of "BinaryType w" v rest] by simp

lemmas event_stream_simps =
  write_optional_enc read_optional_enc write_raw_enc read_raw_enc
  RadishEvent_ValidateType_def RadishEvent_default_def Let_def

lemma Serialize_enc:
  assumes "event_ok ty e" and "oroom s = None" and "\<not> obad s"
  shows "RadishEvent_Serialize ty e s = (Inr (), s\<lparr>obuf := obuf s @ event_bytes ty e\<rparr>)"
  using assms(1)
proof (cases rule: event_ok_cases)
qed (use assms(2,3) in \<open>simp_all add: RadishEvent_Serialize_def event_bytes_def event_stream_simps
        del: value_bytes.simps value_ok.simps le_bytes.simps\<close>)

lemma Deserialize_enc:
  assumes "event_ok ty e"
  shows "RadishEvent_Deserialize ty e0 (istringstream (event_bytes ty e @ rest)) = (Inr e, istringstream rest)"
  using assms
proof (cases rule: event_ok_cases)
qed (cases e0, simp add: RadishEvent_Deserialize_def event_bytes_def event_stream_simps
        le_nat_le_bytes [of "Suc 0"] del: value_bytes.simps value_ok.simps le_bytes.simps)+

text \<open>Reading one field: what was read, written again, is the front of the stream.\<close>

lemma read_raw_sound:
  assumes "BinaryFile_Read (BinaryType w) (istringstream bs) = (Inr v, s)"
  shows "length v = w \<and> (\<exists>rest. bs = v @ rest \<and> s = istringstream rest)"
  using bf.get_sound [OF assms] by auto

lemma read_optional_sound:
  assumes "BinaryFile_Read_optional ty (istringstream bs) = (Inr x, s)"
  shows "\<exists>v rest. x = Some v \<and> value_ok ty v \<and> bs = value_bytes ty v @ rest \<and> s = istringstream rest"
  using assms bf.get_sound [of ty bs]
  by (auto simp: BinaryFile_Read_optional_def split: prod.splits sum.splits)

lemma type_byte:
  "length t = 1 \<Longrightarrow> le_bytes 1 (unat (of_nat (le_nat t) :: 8 word)) = t"
proof -
  assume t: "length t = 1"
  then have "le_nat t < 256" using le_nat_less [of t] by simp
  then have "unat (of_nat (le_nat t) :: 8 word) = le_nat t" by (simp add: unat_of_nat)
  with t show ?thesis using le_bytes_le_nat [of t] by simp
qed

lemma timestamp_bytes:
  "length t = 8 \<Longrightarrow> le_bytes 8 (unat (of_nat (le_nat t) :: 64 word)) = t"
proof -
  assume t: "length t = 8"
  then have "le_nat t < 2 ^ 64" using le_nat_less [of t] by simp
  then have "unat (of_nat (le_nat t) :: 64 word) = le_nat t" by (simp add: unat_of_nat)
  with t show ?thesis using le_bytes_le_nat [of t] by simp
qed

text \<open>Whatever is deserialised is a well-formed event, and its serialisation is what was read.\<close>

lemma Deserialize_sound:
  assumes "RadishEvent_Deserialize ty e0 (istringstream bs) = (Inr e, s)"
  shows "\<exists>rest. event_ok ty e \<and> bs = event_bytes ty e @ rest \<and> s = istringstream rest"
proof -
  obtain t s1 where rd: "BinaryFile_Read (BinaryType 1) (istringstream bs) = (Inr t, s1)"
    using assms unfolding RadishEvent_Deserialize_def Let_def by (elim sbind_InrE)
  obtain bs1 where t: "length t = 1" "bs = t @ bs1" "s1 = istringstream bs1"
    using read_raw_sound [OF rd] by blast
  define et where "et = (of_nat (le_nat t) :: EventType)"
  note D1 = assms [unfolded RadishEvent_Deserialize_def Let_def rd sbind_simps, folded et_def]
  obtain ts s2 where rd2: "BinaryFile_Read (BinaryType 8) s1 = (Inr ts, s2)"
    using D1 by (elim sbind_InrE) blast
  obtain bs2 where ts: "length ts = 8" "bs1 = ts @ bs2" "s2 = istringstream bs2"
    using read_raw_sound rd2 t(3) by blast
  have tb: "le_bytes 1 (unat et) = t" unfolding et_def using t(1) by (rule type_byte)
  have tsb: "le_bytes 8 (unat (of_nat (le_nat ts) :: 64 word)) = ts" using ts(1) by (rule timestamp_bytes)
  have "et \<in> {CREATE, RENAME, DELETE, CLEAR}"
    using D1 by (elim sbind_InrE) (simp add: RadishEvent_ValidateType_def split: if_splits)
  then consider "et = CREATE" | "et = RENAME" | "et = DELETE" | "et = CLEAR" by blast
  then show ?thesis
  proof cases
    case 1
    with D1 obtain k s3 p s4 where k: "BinaryFile_Read_optional std_string s2 = (Inr k, s3)"
      and p: "BinaryFile_Read_optional ty s3 = (Inr p, s4)"
      and e: "s = s4" "e = \<lparr>m_type = CREATE, m_timestamp = of_nat (le_nat ts), m_key = k, m_renameKey = None, m_payload = p\<rparr>"
      by (cases e0) (auto simp: RadishEvent_ValidateType_def rd2 elim!: sbind_InrE)
    from read_optional_sound [OF k [unfolded ts(3)]] obtain kv bs3 where
      k': "k = Some kv" "value_ok std_string kv" "bs2 = value_bytes std_string kv @ bs3" "s3 = istringstream bs3" by blast
    from read_optional_sound [OF p [unfolded k'(4)]] obtain pv bs4 where
      p': "p = Some pv" "value_ok ty pv" "bs3 = value_bytes ty pv @ bs4" "s4 = istringstream bs4" by blast
    show ?thesis
      using 1 t(2) ts(2) tb tsb e k'(1,2,3) p'
      by (simp add: event_ok_def event_bytes_def del: value_ok.simps value_bytes.simps le_bytes.simps)
  next
    case 2
    with D1 obtain k s3 r s4 where k: "BinaryFile_Read_optional std_string s2 = (Inr k, s3)"
      and r: "BinaryFile_Read_optional std_string s3 = (Inr r, s4)"
      and e: "s = s4" "e = \<lparr>m_type = RENAME, m_timestamp = of_nat (le_nat ts), m_key = k, m_renameKey = r, m_payload = None\<rparr>"
      by (cases e0) (auto simp: RadishEvent_ValidateType_def rd2 elim!: sbind_InrE)
    from read_optional_sound [OF k [unfolded ts(3)]] obtain kv bs3 where
      k': "k = Some kv" "value_ok std_string kv" "bs2 = value_bytes std_string kv @ bs3" "s3 = istringstream bs3" by blast
    from read_optional_sound [OF r [unfolded k'(4)]] obtain rv bs4 where
      r': "r = Some rv" "value_ok std_string rv" "bs3 = value_bytes std_string rv @ bs4" "s4 = istringstream bs4" by blast
    show ?thesis
      using 2 t(2) ts(2) tb tsb e k'(1,2,3) r'
      by (simp add: event_ok_def event_bytes_def del: value_ok.simps value_bytes.simps le_bytes.simps)
  next
    case 3
    with D1 obtain k s3 where k: "BinaryFile_Read_optional std_string s2 = (Inr k, s3)"
      and e: "s = s3" "e = \<lparr>m_type = DELETE, m_timestamp = of_nat (le_nat ts), m_key = k, m_renameKey = None, m_payload = None\<rparr>"
      by (cases e0) (auto simp: RadishEvent_ValidateType_def rd2 elim!: sbind_InrE)
    from read_optional_sound [OF k [unfolded ts(3)]] obtain kv bs3 where
      k': "k = Some kv" "value_ok std_string kv" "bs2 = value_bytes std_string kv @ bs3" "s3 = istringstream bs3" by blast
    show ?thesis
      using 3 t(2) ts(2) tb tsb e k'
      by (simp add: event_ok_def event_bytes_def del: value_ok.simps value_bytes.simps le_bytes.simps)
  next
    case 4
    with D1 have "e = \<lparr>m_type = CLEAR, m_timestamp = of_nat (le_nat ts), m_key = None, m_renameKey = None, m_payload = None\<rparr>"
      "s = s2"
      by (cases e0, auto simp: RadishEvent_ValidateType_def rd2)+
    then show ?thesis
      using 4 t(2) ts(2,3) tb tsb by (simp add: event_ok_def event_bytes_def del: le_bytes.simps)
  qed
qed

interpretation ev: stream_codec "RadishEvent_Serialize ty" "RadishEvent_Deserialize ty e0" "event_ok ty" "event_bytes ty"
  for ty e0
  by unfold_locales (blast intro: Serialize_enc Deserialize_enc Deserialize_sound)+

section \<open>Properties\<close>

text \<open>
  (C24) Serialising a well-formed event and deserialising the bytes gives the event back and
  leaves whatever follows in the stream untouched, whatever the previous state of the event
  that is read into; a strict prefix of the bytes is rejected.
\<close>

theorem event_round_trip:
  assumes "event_ok ty e"
  shows "\<exists>bytes. RadishEvent_Serialize ty e ostringstream = (Inr (), \<lparr>obuf = bytes, oroom = None, obad = False\<rparr>) \<and>
    RadishEvent_Deserialize ty e0 (istringstream (bytes @ rest)) = (Inr e, istringstream rest) \<and>
    (\<forall>n < length bytes. \<exists>err s. RadishEvent_Deserialize ty e0 (istringstream (take n bytes)) = (Inl err, s))"
  using ev.put_string [OF assms] ev.get_enc [OF assms] ev.get_torn [OF assms] by blast

definition blob_event :: RadishEvent where
  "blob_event = create_event 123 ''blob'' [CHR 0x00, CHR 0xFF]"

lemma blob_event_ok: "event_ok std_string blob_event"
  by (simp add: event_ok_def blob_event_def BinarySize_max_def)

theorem event_round_trip_witness:
  "\<exists>bytes. RadishEvent_Serialize std_string blob_event ostringstream =
       (Inr (), \<lparr>obuf = bytes, oroom = None, obad = False\<rparr>) \<and>
     RadishEvent_Deserialize std_string RadishEvent_default (istringstream (bytes @ ''x'')) =
       (Inr blob_event, istringstream ''x'')"
  using event_round_trip [OF blob_event_ok, of RadishEvent_default "''x''"] by blast

text \<open>
  (C25) Deserialisation accepts nothing but serialised events: whatever it returns is well
  formed for its type, and the bytes it consumed are exactly the serialisation of what it
  returned.
\<close>

theorem event_deserialize_sound:
  assumes "RadishEvent_Deserialize ty e0 (istringstream bs) = (Inr e, s)"
  shows "\<exists>rest. event_ok ty e \<and> s = istringstream rest \<and>
    RadishEvent_Serialize ty e ostringstream = (Inr (), \<lparr>obuf = take (length bs - length rest) bs, oroom = None, obad = False\<rparr>)"
proof -
  from ev.get_sound [OF assms] obtain rest where r: "event_ok ty e" "bs = event_bytes ty e @ rest" "s = istringstream rest"
    by blast
  with ev.put_string [OF r(1)] show ?thesis by auto
qed

theorem event_deserialize_sound_witness:
  "\<exists>rest. event_ok std_string clear_event \<and> istringstream ''z'' = istringstream rest \<and>
     RadishEvent_Serialize std_string clear_event ostringstream =
       (Inr (), \<lparr>obuf = take (length (event_bytes std_string clear_event @ ''z'') - length rest) (event_bytes std_string clear_event @ ''z''),
                 oroom = None, obad = False\<rparr>)"
proof (rule event_deserialize_sound [where ?e0.0 = RadishEvent_default])
  show "RadishEvent_Deserialize std_string RadishEvent_default (istringstream (event_bytes std_string clear_event @ ''z''))
      = (Inr clear_event, istringstream ''z'')"
    by (rule ev.get_enc) (simp add: event_ok_def)
qed

text \<open>
  A byte that is not one of the four event types is refused on both paths: serialising
  such an event writes nothing and throws, and deserialising a record that starts with such a
  byte throws.
\<close>

lemma unknown_event_type_rejected:
  assumes "m_type e \<notin> {CREATE, RENAME, DELETE, CLEAR}"
  shows "RadishEvent_Serialize ty e s = (Inl (RuntimeError ''Invalid event type in persistence log''), s) \<and>
    RadishEvent_Deserialize ty e0 (istringstream (le_bytes 1 (unat (m_type e)) @ rest)) =
      (Inl (RuntimeError ''Invalid event type in persistence log''), istringstream rest)"
proof (intro conjI)
  show "RadishEvent_Serialize ty e s = (Inl (RuntimeError ''Invalid event type in persistence log''), s)"
    using assms by (simp add: RadishEvent_Serialize_def RadishEvent_ValidateType_def)
  have "BinaryFile_Read (BinaryType 1) (istringstream (le_bytes 1 (unat (m_type e)) @ rest)) =
      (Inr (le_bytes 1 (unat (m_type e))), istringstream rest)"
    by (rule read_raw_enc) simp
  moreover have "(of_nat (le_nat (le_bytes 1 (unat (m_type e)))) :: EventType) = m_type e"
    by (simp only: le_nat_word8) simp
  ultimately show "RadishEvent_Deserialize ty e0 (istringstream (le_bytes 1 (unat (m_type e)) @ rest)) =
      (Inl (RuntimeError ''Invalid event type in persistence log''), istringstream rest)"
    using assms by (simp only: RadishEvent_Deserialize_def Let_def sbind_simps) (simp add: RadishEvent_ValidateType_def)
qed

end
