(* ===== verification/Log_Reader.thy ===== *)
theory Log_Reader
  imports Radish_Event
begin

text \<open>
  \<^verbatim>\<open>include/persistence/LogReader.h\<close>: reading the append-only log back. The file system
  maps file names to contents. What the device does during one operation (whether files open,
  after how many bytes a read fails, how many bytes can be written) is a \<open>Device\<close>, a
  parameter of every operation that touches files.

  The lemmas characterise the reader completely: which contents it accepts, which events it
  returns for them, and that an unfinished last record is dropped without harm.
\<close>

type_synonym FileSystem = "string \<Rightarrow> char list option"

record Device =
  dev_open_read :: bool
  dev_read_error :: "nat option"
  dev_open_write :: bool
  dev_room :: "nat option"
  dev_close :: bool
  dev_rename :: bool

definition healthy :: Device where
  "healthy = \<lparr>dev_open_read = True, dev_read_error = None, dev_open_write = True, dev_room = None,
     dev_close = True, dev_rename = True\<rparr>"

definition kHeader :: "char list" where
  "kHeader = ''RADISH'' @ [CHR 0x00, CHR 0x01]"

definition kMaxRecordSize :: nat where
  "kMaxRecordSize = 64 * 1024 * 1024"

definition LogReader_ReadExact :: "nat \<Rightarrow> istream \<Rightarrow> char list result \<times> istream" where
  "LogReader_ReadExact n s =
     (let (output, s1) = istream_read n s
      in (if ifail s1 then Inl (RuntimeError ''Truncated persistence log'') else Inr output, s1))"

definition LogReader_ReadHeader :: "istream \<Rightarrow> unit result \<times> istream" where
  "LogReader_ReadHeader s =
     sbind (LogReader_ReadExact (length kHeader) s) (\<lambda>header s1.
       (if header \<noteq> kHeader then Inl (RuntimeError ''Unsupported or corrupt persistence log header'') else Inr (),
        s1))"

function LogReader_loop :: "TType \<Rightarrow> istream \<Rightarrow> RadishEvent list \<Rightarrow> RadishEvent list result" where
  "LogReader_loop ty s events =
     (case istream_read 4 s of (b, s1) \<Rightarrow>
      let recordSize = le_nat b in
      if ifail s1
      then (if ieof s1 then Inr events
            else Inl (RuntimeError ''Failed to read persistence record length''))
      else if recordSize = 0 \<or> recordSize > kMaxRecordSize
      then Inl (RuntimeError ''Invalid persistence record length'')
      else
        (case istream_read recordSize s1 of (record, s2) \<Rightarrow>
         if ifail s2
         then (if ieof s2 then Inr events
               else Inl (RuntimeError ''Failed to read persistence record''))
         else
           (case RadishEvent_Deserialize ty RadishEvent_default (istringstream record) of
              (Inl e, _) \<Rightarrow> Inl e
            | (Inr event, recordStream) \<Rightarrow>
                if istream_has_more recordStream
                then Inl (RuntimeError ''Persistence record contains trailing bytes'')
                else LogReader_loop ty s2 (events @ [event]))))"
  by pat_completeness auto
termination
proof (relation "measure (\<lambda>(ty, s, events). length (ibuf s))")
  fix ty s events b s1 recordSize r s2
  assume "(b, s1) = istream_read 4 s" "\<not> ifail s1" "(r, s2) = istream_read recordSize s1" "\<not> ifail s2"
  then have "length (ibuf s1) + 4 = length (ibuf s)" "length (ibuf s2) + recordSize = length (ibuf s1)"
    using istream_read_length [of 4 s b s1] istream_read_length [of recordSize s1 r s2] by auto
  then show "((ty, s2, ev), ty, s, events) \<in> measure (\<lambda>(ty, s, events). length (ibuf s))" for ev
    by simp
qed simp_all

declare LogReader_loop.simps [simp del]

definition LogReader_GetEvents ::
    "TType \<Rightarrow> string \<Rightarrow> Device \<Rightarrow> FileSystem \<Rightarrow> RadishEvent list result" where
  "LogReader_GetEvents ty filename dev fs =
     (case fs filename of
        None \<Rightarrow> Inr []
      | Some content \<Rightarrow>
          if \<not> dev_open_read dev
          then Inl (RuntimeError (''Failed to open file for reading: '' @ filename))
          else
            (case LogReader_ReadHeader (ifstream (dev_read_error dev) content) of
               (Inl e, _) \<Rightarrow> Inl e
             | (Inr _, s) \<Rightarrow> LogReader_loop ty s []))"

section \<open>The log format\<close>

definition record_ok :: "TType \<Rightarrow> RadishEvent \<Rightarrow> bool" where
  "record_ok ty e \<longleftrightarrow> event_ok ty e \<and> length (event_bytes ty e) \<le> kMaxRecordSize"

definition frame :: "TType \<Rightarrow> RadishEvent \<Rightarrow> char list" where
  "frame ty e = le_bytes 4 (length (event_bytes ty e)) @ event_bytes ty e"

definition log_bytes :: "TType \<Rightarrow> RadishEvent list \<Rightarrow> char list" where
  "log_bytes ty es = kHeader @ concat (map (frame ty) es)"

text \<open>
  An unfinished record: fewer than four bytes of length, or a legal length that announces more
  bytes than follow.
\<close>

definition torn_tail :: "char list \<Rightarrow> bool" where
  "torn_tail bs \<longleftrightarrow> length bs < 4 \<or>
     (let n = le_nat (take 4 bs) in 0 < n \<and> n \<le> kMaxRecordSize \<and> length bs - 4 < n)"

section \<open>Lemmas\<close>

lemma event_bytes_nonempty: "9 \<le> length (event_bytes ty e)"
  by (simp add: event_bytes_def)

lemma frame_size: "record_ok ty e \<Longrightarrow> le_nat (le_bytes 4 (length (event_bytes ty e))) = length (event_bytes ty e)"
  by (rule le_nat_le_bytes_less) (simp add: record_ok_def kMaxRecordSize_def)

lemma loop_step:
  assumes "record_ok ty e"
  shows "LogReader_loop ty (istringstream (frame ty e @ rest)) acc
       = LogReader_loop ty (istringstream rest) (acc @ [e])"
proof -
  have "RadishEvent_Deserialize ty RadishEvent_default (istringstream (event_bytes ty e)) = (Inr e, istringstream [])"
    using assms ev.get_enc [of ty e RadishEvent_default "[]"] by (simp add: record_ok_def)
  moreover have "event_bytes ty e \<noteq> []" using event_bytes_nonempty [of ty e] by auto
  ultimately show ?thesis
    using assms frame_size [OF assms]
    by (subst LogReader_loop.simps) (simp add: frame_def Let_def record_ok_def)
qed

lemma loop_frames:
  "list_all (record_ok ty) es \<Longrightarrow>
   LogReader_loop ty (istringstream (concat (map (frame ty) es) @ rest)) acc
     = LogReader_loop ty (istringstream rest) (acc @ es)"
  by (induction es arbitrary: acc) (simp_all add: loop_step)

lemma loop_torn: "torn_tail bs \<Longrightarrow> LogReader_loop ty (istringstream bs) acc = Inr acc"
  by (subst LogReader_loop.simps) (auto simp: torn_tail_def Let_def)

lemma frame_prefix_torn:
  assumes "record_ok ty e" and "n < length (frame ty e)"
  shows "torn_tail (take n (frame ty e))"
proof (cases "n < 4")
  case True
  then show ?thesis by (simp add: torn_tail_def min_less_iff_disj)
next
  case False
  then have "take 4 (take n (frame ty e)) = le_bytes 4 (length (event_bytes ty e))"
    by (simp add: frame_def min_def)
  with False assms frame_size [OF assms(1)] event_bytes_nonempty [of ty e] show ?thesis
    by (auto simp: torn_tail_def Let_def record_ok_def frame_def)
qed

text \<open>Every accepted content is a sequence of well-formed frames and possibly an unfinished one.\<close>

lemma loop_sound:
  assumes "LogReader_loop ty (istringstream bs) acc = Inr es"
  shows "\<exists>new tail. es = acc @ new \<and> list_all (record_ok ty) new \<and>
           bs = concat (map (frame ty) new) @ tail \<and> torn_tail tail"
  using assms
proof (induction "length bs" arbitrary: bs acc rule: less_induct)
  case less
  let ?n = "le_nat (take 4 bs)" and ?r = "drop 4 bs"
  show ?case
  proof (cases "torn_tail bs")
    case True
    with less.prems loop_torn show ?thesis by (intro exI [of _ "[]"] exI [of _ bs]) auto
  next
    case False
    have four: "4 \<le> length bs" using False by (auto simp: torn_tail_def)
    have n: "0 < ?n" "?n \<le> kMaxRecordSize" "?n \<le> length ?r"
      using less.prems False four
      by (subst (asm) LogReader_loop.simps, simp add: torn_tail_def Let_def split: if_splits)+
    obtain e rs where de: "RadishEvent_Deserialize ty RadishEvent_default (istringstream (take ?n ?r)) = (Inr e, rs)"
      and more: "\<not> istream_has_more rs"
      and rec: "LogReader_loop ty (istringstream (drop ?n ?r)) (acc @ [e]) = Inr es"
      using less.prems four n
      by (subst (asm) LogReader_loop.simps) (auto simp: Let_def split: prod.splits sum.splits if_splits)
    have e: "event_ok ty e" "take ?n ?r = event_bytes ty e"
      using ev.get_sound [OF de] more by auto
    have len: "length (event_bytes ty e) = ?n" using e(2) n(3) by (metis length_take min.absorb2)
    have hd: "le_bytes 4 ?n = take 4 bs" using le_bytes_le_nat [of "take 4 bs"] four by simp
    have bs: "bs = frame ty e @ drop ?n ?r"
    proof -
      have "bs = take 4 bs @ take ?n ?r @ drop ?n ?r" by (simp only: append_take_drop_id)
      then show ?thesis by (simp only: frame_def len hd e(2) append_assoc)
    qed
    have "length (drop ?n ?r) < length bs" using four n(1) by simp
    from less.hyps [OF this rec] obtain new tail where
      new: "es = (acc @ [e]) @ new" "list_all (record_ok ty) new"
        "drop ?n ?r = concat (map (frame ty) new) @ tail" "torn_tail tail" by blast
    have "record_ok ty e" using e(1) len n(2) by (simp add: record_ok_def)
    with new bs show ?thesis by (intro exI [of _ "e # new"] exI [of _ tail]) simp
  qed
qed

lemma length_kHeader [simp]: "length kHeader = 8"
  by (simp add: kHeader_def)

lemma ReadHeader_string:
  "LogReader_ReadHeader (istringstream bs) =
    (if length bs < 8 then (Inl (RuntimeError ''Truncated persistence log''), \<lparr>ibuf = [], ierr = None, ifail = True, ieof = True\<rparr>)
     else (if take 8 bs \<noteq> kHeader then Inl (RuntimeError ''Unsupported or corrupt persistence log header'') else Inr (),
           istringstream (drop 8 bs)))"
  by (simp add: LogReader_ReadHeader_def LogReader_ReadExact_def)

definition readable :: "Device \<Rightarrow> bool" where
  "readable dev \<longleftrightarrow> dev_open_read dev \<and> dev_read_error dev = None"

lemma GetEvents_readable:
  assumes "readable dev" and "fs filename = Some content"
  shows "LogReader_GetEvents ty filename dev fs =
    (if length content < 8 then Inl (RuntimeError ''Truncated persistence log'')
     else if take 8 content \<noteq> kHeader then Inl (RuntimeError ''Unsupported or corrupt persistence log header'')
     else LogReader_loop ty (istringstream (drop 8 content)) [])"
  using assms by (simp add: LogReader_GetEvents_def readable_def ifstream_None ReadHeader_string)

lemma GetEvents_log:
  assumes "readable dev" and "fs filename = Some (log_bytes ty es @ tail)"
    and "list_all (record_ok ty) es" and "torn_tail tail"
  shows "LogReader_GetEvents ty filename dev fs = Inr es"
  using assms by (simp add: GetEvents_readable log_bytes_def loop_frames loop_torn)

text \<open>
  Whatever the device does, a reader that returns has returned what it would have returned on a
  device without errors: a read error is never taken for the end of the file.
\<close>

lemma istream_read_no_error:
  assumes "istream_read n s = (b, s1)" and "\<not> ifail s" and "\<not> ifail s1"
  shows "istream_read n (istringstream (ibuf s)) = (b, istringstream (ibuf s1))" and "ieof s1 = ieof s"
  using assms by (auto simp: istream_read_def istringstream_def split: option.splits if_splits)

lemma istream_read_eof:
  assumes "istream_read n s = (b, s1)" and "\<not> ifail s" and "\<not> ieof s" and "ifail s1" and "ieof s1"
  shows "length (ibuf s) < n"
  using assms by (auto simp: istream_read_def split: option.splits if_splits)

lemma loop_no_error:
  assumes "LogReader_loop ty s events = Inr es" and "\<not> ifail s" and "\<not> ieof s"
  shows "LogReader_loop ty (istringstream (ibuf s)) events = Inr es"
  using assms
proof (induction ty s events rule: LogReader_loop.induct)
  case (1 ty s events)
  obtain b s1 where r1: "istream_read 4 s = (b, s1)" by fastforce
  let ?n = "le_nat b"
  obtain rec s2 where r2: "istream_read ?n s1 = (rec, s2)" by fastforce
  note loop = LogReader_loop.simps [of ty s events, unfolded r1 prod.case Let_def r2]
  note res = 1(2) [unfolded loop]
  show ?case
  proof (cases "ifail s1")
    case True
    with res have "ieof s1" "es = events" by (simp_all split: if_splits)
    with istream_read_eof [OF r1 1(3,4) True] show ?thesis by (simp add: LogReader_loop.simps [of _ "istringstream _"])
  next
    case False
    note n1 = istream_read_no_error [OF r1 1(3) False]
    note res1 = res [unfolded if_not_P [OF False]]
    then have n: "\<not> (?n = 0 \<or> ?n > kMaxRecordSize)" by (auto split: if_splits)
    note res2 = res1 [unfolded if_not_P [OF n]]
    note plain = LogReader_loop.simps [of ty "istringstream (ibuf s)" events, unfolded n1(1) prod.case Let_def]
    show ?thesis
    proof (cases "ifail s2")
      case True
      with res2 have "ieof s2" "es = events" by (simp_all split: if_splits)
      with istream_read_eof [OF r2 False _ True] n1(2) 1(4) n show ?thesis by (simp add: plain)
    next
      case False': False
      note n2 = istream_read_no_error [OF r2 False False']
      note res3 = res2 [unfolded if_not_P [OF False']]
      obtain event rest where d: "RadishEvent_Deserialize ty RadishEvent_default (istringstream rec) = (Inr event, rest)"
        using res3 by (cases "RadishEvent_Deserialize ty RadishEvent_default (istringstream rec)") (auto split: sum.splits)
      note res4 = res3 [unfolded d prod.case sum.case]
      then have more: "\<not> istream_has_more rest" by (auto split: if_splits)
      note res5 = res4 [unfolded if_not_P [OF more]]
      have "\<not> ieof s2" using n1(2) n2(2) 1(4) by simp
      from 1(1) [OF r1 [symmetric] refl False n r2 [symmetric] False' d [symmetric] refl more res5 False' this]
      have "LogReader_loop ty (istringstream (ibuf s2)) (events @ [event]) = Inr es" .
      with n d more n2(1) show ?thesis by (simp add: plain)
    qed
  qed
qed

lemma torn_tail_Nil [simp]: "torn_tail []"
  by (simp add: torn_tail_def)

lemma GetEvents_clean:
  assumes "readable dev" and "fs filename = Some (log_bytes ty es)" and "list_all (record_ok ty) es"
  shows "LogReader_GetEvents ty filename dev fs = Inr es"
  using assms GetEvents_log [of dev fs filename ty es "[]"] by simp

lemma GetEvents_no_error:
  assumes "LogReader_GetEvents ty filename dev fs = Inr es" and "readable dev'"
  shows "LogReader_GetEvents ty filename dev' fs = Inr es"
proof (cases "fs filename")
  case None
  with assms show ?thesis by (simp add: LogReader_GetEvents_def)
next
  case (Some content)
  with assms(1) obtain s where h: "LogReader_ReadHeader (ifstream (dev_read_error dev) content) = (Inr (), s)"
    and loop: "LogReader_loop ty s [] = Inr es"
    by (auto simp: LogReader_GetEvents_def split: if_splits prod.splits sum.splits)
  obtain b where r: "istream_read 8 (ifstream (dev_read_error dev) content) = (b, s)" "\<not> ifail s" "b = kHeader"
    using h by (auto simp: LogReader_ReadHeader_def LogReader_ReadExact_def split: prod.splits if_splits)
  have r': "istream_read 8 (istringstream content) = (b, istringstream (ibuf s))" "\<not> ieof s"
    using istream_read_no_error [OF r(1) _ r(2)] by (simp_all add: ifstream_def)
  then have "LogReader_ReadHeader (istringstream content) = (Inr (), istringstream (ibuf s))"
    using r(3) by (simp add: LogReader_ReadHeader_def LogReader_ReadExact_def del: istream_read_string)
  with loop_no_error [OF loop r(2) r'(2)] Some assms(2) show ?thesis
    by (simp add: LogReader_GetEvents_def readable_def ifstream_None)
qed

lemma GetEvents_any:
  assumes "LogReader_GetEvents ty filename dev fs = Inr es'" and "fs filename = Some (log_bytes ty es @ tail)"
    and "list_all (record_ok ty) es" and "torn_tail tail"
  shows "es' = es" and "dev_open_read dev"
proof -
  let ?dev = "dev\<lparr>dev_open_read := True, dev_read_error := None\<rparr>"
  have r: "readable ?dev" by (simp add: readable_def)
  from GetEvents_log [where fs = fs and filename = filename, OF r assms(2,3,4)] GetEvents_no_error [OF assms(1) r]
  show "es' = es" by simp
  show "dev_open_read dev" using assms(1,2) by (simp add: LogReader_GetEvents_def split: if_splits)
qed

lemma GetEvents_sound:
  assumes "readable dev" and "fs filename = Some content" and "LogReader_GetEvents ty filename dev fs = Inr es"
  shows "\<exists>tail. list_all (record_ok ty) es \<and> content = log_bytes ty es @ tail \<and> torn_tail tail"
proof -
  have h: "take 8 content = kHeader" and loop: "LogReader_loop ty (istringstream (drop 8 content)) [] = Inr es"
    using assms by (simp_all add: GetEvents_readable split: if_splits)
  from loop_sound [OF loop] obtain tail where
    "list_all (record_ok ty) es" "drop 8 content = concat (map (frame ty) es) @ tail" "torn_tail tail"
    by auto
  moreover have "content = kHeader @ drop 8 content" using h by (metis append_take_drop_id)
  ultimately show ?thesis by (auto simp: log_bytes_def)
qed


lemma GetEvents_iff:
  assumes "readable dev" and "fs filename = Some content"
  shows "LogReader_GetEvents ty filename dev fs = Inr es \<longleftrightarrow>
    (\<exists>tail. list_all (record_ok ty) es \<and> content = log_bytes ty es @ tail \<and> torn_tail tail)"
  using GetEvents_sound [where fs = fs and filename = filename and content = content, OF assms]
    GetEvents_log [where fs = fs and filename = filename, OF assms(1)] assms(2) by blast

lemma GetEvents_frames:
  assumes "readable dev" and "list_all (record_ok ty) es"
  shows "LogReader_GetEvents ty filename dev (fs(filename \<mapsto> log_bytes ty es @ rest)) =
    LogReader_loop ty (istringstream rest) es"
  using assms by (simp add: GetEvents_readable log_bytes_def loop_frames)

section \<open>Properties\<close>

text \<open>
  (C11) On a readable file the reader returns a list of events exactly when the content is the
  header followed by the frames of these events and possibly one unfinished record; all of
  these events are well formed and fit the size limit of a record.
\<close>

theorem reader_accepts_exactly_logs:
  assumes "readable dev" and "fs filename = Some content"
  shows "LogReader_GetEvents ty filename dev fs = Inr es \<longleftrightarrow>
    (\<exists>tail. list_all (record_ok ty) es \<and> content = log_bytes ty es @ tail \<and> torn_tail tail)"
  using assms by (rule GetEvents_iff)

lemma readable_healthy [simp]: "readable healthy"
  by (simp add: readable_def healthy_def)

theorem reader_accepts_exactly_logs_witness:
  "LogReader_GetEvents std_string ''a.radish'' healthy [''a.radish'' \<mapsto> log_bytes std_string [clear_event] @ ''xy''] =
     Inr [clear_event]"
proof -
  have "list_all (record_ok std_string) [clear_event]"
    by (simp add: record_ok_def event_ok_def event_bytes_def kMaxRecordSize_def)
  moreover have "torn_tail ''xy''" by (simp add: torn_tail_def)
  ultimately show ?thesis
    using reader_accepts_exactly_logs [OF readable_healthy, of "[''a.radish'' \<mapsto> log_bytes std_string [clear_event] @ ''xy'']"
        "''a.radish''" "log_bytes std_string [clear_event] @ ''xy''" std_string "[clear_event]"] by auto
qed

text \<open>
  A log whose last record was cut off anywhere, as a crash in the middle of a write leaves
  it, is read as the log without that record.
\<close>

lemma cut_off_record_is_dropped:
  assumes "readable dev" and "list_all (record_ok ty) es" and "record_ok ty e" and "n < length (frame ty e)"
  shows "LogReader_GetEvents ty filename dev (fs(filename \<mapsto> log_bytes ty es @ take n (frame ty e))) = Inr es"
  using assms GetEvents_log [OF assms(1)] frame_prefix_torn [OF assms(3,4)] by auto

text \<open>
  (C29) Damage before the last record is reported, never skipped: a wrong or short header, a
  record length of zero or above the limit, and a complete record that is not exactly one
  serialised event all make the reader throw.
\<close>

theorem reader_reports_damage:
  assumes "readable dev" and "list_all (record_ok ty) es"
  shows "(length content < 8 \<longrightarrow> LogReader_GetEvents ty filename dev (fs(filename \<mapsto> content)) =
       Inl (RuntimeError ''Truncated persistence log'')) \<and>
    (8 \<le> length content \<and> take 8 content \<noteq> kHeader \<longrightarrow> LogReader_GetEvents ty filename dev (fs(filename \<mapsto> content)) =
       Inl (RuntimeError ''Unsupported or corrupt persistence log header'')) \<and>
    (n < 2 ^ 32 \<and> (n = 0 \<or> kMaxRecordSize < n) \<longrightarrow>
       LogReader_GetEvents ty filename dev (fs(filename \<mapsto> log_bytes ty es @ le_bytes 4 n @ rest)) =
       Inl (RuntimeError ''Invalid persistence record length'')) \<and>
    (0 < length r \<and> length r \<le> kMaxRecordSize \<and> (\<nexists>e. event_ok ty e \<and> r = event_bytes ty e) \<longrightarrow>
       (\<exists>err. LogReader_GetEvents ty filename dev (fs(filename \<mapsto> log_bytes ty es @ le_bytes 4 (length r) @ r @ rest)) = Inl err))"
proof (intro conjI impI)
  show "LogReader_GetEvents ty filename dev (fs(filename \<mapsto> content)) = Inl (RuntimeError ''Truncated persistence log'')"
    if "length content < 8"
    using that assms(1) by (simp add: GetEvents_readable)
  show "LogReader_GetEvents ty filename dev (fs(filename \<mapsto> content)) =
      Inl (RuntimeError ''Unsupported or corrupt persistence log header'')"
    if "8 \<le> length content \<and> take 8 content \<noteq> kHeader"
    using that assms(1) by (simp add: GetEvents_readable)
  show "LogReader_GetEvents ty filename dev (fs(filename \<mapsto> log_bytes ty es @ le_bytes 4 n @ rest)) =
      Inl (RuntimeError ''Invalid persistence record length'')"
    if n: "n < 2 ^ 32 \<and> (n = 0 \<or> kMaxRecordSize < n)"
  proof -
    have "le_nat (le_bytes 4 n) = n" using n by (intro le_nat_le_bytes_less) simp
    with n show ?thesis
      by (simp only: GetEvents_frames [OF assms]) (subst LogReader_loop.simps, auto simp: Let_def)
  qed
  show "\<exists>err. LogReader_GetEvents ty filename dev (fs(filename \<mapsto> log_bytes ty es @ le_bytes 4 (length r) @ r @ rest)) = Inl err"
    if r: "0 < length r \<and> length r \<le> kMaxRecordSize \<and> (\<nexists>e. event_ok ty e \<and> r = event_bytes ty e)"
  proof -
    have len: "le_nat (le_bytes 4 (length r)) = length r"
      using r by (intro le_nat_le_bytes_less) (simp add: kMaxRecordSize_def)
    obtain x s where d: "RadishEvent_Deserialize ty RadishEvent_default (istringstream r) = (x, s)"
      by (cases "RadishEvent_Deserialize ty RadishEvent_default (istringstream r)")
    have more: "istream_has_more s" if x: "x = Inr e" for e
      using ev.get_sound [OF d [unfolded x]] r by (cases "istream_has_more s") auto
    show ?thesis
      using r len d more
      by (simp only: GetEvents_frames [OF assms]) (subst LogReader_loop.simps, auto simp: Let_def split: sum.splits)
  qed
qed

theorem reader_reports_damage_witness:
  "LogReader_GetEvents std_string ''a.radish'' healthy [''a.radish'' \<mapsto> ''RADISH''] =
     Inl (RuntimeError ''Truncated persistence log'')"
  using reader_reports_damage [OF readable_healthy, of std_string "[]" "''RADISH''" "''a.radish''" Map.empty] by simp

end
