(* ===== verification/Unordered_Map.thy ===== *)
theory Unordered_Map
  imports Radish_Prelude
begin

text \<open>
  \<^verbatim>\<open>std::unordered_map\<close> as the sources use it: an association list with distinct keys.
  \<^verbatim>\<open>m[k] = v\<close> is \<open>umap_assign\<close>, \<^verbatim>\<open>m.erase(k)\<close> is \<open>umap_erase\<close>,
  \<^verbatim>\<open>find\<close>/\<^verbatim>\<open>at\<close>/\<^verbatim>\<open>contains\<close> are \<open>umap_find\<close> and \<open>umap_contains\<close>.
  The standard leaves the order of iteration unspecified, so an operation that iterates takes
  that order as a parameter: a function that permutes the entries.

  The locale \<open>dictionary\<close> is the contract the store and the compactor rely on; its lemmas
  on moving an entry and on rebuilding a map from its entries are proved once there.
\<close>

type_synonym ('k, 'v) umap = "('k \<times> 'v) list"

definition umap_empty :: "('k, 'v) umap" where
  "umap_empty = []"

definition umap_find :: "('k, 'v) umap \<Rightarrow> 'k \<Rightarrow> 'v option" where
  "umap_find m k = map_of m k"

definition umap_contains :: "('k, 'v) umap \<Rightarrow> 'k \<Rightarrow> bool" where
  "umap_contains m k = (umap_find m k \<noteq> None)"

definition umap_assign :: "'k \<Rightarrow> 'v \<Rightarrow> ('k, 'v) umap \<Rightarrow> ('k, 'v) umap" where
  "umap_assign k v m = AList.update k v m"

definition umap_erase :: "'k \<Rightarrow> ('k, 'v) umap \<Rightarrow> ('k, 'v) umap" where
  "umap_erase k m = AList.delete k m"

definition umap_ok :: "('k, 'v) umap \<Rightarrow> bool" where
  "umap_ok m = distinct (map fst m)"

text \<open>An order of iteration: what the hash table enumerates is a permutation of its entries.\<close>

definition iteration_order :: "('a list \<Rightarrow> 'a list) \<Rightarrow> bool" where
  "iteration_order ord \<longleftrightarrow> (\<forall>xs. mset (ord xs) = mset xs)"

section \<open>The contract of a dictionary\<close>

locale dictionary =
  fixes empty :: "'m"
    and assign :: "'k \<Rightarrow> 'v \<Rightarrow> 'm \<Rightarrow> 'm"
    and erase :: "'k \<Rightarrow> 'm \<Rightarrow> 'm"
    and find :: "'m \<Rightarrow> 'k \<Rightarrow> 'v option"
    and entries :: "'m \<Rightarrow> ('k \<times> 'v) list"
    and invar :: "'m \<Rightarrow> bool"
  assumes find_empty: "find empty k = None"
    and find_assign: "find (assign k v m) = (find m)(k \<mapsto> v)"
    and find_erase: "find (erase k m) = (find m)(k := None)"
    and find_entries: "invar m \<Longrightarrow> find m = map_of (entries m)"
    and distinct_entries: "invar m \<Longrightarrow> distinct (map fst (entries m))"
    and invar_empty: "invar empty"
    and invar_assign: "invar m \<Longrightarrow> invar (assign k v m)"
    and invar_erase: "invar m \<Longrightarrow> invar (erase k m)"
begin

text \<open>Copy to the new key first, erase the old key second: moving a key onto itself loses it.\<close>

lemma find_copy_then_erase:
  "find (erase a (assign b v m)) = ((find m)(b \<mapsto> v))(a := None)"
  by (simp add: find_assign find_erase)

lemma copy_then_erase_self: "find (erase a (assign a v m)) a = None"
  by (simp add: find_copy_then_erase)

text \<open>Erase first, insert second: moving a key onto itself keeps it.\<close>

lemma find_erase_then_assign:
  "find (assign b v (erase a m)) = ((find m)(a := None))(b \<mapsto> v)"
  by (simp add: find_assign find_erase)

lemma find_fold_assign:
  "find (fold (\<lambda>(k, v). assign k v) kvs m) = find m ++ map_of (rev kvs)"
proof (induction kvs arbitrary: m)
  case Nil
  then show ?case by simp
next
  case (Cons kv kvs)
  then show ?case
    by (cases kv) (simp add: find_assign map_add_def fun_eq_iff split: option.splits)
qed

lemma invar_fold_assign: "invar m \<Longrightarrow> invar (fold (\<lambda>(k, v). assign k v) kvs m)"
  by (induction kvs arbitrary: m) (auto simp: invar_assign)

lemma map_of_rev_distinct: "distinct (map fst kvs) \<Longrightarrow> map_of (rev kvs) = map_of kvs"
  using map_of_inject_set [of "rev kvs" kvs] by (simp add: rev_map [symmetric])

text \<open>Rebuilding a dictionary from its entries, in whatever order they are enumerated.\<close>

lemma rebuild_from_entries:
  assumes "invar m" and "mset kvs = mset (entries m)"
  shows "find (fold (\<lambda>(k, v). assign k v) kvs empty) = find m"
proof -
  have "mset (map fst kvs) = mset (map fst (entries m))"
    using assms(2) by simp
  then have d: "distinct (map fst kvs)"
    using distinct_entries [OF assms(1)] by (rule mset_eq_imp_distinct_iff [THEN iffD2])
  have "set kvs = set (entries m)"
    using assms(2) by (rule mset_eq_setD)
  then have eq: "map_of kvs = map_of (entries m)"
    by (rule map_of_inject_set [OF d distinct_entries [OF assms(1)], THEN iffD2])
  have "find empty = Map.empty"
    by (rule ext) (rule find_empty)
  then have "find (fold (\<lambda>(k, v). assign k v) kvs empty) = map_of kvs"
    by (simp add: find_fold_assign map_of_rev_distinct [OF d])
  then show ?thesis
    using eq find_entries [OF assms(1)] by simp
qed

end

section \<open>The unordered map is a dictionary\<close>

lemma umap_find_assign: "umap_find (umap_assign k v m) = (umap_find m)(k \<mapsto> v)"
  by (rule ext) (simp add: umap_find_def umap_assign_def update_conv')

lemma umap_find_erase: "umap_find (umap_erase k m) = (umap_find m)(k := None)"
  by (rule ext) (simp add: umap_find_def umap_erase_def delete_conv')

interpretation um: dictionary umap_empty umap_assign umap_erase umap_find "\<lambda>m. m" umap_ok
proof unfold_locales
  fix k :: 'a and v :: 'b and m :: "('a, 'b) umap"
  show "umap_find umap_empty k = None"
    by (simp add: umap_find_def umap_empty_def)
  show "umap_find (umap_assign k v m) = (umap_find m)(k \<mapsto> v)"
    by (rule umap_find_assign)
  show "umap_find (umap_erase k m) = (umap_find m)(k := None)"
    by (rule umap_find_erase)
  show "umap_ok m \<Longrightarrow> umap_find m = map_of m"
    by (rule ext) (simp add: umap_find_def)
  show "umap_ok m \<Longrightarrow> distinct (map fst m)"
    by (simp add: umap_ok_def)
  show "umap_ok umap_empty"
    by (simp add: umap_ok_def umap_empty_def)
  show "umap_ok m \<Longrightarrow> umap_ok (umap_assign k v m)"
    by (simp add: umap_ok_def umap_assign_def distinct_update)
  show "umap_ok m \<Longrightarrow> umap_ok (umap_erase k m)"
    by (simp add: umap_ok_def umap_erase_def distinct_delete)
qed

named_theorems umap_simps \<open>what a lookup returns after each operation\<close>

lemmas [umap_simps] = um.find_empty umap_find_assign umap_find_erase umap_contains_def

lemma umap_find_Nil [umap_simps]: "umap_find [] k = None"
  by (simp add: umap_find_def)

lemma umap_ok_Nil [simp]: "umap_ok []"
  by (simp add: umap_ok_def)

lemma umap_find_eq_None: "umap_find m k = None \<longleftrightarrow> k \<notin> fst ` set m"
  by (simp add: umap_find_def map_of_eq_None_iff)

lemma umap_find_eq_Some: "umap_ok m \<Longrightarrow> umap_find m k = Some v \<longleftrightarrow> (k, v) \<in> set m"
  by (simp add: umap_find_def umap_ok_def)

lemma umap_dom: "dom (umap_find m) = fst ` set m"
proof -
  have "umap_find m = map_of m" by (rule ext) (simp add: umap_find_def)
  then show ?thesis by (simp add: dom_map_of_conv_image_fst)
qed

lemma umap_empty_iff: "m = [] \<longleftrightarrow> (\<forall>k. umap_find m k = None)"
  by (cases m) (auto simp: umap_find_def)

lemma iteration_order_set [simp]: "iteration_order ord \<Longrightarrow> set (ord xs) = set xs"
  unfolding iteration_order_def by (meson mset_eq_setD)

lemma iteration_order_id: "iteration_order (\<lambda>xs. xs)" and iteration_order_rev: "iteration_order rev"
  by (simp_all add: iteration_order_def)

lemma iteration_order_distinct_fst:
  assumes "iteration_order ord"
  shows "distinct (map fst (ord m)) \<longleftrightarrow> distinct (map fst m)"
proof -
  have "mset (map fst (ord m)) = mset (map fst m)"
    using assms by (simp add: iteration_order_def)
  then show ?thesis by (rule mset_eq_imp_distinct_iff)
qed

lemma iteration_order_single: "iteration_order ord \<Longrightarrow> ord [x] = [x]"
  by (metis iteration_order_def mset_single_iff_right mset.simps)

end
