(* ===== verification/Radish_Store.thy ===== *)
theory Radish_Store
  imports Unordered_Map
begin

text \<open>
  \<^verbatim>\<open>include/RadishStore.h\<close>: the in-memory key-value store with lazy expiry. The system clock
  is read inside the operations; each operation takes its readings as arguments, one
  \<open>now\<close> where the code reads the clock at most once, a function from the iteration number
  where it reads the clock in a loop. The order in which the hash table is iterated is the
  parameter \<open>ord\<close>.

  The abstract view of a store maps each key to its value and expiry; every operation is shown
  to implement a small update of that view, the well-formedness invariant is kept, and the four
  read operations agree with one another.
\<close>

record 'v RadishStore =
  m_ttl :: Timestamp
  m_data :: "(string, 'v) umap"
  m_ttlData :: "(string, Timestamp) umap"

definition RadishStore_new :: "Timestamp \<Rightarrow> 'v RadishStore" where
  "RadishStore_new ttl = \<lparr>m_ttl = ttl, m_data = [], m_ttlData = []\<rparr>"

definition RadishStore_HasTimeToLive :: "'v RadishStore \<Rightarrow> bool" where
  "RadishStore_HasTimeToLive s = (m_ttl s \<noteq> -1)"

definition RadishStore_GetTTL :: "'v RadishStore \<Rightarrow> Timestamp" where
  "RadishStore_GetTTL s = m_ttl s"

definition RadishStore_IsExpired :: "Timestamp \<Rightarrow> 'v RadishStore \<Rightarrow> string \<Rightarrow> bool" where
  "RadishStore_IsExpired now s key =
     (if RadishStore_HasTimeToLive s
      then (case umap_find (m_ttlData s) key of
              Some expiry \<Rightarrow> sint now \<ge> sint expiry
            | None \<Rightarrow> False)
      else False)"

definition RadishStore_Get :: "Timestamp \<Rightarrow> 'v RadishStore \<Rightarrow> string \<Rightarrow> 'v option" where
  "RadishStore_Get now s key =
     (if umap_contains (m_data s) key \<and> \<not> RadishStore_IsExpired now s key
      then umap_find (m_data s) key else None)"

definition RadishStore_InsertTimestampForKey ::
    "Timestamp \<Rightarrow> string \<Rightarrow> Timestamp option \<Rightarrow> 'v RadishStore \<Rightarrow> (Timestamp \<times> 'v RadishStore) result" where
  "RadishStore_InsertTimestampForKey now key timestamp s =
     rbind (case timestamp of Some t \<Rightarrow> Inr t | None \<Rightarrow> add_ll now (m_ttl s)) (\<lambda>value.
       Inr (value, s\<lparr>m_ttlData := umap_assign key value (m_ttlData s)\<rparr>))"

definition RadishStore_Create ::
    "Timestamp \<Rightarrow> string \<Rightarrow> 'v \<Rightarrow> Timestamp option \<Rightarrow> 'v RadishStore \<Rightarrow> (Timestamp \<times> 'v RadishStore) result" where
  "RadishStore_Create now key value timestamp s =
     (let s1 = s\<lparr>m_data := umap_assign key value (m_data s)\<rparr>
      in if RadishStore_HasTimeToLive s1
         then RadishStore_InsertTimestampForKey now key timestamp s1
         else Inr (-1, s1))"

definition RadishStore_Rename ::
    "Timestamp \<Rightarrow> string \<Rightarrow> string \<Rightarrow> 'v RadishStore \<Rightarrow> bool \<times> 'v RadishStore" where
  "RadishStore_Rename now oldKey newKey s =
     (case umap_find (m_data s) oldKey of
        None \<Rightarrow> (False, s)
      | Some value \<Rightarrow>
          if RadishStore_IsExpired now s oldKey then (False, s)
          else
            let data = umap_erase oldKey (umap_assign newKey value (m_data s));
                ttl = (case umap_find (m_ttlData s) oldKey of
                         Some t \<Rightarrow> umap_erase oldKey (umap_assign newKey t (m_ttlData s))
                       | None \<Rightarrow> umap_erase newKey (m_ttlData s))
            in (True, s\<lparr>m_data := data, m_ttlData := ttl\<rparr>))"

definition RadishStore_Delete :: "string \<Rightarrow> 'v RadishStore \<Rightarrow> bool \<times> 'v RadishStore" where
  "RadishStore_Delete key s =
     (umap_contains (m_data s) key,
      s\<lparr>m_ttlData := umap_erase key (m_ttlData s), m_data := umap_erase key (m_data s)\<rparr>)"

definition RadishStore_Clear :: "'v RadishStore \<Rightarrow> bool \<times> 'v RadishStore" where
  "RadishStore_Clear s =
     (if m_data s = [] then (False, s) else (True, s\<lparr>m_data := [], m_ttlData := []\<rparr>))"

fun RadishStore_Scan_loop ::
    "(nat \<Rightarrow> Timestamp) \<Rightarrow> nat \<Rightarrow> 'v RadishStore \<Rightarrow> (string \<times> 'v) list \<Rightarrow> string list" where
  "RadishStore_Scan_loop now i s [] = []"
| "RadishStore_Scan_loop now i s ((key, value) # es) =
     (if RadishStore_IsExpired (now i) s key then RadishStore_Scan_loop now (Suc i) s es
      else key # RadishStore_Scan_loop now (Suc i) s es)"

definition RadishStore_Scan ::
    "((string \<times> 'v) list \<Rightarrow> (string \<times> 'v) list) \<Rightarrow> (nat \<Rightarrow> Timestamp) \<Rightarrow> 'v RadishStore \<Rightarrow> string list" where
  "RadishStore_Scan ord now s = RadishStore_Scan_loop now 0 s (ord (m_data s))"

fun RadishStore_Size_loop ::
    "(nat \<Rightarrow> Timestamp) \<Rightarrow> nat \<Rightarrow> 'v RadishStore \<Rightarrow> (string \<times> 'v) list \<Rightarrow> nat" where
  "RadishStore_Size_loop now i s [] = 0"
| "RadishStore_Size_loop now i s (entry # es) =
     (if \<not> RadishStore_IsExpired (now i) s (fst entry) then 1 else 0) + RadishStore_Size_loop now (Suc i) s es"

definition RadishStore_Size ::
    "((string \<times> 'v) list \<Rightarrow> (string \<times> 'v) list) \<Rightarrow> (nat \<Rightarrow> Timestamp) \<Rightarrow> 'v RadishStore \<Rightarrow> nat" where
  "RadishStore_Size ord now s = RadishStore_Size_loop now 0 s (ord (m_data s))"

definition RadishStore_Exists :: "Timestamp \<Rightarrow> 'v RadishStore \<Rightarrow> string \<Rightarrow> bool" where
  "RadishStore_Exists now s key =
     (if RadishStore_IsExpired now s key then False else umap_contains (m_data s) key)"

definition RadishStore_NewExpiryTimestamp :: "Timestamp \<Rightarrow> 'v RadishStore \<Rightarrow> Timestamp result" where
  "RadishStore_NewExpiryTimestamp now s =
     (if RadishStore_HasTimeToLive s then add_ll now (m_ttl s) else Inr (-1))"

definition RadishStore_Swap :: "'v RadishStore \<Rightarrow> 'v RadishStore \<Rightarrow> 'v RadishStore \<times> 'v RadishStore" where
  "RadishStore_Swap self other =
     (self\<lparr>m_ttl := m_ttl other, m_data := m_data other, m_ttlData := m_ttlData other\<rparr>,
      other\<lparr>m_ttl := m_ttl self, m_data := m_data self, m_ttlData := m_ttlData self\<rparr>)"

section \<open>Invariant and abstract view\<close>

text \<open>
  Keys are distinct; with a time to live every key has an expiry and nothing else has one;
  without a time to live no expiry is kept.
\<close>

definition store_ok :: "'v RadishStore \<Rightarrow> bool" where
  "store_ok s \<longleftrightarrow> umap_ok (m_data s) \<and> umap_ok (m_ttlData s) \<and>
     (if RadishStore_HasTimeToLive s then fst ` set (m_ttlData s) = fst ` set (m_data s)
      else m_ttlData s = [])"

type_synonym 'v view = "string \<Rightarrow> ('v \<times> Timestamp option) option"

definition store_view :: "'v RadishStore \<Rightarrow> 'v view" where
  "store_view s key = map_option (\<lambda>v. (v, umap_find (m_ttlData s) key)) (umap_find (m_data s) key)"

text \<open>When a viewed entry is live: it has no expiry, or the clock has not reached it.\<close>

fun entry_live :: "Timestamp \<Rightarrow> 'v \<times> Timestamp option \<Rightarrow> bool" where
  "entry_live now (v, None) = True"
| "entry_live now (v, Some t) = (sint now < sint t)"

definition view_get :: "Timestamp \<Rightarrow> 'v view \<Rightarrow> string \<Rightarrow> 'v option" where
  "view_get now w key = (case w key of Some e \<Rightarrow> if entry_live now e then Some (fst e) else None | None \<Rightarrow> None)"

text \<open>What the store promises about each mutation, over views.\<close>

definition view_create :: "string \<Rightarrow> 'v \<Rightarrow> Timestamp option \<Rightarrow> 'v view \<Rightarrow> 'v view" where
  "view_create key v t w = w(key \<mapsto> (v, t))"

definition view_move :: "string \<Rightarrow> string \<Rightarrow> 'v view \<Rightarrow> 'v view" where
  "view_move a b w = (w(b := w a))(a := None)"

definition view_delete :: "string \<Rightarrow> 'v view \<Rightarrow> 'v view" where
  "view_delete key w = w(key := None)"

section \<open>The invariant is kept\<close>

lemmas store_defs = RadishStore_Create_def RadishStore_InsertTimestampForKey_def
  RadishStore_Rename_def RadishStore_Delete_def RadishStore_Clear_def

lemma HasTTL_update [simp]:
  "RadishStore_HasTimeToLive (s\<lparr>m_data := d\<rparr>) = RadishStore_HasTimeToLive s"
  "RadishStore_HasTimeToLive (s\<lparr>m_ttlData := t\<rparr>) = RadishStore_HasTimeToLive s"
  by (simp_all add: RadishStore_HasTimeToLive_def)

lemma store_ok_iff:
  "store_ok s \<longleftrightarrow> umap_ok (m_data s) \<and> umap_ok (m_ttlData s) \<and>
     (if RadishStore_HasTimeToLive s
      then (\<forall>k. umap_find (m_ttlData s) k = None \<longleftrightarrow> umap_find (m_data s) k = None)
      else m_ttlData s = [])"
  by (auto simp: store_ok_def umap_find_eq_None)

lemma store_ok_new [simp]: "store_ok (RadishStore_new ttl)"
  by (simp add: store_ok_def RadishStore_new_def)

lemma umap_erase_Nil [simp]: "umap_erase k [] = []"
  by (simp add: umap_erase_def)

lemma store_ok_create:
  assumes "store_ok s" and "RadishStore_Create now key v ts s = Inr (t, s')"
  shows "store_ok s'"
  using assms
  by (auto simp: store_defs store_ok_iff Let_def umap_simps um.invar_assign result_simps split: if_splits)

lemma store_ok_rename:
  assumes "store_ok s"
  shows "store_ok (snd (RadishStore_Rename now a b s))"
proof (cases "umap_find (m_data s) a")
  case None
  with assms show ?thesis by (simp add: RadishStore_Rename_def)
next
  case (Some v)
  show ?thesis
  proof (cases "umap_find (m_ttlData s) a")
    case None
    with assms Some have "\<not> RadishStore_HasTimeToLive s"
      by (auto simp: store_ok_iff split: if_splits)
    with assms Some None show ?thesis
      by (simp add: RadishStore_Rename_def store_ok_iff Let_def um.invar_assign um.invar_erase)
  next
    case (Some t)
    with assms have "RadishStore_HasTimeToLive s"
      by (auto simp: store_ok_def umap_simps split: if_splits)
    with assms Some \<open>umap_find (m_data s) a = Some v\<close> show ?thesis
      by (simp add: RadishStore_Rename_def store_ok_iff Let_def um.invar_assign um.invar_erase umap_simps)
  qed
qed

lemma store_ok_delete: "store_ok s \<Longrightarrow> store_ok (snd (RadishStore_Delete key s))"
  by (simp add: RadishStore_Delete_def store_ok_iff um.invar_erase umap_simps split: if_splits)

lemma store_ok_clear: "store_ok s \<Longrightarrow> store_ok (snd (RadishStore_Clear s))"
  by (simp add: RadishStore_Clear_def store_ok_def)

lemmas store_ok_intros = store_ok_new store_ok_create store_ok_rename store_ok_delete store_ok_clear

section \<open>The operations implement their view updates\<close>

lemma Get_view:
  assumes "store_ok s"
  shows "RadishStore_Get now s key = view_get now (store_view s) key"
  using assms
  by (auto simp: view_get_def RadishStore_Get_def RadishStore_IsExpired_def store_view_def umap_simps store_ok_def
      split: option.splits if_splits)

lemma view_of_create:
  assumes "RadishStore_Create now key v (Some t) s = Inr (r, s')" and "store_ok s"
  shows "store_view s' = view_create key v (if RadishStore_HasTimeToLive s then Some t else None) (store_view s)"
  using assms
  by (auto simp: store_defs Let_def store_view_def view_create_def umap_simps fun_eq_iff store_ok_def
      split: if_splits)

lemma view_of_rename:
  assumes "store_ok s"
  shows "RadishStore_Rename now a b s =
    (if RadishStore_Get now s a = None then (False, s) else (True, snd (RadishStore_Rename now a b s)))"
    and "RadishStore_Get now s a \<noteq> None \<Longrightarrow>
      store_view (snd (RadishStore_Rename now a b s)) = view_move a b (store_view s)"
  subgoal
    by (auto simp: RadishStore_Rename_def RadishStore_Get_def umap_simps Let_def split: option.splits)
  subgoal
    by (auto simp: RadishStore_Rename_def RadishStore_Get_def umap_simps Let_def store_view_def
        view_move_def fun_eq_iff split: option.splits if_splits)
  done

lemma view_of_rename_total:
  assumes "store_ok s"
  shows "fst (RadishStore_Rename now a b s) \<longleftrightarrow> view_get now (store_view s) a \<noteq> None"
    and "store_view (snd (RadishStore_Rename now a b s)) =
      (if view_get now (store_view s) a \<noteq> None then view_move a b (store_view s) else store_view s)"
proof -
  have ren: "RadishStore_Rename now a b s =
      (if RadishStore_Get now s a = None then (False, s) else (True, snd (RadishStore_Rename now a b s)))"
    using assms by (rule view_of_rename(1))
  show "fst (RadishStore_Rename now a b s) \<longleftrightarrow> view_get now (store_view s) a \<noteq> None"
    by (subst ren) (simp add: Get_view assms)
  show "store_view (snd (RadishStore_Rename now a b s)) =
      (if view_get now (store_view s) a \<noteq> None then view_move a b (store_view s) else store_view s)"
  proof (cases "RadishStore_Get now s a = None")
    case True
    then have "snd (RadishStore_Rename now a b s) = s" by (subst ren) simp
    with True show ?thesis by (simp add: Get_view assms)
  next
    case False
    with view_of_rename(2) [OF assms False] show ?thesis by (simp add: Get_view assms)
  qed
qed

lemma view_of_delete:
  "fst (RadishStore_Delete key s) \<longleftrightarrow> store_view s key \<noteq> None"
  "store_view (snd (RadishStore_Delete key s)) = view_delete key (store_view s)"
  by (auto simp: RadishStore_Delete_def store_view_def view_delete_def umap_simps fun_eq_iff)

lemma view_of_clear:
  "fst (RadishStore_Clear s) \<longleftrightarrow> (\<exists>key. store_view s key \<noteq> None)"
  "store_view (snd (RadishStore_Clear s)) = Map.empty"
  by (auto simp: RadishStore_Clear_def store_view_def umap_empty_iff fun_eq_iff umap_simps)

lemma Exists_Get: "RadishStore_Exists now s key \<longleftrightarrow> RadishStore_Get now s key \<noteq> None"
  by (simp add: RadishStore_Exists_def RadishStore_Get_def umap_contains_def)

lemma Swap_sel [simp]: "fst (RadishStore_Swap s t) = t" "snd (RadishStore_Swap s t) = s"
  by (simp_all add: RadishStore_Swap_def)

section \<open>Enumeration\<close>

lemma Scan_loop_filter:
  "RadishStore_Scan_loop (\<lambda>_. t) i s es = filter (\<lambda>k. \<not> RadishStore_IsExpired t s k) (map fst es)"
  by (induction es arbitrary: i) auto

lemma Size_loop_length: "RadishStore_Size_loop now i s es = length (RadishStore_Scan_loop now i s es)"
  by (induction es arbitrary: i) auto

lemma Scan_loop_subset: "set (RadishStore_Scan_loop now i s es) \<subseteq> fst ` set es"
proof (induction es arbitrary: i)
  case (Cons e es)
  then show ?case by (cases e) (force split: if_splits)
qed simp

lemma Scan_set:
  assumes "iteration_order ord"
  shows "set (RadishStore_Scan ord (\<lambda>_. t) s) = {key. RadishStore_Exists t s key}"
  using assms
  by (auto simp: RadishStore_Scan_def Scan_loop_filter RadishStore_Exists_def umap_contains_def
      umap_find_eq_None)

lemma Scan_distinct:
  assumes "iteration_order ord" and "store_ok s"
  shows "distinct (RadishStore_Scan ord (\<lambda>_. t) s)"
  using assms iteration_order_distinct_fst [OF assms(1), of "m_data s"]
  by (simp add: RadishStore_Scan_def Scan_loop_filter store_ok_def umap_ok_def)

section \<open>Properties\<close>

text \<open>
  (C28) Every operation of the store keeps its invariant: keys stay distinct, with a time to
  live exactly the stored keys have an expiry, and without one no expiry is kept.
\<close>

theorem store_operations_keep_invariant:
  assumes "store_ok s"
  shows "(RadishStore_Create now key v ts s = Inr (t, s') \<longrightarrow> store_ok s') \<and>
    store_ok (snd (RadishStore_Rename now a b s)) \<and>
    store_ok (snd (RadishStore_Delete key s)) \<and>
    store_ok (snd (RadishStore_Clear s))"
  using assms by (auto intro: store_ok_intros)

text \<open>A store with one live session, used by the witnesses.\<close>

definition session_store :: "string RadishStore" where
  "session_store = \<lparr>m_ttl = 50, m_data = [(''session'', ''user'')], m_ttlData = [(''session'', 150)]\<rparr>"

lemma session_store_ok: "store_ok session_store"
  by (simp add: store_ok_def session_store_def umap_ok_def RadishStore_HasTimeToLive_def)

theorem store_operations_keep_invariant_witness:
  "store_ok session_store \<and> store_ok (snd (RadishStore_Rename 100 ''session'' ''other'' session_store)) \<and>
   store_ok (snd (RadishStore_Delete ''session'' session_store))"
  using store_operations_keep_invariant [OF session_store_ok] session_store_ok by blast

text \<open>
  (C20) The store implements its specification over views: a creation binds the key to the
  value and its expiry, a rename moves a live entry and refuses otherwise, a deletion and a
  clear remove entries and report whether there was anything to remove, and a read returns the
  value of a live entry.
\<close>

theorem store_refines_view:
  assumes "store_ok s"
  shows "(RadishStore_Create now key v (Some t) s = Inr (r, s') \<longrightarrow>
      store_view s' = view_create key v (if RadishStore_HasTimeToLive s then Some t else None) (store_view s)) \<and>
    (fst (RadishStore_Rename now a b s) \<longleftrightarrow> view_get now (store_view s) a \<noteq> None) \<and>
    store_view (snd (RadishStore_Rename now a b s)) =
      (if view_get now (store_view s) a \<noteq> None then view_move a b (store_view s) else store_view s) \<and>
    (fst (RadishStore_Delete key s) \<longleftrightarrow> store_view s key \<noteq> None) \<and>
    store_view (snd (RadishStore_Delete key s)) = view_delete key (store_view s) \<and>
    (fst (RadishStore_Clear s) \<longleftrightarrow> (\<exists>k. store_view s k \<noteq> None)) \<and>
    store_view (snd (RadishStore_Clear s)) = Map.empty \<and>
    RadishStore_Get now s key = view_get now (store_view s) key"
  using view_of_create [OF _ assms] view_of_rename_total [OF assms]
  by (simp add: view_of_delete view_of_clear Get_view [OF assms])

theorem store_refines_view_witness:
  "store_view (snd (RadishStore_Rename 100 ''session'' ''moved'' session_store)) =
     (if view_get 100 (store_view session_store) ''session'' \<noteq> None
      then view_move ''session'' ''moved'' (store_view session_store) else store_view session_store)"
  using store_refines_view [OF session_store_ok] by blast

text \<open>
  The four read operations agree at every instant: a key exists iff reading it returns a
  value, the scan lists exactly the existing keys, each once, in any order of iteration, and
  the size is their number.
\<close>

lemma store_reads_agree:
  assumes "store_ok s" and "iteration_order ord"
  shows "(RadishStore_Exists t s key \<longleftrightarrow> RadishStore_Get t s key \<noteq> None) \<and>
    set (RadishStore_Scan ord (\<lambda>_. t) s) = {key. RadishStore_Get t s key \<noteq> None} \<and>
    distinct (RadishStore_Scan ord (\<lambda>_. t) s) \<and>
    RadishStore_Size ord (\<lambda>_. t) s = card {key. RadishStore_Get t s key \<noteq> None}"
proof (intro conjI)
  show "RadishStore_Exists t s key \<longleftrightarrow> RadishStore_Get t s key \<noteq> None" by (rule Exists_Get)
  show set: "set (RadishStore_Scan ord (\<lambda>_. t) s) = {key. RadishStore_Get t s key \<noteq> None}"
    using Scan_set [OF assms(2)] by (simp add: Exists_Get)
  show d: "distinct (RadishStore_Scan ord (\<lambda>_. t) s)" by (rule Scan_distinct [OF assms(2,1)])
  have "RadishStore_Size ord (\<lambda>_. t) s = length (RadishStore_Scan ord (\<lambda>_. t) s)"
    by (simp add: RadishStore_Size_def RadishStore_Scan_def Size_loop_length)
  then show "RadishStore_Size ord (\<lambda>_. t) s = card {key. RadishStore_Get t s key \<noteq> None}"
    using distinct_card [OF d] set by simp
qed

lemma store_reads_agree_witness:
  "RadishStore_Size rev (\<lambda>_. 100) session_store = card {key. RadishStore_Get 100 session_store key \<noteq> None} \<and>
   RadishStore_Size rev (\<lambda>_. 100) session_store = 1 \<and> RadishStore_Size rev (\<lambda>_. 150) session_store = 0"
proof -
  have "RadishStore_Size rev (\<lambda>_. 100) session_store = card {key. RadishStore_Get 100 session_store key \<noteq> None}"
    using store_reads_agree [OF session_store_ok iteration_order_rev] by blast
  moreover have "RadishStore_Size rev (\<lambda>_. 100) session_store = 1 \<and> RadishStore_Size rev (\<lambda>_. 150) session_store = 0"
    by (simp add: RadishStore_Size_def session_store_def RadishStore_IsExpired_def RadishStore_HasTimeToLive_def umap_find_def)
  ultimately show ?thesis by blast
qed

text \<open>
  A key written into a store with a time to live is readable exactly until the clock
  reaches the reading at the write plus the time to live; other keys are unaffected.
\<close>

lemma create_expires_exactly:
  assumes "store_ok s" and "RadishStore_HasTimeToLive s"
    and "RadishStore_Create now key v None s = Inr (expiry, s')"
  shows "sint expiry = sint now + sint (m_ttl s) \<and>
    RadishStore_Get later s' key = (if sint later < sint now + sint (m_ttl s) then Some v else None) \<and>
    (other \<noteq> key \<longrightarrow> RadishStore_Get later s' other = RadishStore_Get later s other)"
proof (intro conjI)
  from assms(2,3) have e: "add_ll now (m_ttl s) = Inr expiry"
    and s': "RadishStore_Create now key v (Some expiry) s = Inr (expiry, s')"
    by (auto simp: store_defs Let_def result_simps)
  show sum: "sint expiry = sint now + sint (m_ttl s)" using e by (rule add_ll_Inr)
  have ok: "store_ok s'" using store_ok_create [OF assms(1) s'] .
  have v: "store_view s' = view_create key v (Some expiry) (store_view s)"
    using view_of_create [OF s' assms(1)] assms(2) by simp
  show "RadishStore_Get later s' key = (if sint later < sint now + sint (m_ttl s) then Some v else None)"
    using ok v sum by (simp add: Get_view view_get_def view_create_def)
  show "other \<noteq> key \<longrightarrow> RadishStore_Get later s' other = RadishStore_Get later s other"
    using ok v assms(1) by (simp add: Get_view view_get_def view_create_def)
qed

lemma create_expires_exactly_witness:
  "\<exists>s'. RadishStore_Create 200 ''k'' ''v'' None session_store = Inr (250, s') \<and>
     RadishStore_Get 249 s' ''k'' = Some ''v'' \<and> RadishStore_Get 250 s' ''k'' = None"
proof -
  have ttl: "RadishStore_HasTimeToLive session_store"
    by (simp add: session_store_def RadishStore_HasTimeToLive_def)
  obtain s' where s': "RadishStore_Create 200 ''k'' ''v'' None session_store = Inr (250, s')"
    by (simp add: session_store_def store_defs RadishStore_HasTimeToLive_def Let_def add_ll_def)
  have "m_ttl session_store = 50" by (simp add: session_store_def)
  with create_expires_exactly [OF session_store_ok ttl s', of 249]
    create_expires_exactly [OF session_store_ok ttl s', of 250] s'
  show ?thesis by auto
qed

text \<open>
  Renaming a live key onto itself destroys it: the store first copies the value onto the
  new key and then erases the old one, reports success, and the key is gone.
\<close>

lemma rename_onto_itself_deletes:
  assumes "store_ok s" and "RadishStore_Get now s key = Some v"
  shows "fst (RadishStore_Rename now key key s) \<and>
    RadishStore_Get later (snd (RadishStore_Rename now key key s)) key = None"
proof (intro conjI)
  show "fst (RadishStore_Rename now key key s)"
    using view_of_rename_total(1) [OF assms(1)] assms by (simp add: Get_view)
  have "store_view (snd (RadishStore_Rename now key key s)) key = None"
    using view_of_rename(2) [OF assms(1)] assms(2) by (simp add: view_move_def)
  then show "RadishStore_Get later (snd (RadishStore_Rename now key key s)) key = None"
    using store_ok_rename [OF assms(1)] by (simp add: Get_view view_get_def)
qed

lemma rename_onto_itself_deletes_witness:
  "RadishStore_Get 100 session_store ''session'' = Some ''user'' \<and>
   fst (RadishStore_Rename 100 ''session'' ''session'' session_store) \<and>
   RadishStore_Get 100 (snd (RadishStore_Rename 100 ''session'' ''session'' session_store)) ''session'' = None"
proof -
  have live: "RadishStore_Get 100 session_store ''session'' = Some ''user''"
    by (simp add: session_store_def RadishStore_Get_def RadishStore_IsExpired_def RadishStore_HasTimeToLive_def
        umap_contains_def umap_find_def)
  from rename_onto_itself_deletes [OF session_store_ok live] live show ?thesis by blast
qed

end
