(* ===== verification/Log_Writer.thy ===== *)
theory Log_Writer
  imports Journal Log_Reader Radish_Store
begin

text \<open>
  \<^verbatim>\<open>include/persistence/LogWriter.h\<close>, \<^verbatim>\<open>include/persistence/CompactStrategy.h\<close> and
  \<^verbatim>\<open>include/persistence/PersistenceLog.h\<close>: creating the log, appending an event, replaying
  the log into a store, and compaction with its strategy per event type. Every operation
  returns the file system it leaves behind, also when it throws.

  The mutex of \<^verbatim>\<open>PersistenceLog\<close> makes its operations atomic; its forwarding methods
  are the corresponding operations of the writer.

  Shown here: what each operation leaves in the log on every path. An append that fails leaves
  the old log followed by a prefix of the new record; a compaction that fails leaves the log
  as it was.
\<close>

section \<open>Compaction strategies\<close>

type_synonym EventsMap = "(string, RadishEvent) umap"
type_synonym CompactStrategy = "EventsMap \<Rightarrow> RadishEvent \<Rightarrow> EventsMap result"
type_synonym EventStrategies = "(EventType, CompactStrategy) umap"

definition CreateCompactStrategy_Execute :: CompactStrategy where
  "CreateCompactStrategy_Execute events event =
     rbind (deref (GetKey event)) (\<lambda>key. Inr (umap_assign key event events))"

definition RenameCompactStrategy_Execute :: CompactStrategy where
  "RenameCompactStrategy_Execute events event =
     rbind (opt_value (GetKey event)) (\<lambda>key.
       case umap_find events key of
         None \<Rightarrow> Inr events
       | Some entry \<Rightarrow>
           let events1 = umap_erase key events
           in rbind (opt_value (GetRenameKey event)) (\<lambda>renameKey.
                Inr (umap_assign renameKey (RadishEvent_SetKey renameKey entry) events1)))"

definition DeleteCompactStrategy_Execute :: CompactStrategy where
  "DeleteCompactStrategy_Execute events event =
     rbind (opt_value (GetKey event)) (\<lambda>key. Inr (umap_erase key events))"

definition ClearCompactStrategy_Execute :: CompactStrategy where
  "ClearCompactStrategy_Execute events event = Inr []"

section \<open>The writer\<close>

record LogWriter =
  m_filename :: string
  m_compactStrategies :: EventStrategies

definition LogWriter_InitializeCompactStrategies :: EventStrategies where
  "LogWriter_InitializeCompactStrategies =
     [(CREATE, CreateCompactStrategy_Execute), (RENAME, RenameCompactStrategy_Execute),
      (DELETE, DeleteCompactStrategy_Execute), (CLEAR, ClearCompactStrategy_Execute)]"

text \<open>\<^verbatim>\<open>std::filesystem::path(path) / filename\<close> on a POSIX system.\<close>

definition path_append :: "string \<Rightarrow> string \<Rightarrow> string" where
  "path_append path filename =
     (if take 1 filename = ''/'' then filename
      else if path = [] \<or> last path = CHR ''/'' then path @ filename
      else path @ ''/'' @ filename)"

definition LogWriter_WriteHeader :: "ostream \<Rightarrow> unit result \<times> ostream" where
  "LogWriter_WriteHeader s =
     (let s1 = ostream_write (''RADISH'' @ [CHR 0x00, CHR 0x01]) s
      in (if obad s1 then Inl (IosFailure ''Failed to write persistence log header'') else Inr (), s1))"

definition LogWriter_WriteRecord :: "TType \<Rightarrow> RadishEvent \<Rightarrow> ostream \<Rightarrow> unit result \<times> ostream" where
  "LogWriter_WriteRecord ty event s =
     (case RadishEvent_Serialize ty event ostringstream of
        (Inl e, _) \<Rightarrow> (Inl e, s)
      | (Inr _, rec) \<Rightarrow>
          let bytes = obuf rec
          in if bytes = [] \<or> length bytes > 64 * 1024 * 1024
             then (Inl (LengthError ''Persistence record has invalid size''), s)
             else let sz = (of_nat (length bytes) :: BinarySize);
                      s1 = ostream_write (le_bytes 4 (unat sz)) s;
                      s2 = ostream_write bytes s1
                  in (if obad s2 then Inl (IosFailure ''Failed to write persistence record'') else Inr (), s2))"

definition LogWriter_EnsureInitialized :: "string \<Rightarrow> Device \<Rightarrow> FileSystem \<Rightarrow> unit result \<times> FileSystem" where
  "LogWriter_EnsureInitialized filename dev fs =
     (case fs filename of
        Some content \<Rightarrow>
          if \<not> dev_open_read dev
          then (Inl (RuntimeError (''Failed to open persistence log: '' @ filename)), fs)
          else
            let (header, s) = istream_read 8 (ifstream (dev_read_error dev) content)
            in (if ifail s \<or> header \<noteq> ''RADISH'' @ [CHR 0x00, CHR 0x01]
                then Inl (RuntimeError ''Unsupported or corrupt persistence log header'') else Inr (), fs)
      | None \<Rightarrow>
          if \<not> dev_open_write dev
          then (Inl (RuntimeError (''Failed to create persistence log: '' @ filename)), fs)
          else
            let (r, s) = LogWriter_WriteHeader (ofstream (dev_room dev))
            in (r, fs(filename \<mapsto> obuf s)))"

definition LogWriter_new :: "string \<Rightarrow> string \<Rightarrow> Device \<Rightarrow> FileSystem \<Rightarrow> LogWriter result \<times> FileSystem" where
  "LogWriter_new filename path dev fs =
     (let f = path_append path filename
      in sbind (LogWriter_EnsureInitialized f dev fs) (\<lambda>_ fs1.
           (Inr \<lparr>m_filename = f, m_compactStrategies = LogWriter_InitializeCompactStrategies\<rparr>, fs1)))"

definition LogWriter_Append ::
    "TType \<Rightarrow> LogWriter \<Rightarrow> Device \<Rightarrow> RadishEvent \<Rightarrow> FileSystem \<Rightarrow> unit result \<times> FileSystem" where
  "LogWriter_Append ty w dev row fs =
     (if \<not> dev_open_write dev
      then (Inl (RuntimeError (''Failed to open file for writing: '' @ m_filename w)), fs)
      else
        let (r, s) = LogWriter_WriteRecord ty row (ofstream (dev_room dev));
            old = (case fs (m_filename w) of None \<Rightarrow> [] | Some content \<Rightarrow> content);
            fs1 = fs(m_filename w \<mapsto> old @ obuf s)
        in (case r of
              Inl e \<Rightarrow> (Inl e, fs1)
            | Inr _ \<Rightarrow>
                (if obad s then Inl (IosFailure (''Failed to flush persistence log: '' @ m_filename w)) else Inr (),
                 fs1)))"

definition LogWriter_ApplyEvent ::
    "Timestamp \<Rightarrow> char list RadishStore \<Rightarrow> RadishEvent \<Rightarrow> (bool \<times> char list RadishStore) result" where
  "LogWriter_ApplyEvent now store event =
     (if GetEventType event = CREATE then
        rbind (deref (GetKey event)) (\<lambda>key.
        rbind (deref (GetPayload event)) (\<lambda>payload.
        rbind (RadishStore_Create now key payload (Some (GetTimestamp event)) store) (\<lambda>(_, store1).
          Inr (True, store1))))
      else if GetEventType event = RENAME then
        rbind (deref (GetKey event)) (\<lambda>key.
        rbind (deref (GetRenameKey event)) (\<lambda>renameKey.
          Inr (RadishStore_Rename now key renameKey store)))
      else if GetEventType event = DELETE then
        rbind (deref (GetKey event)) (\<lambda>key. Inr (RadishStore_Delete key store))
      else if GetEventType event = CLEAR then Inr (RadishStore_Clear store)
      else Inl (RuntimeError ''Unknown persistence event type''))"

fun LogWriter_Replay_loop ::
    "(nat \<Rightarrow> Timestamp) \<Rightarrow> nat \<Rightarrow> RadishEvent list \<Rightarrow> char list RadishStore \<Rightarrow> char list RadishStore result" where
  "LogWriter_Replay_loop now i [] store = Inr store"
| "LogWriter_Replay_loop now i (event # es) store =
     rbind (LogWriter_ApplyEvent (now i) store event) (\<lambda>(_, store1).
       LogWriter_Replay_loop now (Suc i) es store1)"

definition LogWriter_Replay ::
    "TType \<Rightarrow> LogWriter \<Rightarrow> Device \<Rightarrow> (nat \<Rightarrow> Timestamp) \<Rightarrow> FileSystem \<Rightarrow> char list RadishStore \<Rightarrow> char list RadishStore result" where
  "LogWriter_Replay ty w dev now fs store =
     rbind (LogReader_GetEvents ty (m_filename w) dev fs) (\<lambda>es. LogWriter_Replay_loop now 0 es store)"

fun LogWriter_Rewrite_loop ::
    "TType \<Rightarrow> (nat \<Rightarrow> Timestamp) \<Rightarrow> nat \<Rightarrow> (string \<times> RadishEvent) list \<Rightarrow> ostream \<Rightarrow> unit result \<times> ostream" where
  "LogWriter_Rewrite_loop ty now i [] s = (Inr (), s)"
| "LogWriter_Rewrite_loop ty now i ((_, event) # entries) s =
     (if GetTimestamp event \<noteq> -1 \<and> sint (GetTimestamp event) < sint (now i)
      then LogWriter_Rewrite_loop ty now (Suc i) entries s
      else sbind (LogWriter_WriteRecord ty event s) (\<lambda>_ s1.
             LogWriter_Rewrite_loop ty now (Suc i) entries s1))"

definition LogWriter_RewriteHistory ::
    "TType \<Rightarrow> LogWriter \<Rightarrow> Device \<Rightarrow> ((string \<times> RadishEvent) list \<Rightarrow> (string \<times> RadishEvent) list) \<Rightarrow>
     (nat \<Rightarrow> Timestamp) \<Rightarrow> EventsMap \<Rightarrow> FileSystem \<Rightarrow> unit result \<times> FileSystem" where
  "LogWriter_RewriteHistory ty w dev ord now events fs =
     (let temporaryFilename = m_filename w @ ''.tmp''
      in if \<not> dev_open_write dev
         then (Inl (RuntimeError (''Failed to open temporary persistence log: '' @ temporaryFilename)), fs)
         else
           let (r, s) = sbind (LogWriter_WriteHeader (ofstream (dev_room dev))) (\<lambda>_ s1.
                          LogWriter_Rewrite_loop ty now 0 (ord events) s1);
               fs1 = fs(temporaryFilename \<mapsto> obuf s)
           in (case r of
                 Inl e \<Rightarrow> (Inl e, fs1)
               | Inr _ \<Rightarrow>
                   if obad s then (Inl (IosFailure ''Failed to flush compacted persistence log''), fs1)
                   else if \<not> dev_close dev
                   then (Inl (IosFailure ''Failed to close compacted persistence log''), fs1)
                   else if \<not> dev_rename dev
                   then (Inl (FilesystemError ''rename''), fs1)
                   else (Inr (), fs1(m_filename w \<mapsto> obuf s, temporaryFilename := None))))"

fun LogWriter_Compact_loop ::
    "LogWriter \<Rightarrow> (nat \<Rightarrow> Timestamp) \<Rightarrow> nat \<Rightarrow> RadishEvent list \<Rightarrow> EventsMap \<Rightarrow> EventsMap result" where
  "LogWriter_Compact_loop w now i [] events = Inr events"
| "LogWriter_Compact_loop w now i (event # es) events =
     (if GetEventType event = CREATE \<and> GetTimestamp event \<noteq> -1 \<and> sint (GetTimestamp event) < sint (now i)
      then LogWriter_Compact_loop w now (Suc i) es events
      else
        (case umap_find (m_compactStrategies w) (GetEventType event) of
           None \<Rightarrow> LogWriter_Compact_loop w now (Suc i) es events
         | Some strategy \<Rightarrow>
             rbind (strategy events event) (\<lambda>events1.
               LogWriter_Compact_loop w now (Suc i) es events1)))"

definition LogWriter_Compact ::
    "TType \<Rightarrow> LogWriter \<Rightarrow> Device \<Rightarrow> ((string \<times> RadishEvent) list \<Rightarrow> (string \<times> RadishEvent) list) \<Rightarrow>
     (nat \<Rightarrow> Timestamp) \<Rightarrow> (nat \<Rightarrow> Timestamp) \<Rightarrow> FileSystem \<Rightarrow> unit result \<times> FileSystem" where
  "LogWriter_Compact ty w dev ord now1 now2 fs =
     sbind (rbind (LogReader_GetEvents ty (m_filename w) dev fs) (\<lambda>es. LogWriter_Compact_loop w now1 0 es []), fs)
       (\<lambda>events fs. LogWriter_RewriteHistory ty w dev ord now2 events fs)"

section \<open>The facade\<close>

record PersistenceLog =
  m_writer :: LogWriter

definition PersistenceLog_new :: "string \<Rightarrow> string \<Rightarrow> Device \<Rightarrow> FileSystem \<Rightarrow> PersistenceLog result \<times> FileSystem" where
  "PersistenceLog_new filename path dev fs =
     sbind (LogWriter_new filename path dev fs) (\<lambda>w fs1. (Inr \<lparr>m_writer = w\<rparr>, fs1))"

definition PersistenceLog_Append ::
    "TType \<Rightarrow> PersistenceLog \<Rightarrow> Device \<Rightarrow> RadishEvent \<Rightarrow> FileSystem \<Rightarrow> unit result \<times> FileSystem" where
  "PersistenceLog_Append ty log dev row fs = LogWriter_Append ty (m_writer log) dev row fs"

definition PersistenceLog_Replay ::
    "TType \<Rightarrow> PersistenceLog \<Rightarrow> Device \<Rightarrow> (nat \<Rightarrow> Timestamp) \<Rightarrow> FileSystem \<Rightarrow> char list RadishStore \<Rightarrow> char list RadishStore result" where
  "PersistenceLog_Replay ty log dev now fs store = LogWriter_Replay ty (m_writer log) dev now fs store"

definition PersistenceLog_Apply ::
    "Timestamp \<Rightarrow> PersistenceLog \<Rightarrow> char list RadishStore \<Rightarrow> RadishEvent \<Rightarrow> (bool \<times> char list RadishStore) result" where
  "PersistenceLog_Apply now log store event = LogWriter_ApplyEvent now store event"

definition PersistenceLog_Compact ::
    "TType \<Rightarrow> PersistenceLog \<Rightarrow> Device \<Rightarrow> ((string \<times> RadishEvent) list \<Rightarrow> (string \<times> RadishEvent) list) \<Rightarrow>
     (nat \<Rightarrow> Timestamp) \<Rightarrow> (nat \<Rightarrow> Timestamp) \<Rightarrow> FileSystem \<Rightarrow> unit result \<times> FileSystem" where
  "PersistenceLog_Compact ty log dev ord now1 now2 fs = LogWriter_Compact ty (m_writer log) dev ord now1 now2 fs"

section \<open>Lemmas: writing\<close>

text \<open>The device has room for a number of bytes.\<close>

fun has_room :: "nat option \<Rightarrow> nat \<Rightarrow> bool" where
  "has_room None n = True"
| "has_room (Some m) n = (n \<le> m)"

definition writable :: "Device \<Rightarrow> nat \<Rightarrow> bool" where
  "writable dev n \<longleftrightarrow> dev_open_write dev \<and> has_room (dev_room dev) n"

lemma header_literal: "''RADISH'' @ [CHR 0x00, CHR 0x01] = kHeader"
  by (simp add: kHeader_def)

lemma unat_BinarySize: "n \<le> kMaxRecordSize \<Longrightarrow> unat (of_nat n :: BinarySize) = n"
  by (rule BinarySize_max_less) (simp add: kMaxRecordSize_def BinarySize_max_def)

lemma WriteRecord_ok:
  assumes "record_ok ty e"
  shows "LogWriter_WriteRecord ty e s =
    (let s1 = ostream_write (frame ty e) s
     in (if obad s1 then Inl (IosFailure ''Failed to write persistence record'') else Inr (), s1))"
proof -
  have "event_bytes ty e \<noteq> []" using event_bytes_nonempty [of ty e] by auto
  moreover have "length (event_bytes ty e) \<le> kMaxRecordSize" using assms by (simp add: record_ok_def)
  moreover from this have "\<not> length (event_bytes ty e) > 64 * 1024 * 1024" by (simp add: kMaxRecordSize_def)
  ultimately show ?thesis
    using assms ev.put_string [of ty e]
    by (simp add: LogWriter_WriteRecord_def record_ok_def Let_def unat_BinarySize frame_def
        ostream_write_append [symmetric])
qed

lemma WriteRecord_oversized:
  assumes "event_ok ty e" and "kMaxRecordSize < length (event_bytes ty e)"
  shows "LogWriter_WriteRecord ty e s = (Inl (LengthError ''Persistence record has invalid size''), s)"
  using assms ev.put_string [of ty e]
  by (simp add: LogWriter_WriteRecord_def kMaxRecordSize_def)

definition file_content :: "FileSystem \<Rightarrow> string \<Rightarrow> char list" where
  "file_content fs f = (case fs f of None \<Rightarrow> [] | Some content \<Rightarrow> content)"

lemma Append_ok:
  assumes "record_ok ty e" and "writable dev (length (frame ty e))"
  shows "LogWriter_Append ty w dev e fs =
    (Inr (), fs(m_filename w \<mapsto> file_content fs (m_filename w) @ frame ty e))"
  using assms
  by (cases "dev_room dev")
    (simp_all add: LogWriter_Append_def WriteRecord_ok ostream_write_limited Let_def writable_def file_content_def)

lemma Append_full:
  assumes "record_ok ty e" and "dev_open_write dev" and "dev_room dev = Some n" and "n < length (frame ty e)"
  shows "LogWriter_Append ty w dev e fs =
    (Inl (IosFailure ''Failed to write persistence record''),
     fs(m_filename w \<mapsto> file_content fs (m_filename w) @ take n (frame ty e)))"
  using assms
  by (simp add: LogWriter_Append_def WriteRecord_ok ostream_write_limited Let_def file_content_def)

lemma Append_cases [consumes 1, case_names ok closed torn]:
  assumes "record_ok ty e"
  obtains (ok) "LogWriter_Append ty w dev e fs =
      (Inr (), fs(m_filename w \<mapsto> file_content fs (m_filename w) @ frame ty e))"
  | (closed) err where "LogWriter_Append ty w dev e fs = (Inl err, fs)"
  | (torn) err n where "n < length (frame ty e)" "LogWriter_Append ty w dev e fs =
      (Inl err, fs(m_filename w \<mapsto> file_content fs (m_filename w) @ take n (frame ty e)))"
proof (cases "writable dev (length (frame ty e))")
  case True
  with assms ok show thesis by (simp add: Append_ok)
next
  case False
  show thesis
  proof (cases "dev_open_write dev")
    case True
    with False obtain n where n: "dev_room dev = Some n" "n < length (frame ty e)"
      by (cases "dev_room dev") (auto simp: writable_def)
    show thesis by (rule torn [OF n(2) Append_full [OF assms True n]])
  next
    case False
    then show thesis by (intro closed) (simp add: LogWriter_Append_def)
  qed
qed

text \<open>Compaction touches the log only by replacing it at the very end.\<close>

lemma tmp_ne [simp]: "f @ ''.tmp'' \<noteq> f" "f \<noteq> f @ ''.tmp''"
  by simp_all

lemma RewriteHistory_error_keeps_log:
  assumes "LogWriter_RewriteHistory ty w dev ord now events fs = (Inl e, fs')"
  shows "fs' (m_filename w) = fs (m_filename w)"
  using assms
  by (auto simp: LogWriter_RewriteHistory_def Let_def split: if_splits prod.splits sum.splits)

lemma Compact_error_keeps_log:
  assumes "LogWriter_Compact ty w dev ord now1 now2 fs = (Inl e, fs')"
  shows "fs' (m_filename w) = fs (m_filename w)"
  using assms RewriteHistory_error_keeps_log
  by (auto simp: LogWriter_Compact_def sbind_def split: sum.splits)

text \<open>The records a rewrite keeps, in the order of iteration.\<close>

fun rewrite_kept :: "(nat \<Rightarrow> Timestamp) \<Rightarrow> nat \<Rightarrow> (string \<times> RadishEvent) list \<Rightarrow> RadishEvent list" where
  "rewrite_kept now i [] = []"
| "rewrite_kept now i (entry # entries) =
     (if m_timestamp (snd entry) \<noteq> -1 \<and> sint (m_timestamp (snd entry)) < sint (now i)
      then rewrite_kept now (Suc i) entries
      else snd entry # rewrite_kept now (Suc i) entries)"

lemma Rewrite_loop_ok:
  assumes "\<forall>entry \<in> set entries. record_ok ty (snd entry)" and "oroom s = None" and "\<not> obad s"
  shows "LogWriter_Rewrite_loop ty now i entries s =
    (Inr (), s\<lparr>obuf := obuf s @ concat (map (frame ty) (rewrite_kept now i entries))\<rparr>)"
  using assms
proof (induction entries arbitrary: i s)
  case (Cons entry entries)
  then show ?case by (cases entry) (simp add: WriteRecord_ok Let_def)
qed simp

lemma RewriteHistory_ok:
  assumes "\<forall>entry \<in> set (ord events). record_ok ty (snd entry)"
    and "dev_open_write dev" "dev_room dev = None" "dev_close dev" "dev_rename dev"
  shows "LogWriter_RewriteHistory ty w dev ord now events fs =
    (Inr (), fs(m_filename w \<mapsto> log_bytes ty (rewrite_kept now 0 (ord events)), m_filename w @ ''.tmp'' := None))"
  using assms
  by (auto simp: LogWriter_RewriteHistory_def LogWriter_WriteHeader_def Let_def ofstream_def kHeader_def
      Rewrite_loop_ok log_bytes_def fun_eq_iff)

section \<open>Replaying is a journal of the store\<close>

lemma umap_erase_absent: "umap_find m k = None \<Longrightarrow> umap_erase k m = m"
  by (simp add: umap_erase_def umap_find_eq_None)

lemma ApplyEvent_refused:
  assumes "store_ok s" and "LogWriter_ApplyEvent now s e = Inr (False, s')"
  shows "s' = s"
proof -
  have del: "snd (RadishStore_Delete k s) = s" if "\<not> fst (RadishStore_Delete k s)" for k
  proof -
    from that have "umap_find (m_data s) k = None"
      by (simp add: RadishStore_Delete_def umap_contains_def)
    moreover from this assms(1) have "umap_find (m_ttlData s) k = None"
      by (auto simp: store_ok_iff umap_simps split: if_splits)
    ultimately show ?thesis by (simp add: RadishStore_Delete_def umap_erase_absent)
  qed
  have ren: "snd (RadishStore_Rename now a b s) = s" if "\<not> fst (RadishStore_Rename now a b s)" for a b
    using that by (auto simp: RadishStore_Rename_def Let_def split: option.splits if_splits)
  have clr: "snd (RadishStore_Clear s) = s" if "\<not> fst (RadishStore_Clear s)"
    using that by (auto simp: RadishStore_Clear_def split: if_splits)
  show ?thesis
    using assms(2) del ren clr
    by (auto simp: LogWriter_ApplyEvent_def result_simps split: if_splits) (metis fst_conv snd_conv)+
qed

lemma ApplyEvent_store_ok:
  assumes "store_ok s" and "LogWriter_ApplyEvent now s e = Inr (b, s')"
  shows "store_ok s'"
  using assms store_ok_rename [OF assms(1)] store_ok_delete [OF assms(1)] store_ok_clear [OF assms(1)]
  by (auto simp: LogWriter_ApplyEvent_def result_simps split: if_splits dest: store_ok_create)
    (metis snd_conv)+

interpretation jr: journal LogWriter_ApplyEvent LogWriter_Replay_loop store_ok
  by unfold_locales (auto dest: ApplyEvent_refused ApplyEvent_store_ok)


lemma Append_oversized:
  assumes "event_ok ty e" and "\<not> record_ok ty e" and "dev_open_write dev"
  shows "LogWriter_Append ty w dev e fs =
    (Inl (LengthError ''Persistence record has invalid size''),
     fs(m_filename w \<mapsto> file_content fs (m_filename w)))"
  using assms WriteRecord_oversized [of ty e]
  by (simp add: record_ok_def LogWriter_Append_def not_le file_content_def ofstream_def)

text \<open>What an append leaves in a log: all of the record, or an unfinished one.\<close>

lemma Append_Inr:
  assumes "fs (m_filename w) = Some (log_bytes ty es)" and "event_ok ty e"
    and "LogWriter_Append ty w dev e fs = (Inr u, fs')"
  shows "record_ok ty e \<and> fs' (m_filename w) = Some (log_bytes ty (es @ [e]))"
proof (cases "record_ok ty e")
  case True
  then show ?thesis
    using assms True by (cases rule: Append_cases [of ty e w dev fs]) (auto simp: file_content_def log_bytes_def)
next
  case False
  with assms show ?thesis
    using Append_oversized [OF assms(2) False, of dev w fs] by (cases "dev_open_write dev") (auto simp: LogWriter_Append_def)
qed

lemma Append_Inl:
  assumes "fs (m_filename w) = Some (log_bytes ty es)" and "event_ok ty e"
    and "LogWriter_Append ty w dev e fs = (Inl err, fs')"
  shows "\<exists>tail. fs' (m_filename w) = Some (log_bytes ty es @ tail) \<and> torn_tail tail"
proof (cases "record_ok ty e")
  case True
  then show ?thesis
  proof (cases rule: Append_cases [of ty e w dev fs])
    case (torn err n)
    with assms frame_prefix_torn [OF True torn(1)] show ?thesis by (auto simp: file_content_def)
  qed (use assms in \<open>auto intro!: exI [of _ "[]"]\<close>)
next
  case False
  with assms show ?thesis
    using Append_oversized [OF assms(2) False, of dev w fs]
    by (cases "dev_open_write dev") (auto simp: LogWriter_Append_def file_content_def intro!: exI [of _ "[]"])
qed

section \<open>Properties\<close>

text \<open>
  (C9) Appending a well-formed event to a log of whole records, without an unfinished one at its end, is
  all or nothing for every later reader: whatever the device does while appending, a reader on a
  readable device afterwards finds the old events and the new one when the append returned, and
  exactly the old events when it threw (also when part of the record reached the file, and when
  the record is too large).
\<close>

theorem append_all_or_nothing:
  assumes "fs (m_filename w) = Some (log_bytes ty es)" and "list_all (record_ok ty) es" and "event_ok ty e"
    and "LogWriter_Append ty w dev e fs = (r, fs')" and "readable dev'"
  shows "LogReader_GetEvents ty (m_filename w) dev' fs' = Inr (if is_ok r then es @ [e] else es)"
proof (cases r)
  case (Inl err)
  with assms(4) Append_Inl [where fs = fs, OF assms(1,3)] obtain tail where
    "fs' (m_filename w) = Some (log_bytes ty es @ tail)" "torn_tail tail" by blast
  with Inl assms(2,5) GetEvents_log [of dev' fs' "m_filename w" ty es tail] show ?thesis by simp
next
  case (Inr u)
  with assms(4) Append_Inr [where fs = fs, OF assms(1,3)] have
    "record_ok ty e" "fs' (m_filename w) = Some (log_bytes ty (es @ [e]))" by blast+
  with Inr assms(2,5) GetEvents_clean [of dev' fs' "m_filename w" ty "es @ [e]"] show ?thesis by simp
qed

definition demo_writer :: LogWriter where
  "demo_writer = \<lparr>m_filename = ''./db.radish'', m_compactStrategies = LogWriter_InitializeCompactStrategies\<rparr>"

definition full_device :: Device where
  "full_device = healthy\<lparr>dev_room := Some 9\<rparr>"

theorem append_all_or_nothing_witness:
  "fst (LogWriter_Append std_string demo_writer full_device clear_event [''./db.radish'' \<mapsto> log_bytes std_string []])
     = Inl (IosFailure ''Failed to write persistence record'') \<and>
   LogReader_GetEvents std_string ''./db.radish'' healthy
     (snd (LogWriter_Append std_string demo_writer full_device clear_event [''./db.radish'' \<mapsto> log_bytes std_string []])) = Inr []"
proof -
  let ?fs = "[''./db.radish'' \<mapsto> log_bytes std_string []]"
  have ok: "record_ok std_string clear_event"
    by (simp add: record_ok_def event_ok_def event_bytes_def kMaxRecordSize_def)
  have e: "fst (LogWriter_Append std_string demo_writer full_device clear_event ?fs)
      = Inl (IosFailure ''Failed to write persistence record'')"
    by (subst Append_full [OF ok, where n = 9]) (simp_all add: full_device_def healthy_def frame_def event_bytes_def)
  have "LogReader_GetEvents std_string (m_filename demo_writer) healthy
      (snd (LogWriter_Append std_string demo_writer full_device clear_event ?fs)) =
    Inr (if is_ok (fst (LogWriter_Append std_string demo_writer full_device clear_event ?fs)) then [] @ [clear_event] else [])"
    by (rule append_all_or_nothing [where fs = ?fs and e = clear_event])
      (use ok in \<open>simp_all add: demo_writer_def record_ok_def\<close>)
  with e show ?thesis by (simp add: demo_writer_def)
qed

text \<open>
  (C27) Compaction replaces the log in one step at the very end: when it throws on any path,
  every file but its temporary file is as it was.
\<close>

theorem failed_compaction_keeps_files:
  assumes "LogWriter_Compact ty w dev ord now1 now2 fs = (Inl e, fs')" and "f \<noteq> m_filename w @ ''.tmp''"
  shows "fs' f = fs f"
  using assms
  by (auto simp: LogWriter_Compact_def LogWriter_RewriteHistory_def sbind_def Let_def
      split: if_splits prod.splits sum.splits)

theorem failed_compaction_keeps_files_witness:
  "\<exists>e fs'. LogWriter_Compact std_string demo_writer full_device id (\<lambda>_. 0) (\<lambda>_. 0)
       [''./db.radish'' \<mapsto> log_bytes std_string [create_event (-1) ''k'' ''v'']] = (Inl e, fs') \<and>
     fs' ''./db.radish'' = Some (log_bytes std_string [create_event (-1) ''k'' ''v''])"
proof -
  let ?e = "create_event (-1) ''k'' ''v''"
  let ?fs = "[''./db.radish'' \<mapsto> log_bytes std_string [?e]]"
  have ok: "record_ok std_string ?e"
    by (simp add: record_ok_def event_ok_def event_bytes_def kMaxRecordSize_def BinarySize_max_def)
  have "LogReader_GetEvents std_string ''./db.radish'' full_device ?fs = Inr [?e]"
    by (rule GetEvents_log [where tail = "[]"]) (use ok in \<open>simp_all add: readable_def full_device_def healthy_def\<close>)
  then have "fst (LogWriter_Compact std_string demo_writer full_device id (\<lambda>_. 0) (\<lambda>_. 0) ?fs) =
      Inl (IosFailure ''Failed to write persistence record'')"
    using ok by (simp add: LogWriter_Compact_def demo_writer_def LogWriter_InitializeCompactStrategies_def
        CreateCompactStrategy_Execute_def umap_find_def umap_assign_def LogWriter_RewriteHistory_def full_device_def healthy_def
        LogWriter_WriteHeader_def ofstream_def ostream_write_def WriteRecord_ok frame_def event_bytes_def Let_def result_simps)
  then obtain fs' where c: "LogWriter_Compact std_string demo_writer full_device id (\<lambda>_. 0) (\<lambda>_. 0) ?fs =
      (Inl (IosFailure ''Failed to write persistence record''), fs')"
    by (cases "LogWriter_Compact std_string demo_writer full_device id (\<lambda>_. 0) (\<lambda>_. 0) ?fs") simp
  from failed_compaction_keeps_files [OF c, of "''./db.radish''"] c show ?thesis
    by (simp add: demo_writer_def)
qed

text \<open>
  (C38) Let a log end in an unfinished record whose length, its first four bytes, is complete. A record that is
  shorter than the missing part and that the device has room for is appended with success, and
  is lost: the reader takes its bytes for the missing part of the unfinished record and still finds only the
  events before that. Opening the log does not cut the unfinished record off. (A longer record
  would complete the unfinished one with the wrong bytes.)
\<close>

theorem append_after_cut_off_record_is_lost:
  assumes "fs (m_filename w) = Some (log_bytes ty es @ take n (frame ty e0))"
    and "list_all (record_ok ty) es" and "record_ok ty e0" and "record_ok ty e"
    and "4 \<le> n" and "n + length (frame ty e) < length (frame ty e0)" and "writable dev (length (frame ty e))"
    and "readable dev'"
  shows "\<exists>fs'. LogWriter_Append ty w dev e fs = (Inr (), fs') \<and>
    LogReader_GetEvents ty (m_filename w) dev' fs' = Inr es"
proof -
  let ?tail = "take n (frame ty e0) @ frame ty e"
  have "take 4 ?tail = le_bytes 4 (length (event_bytes ty e0))"
    using assms(5,6) by (simp add: frame_def min_def)
  moreover have "length ?tail < length (frame ty e0)" using assms(6) by simp
  ultimately have "torn_tail ?tail"
    using frame_size [OF assms(3)] event_bytes_nonempty [of ty e0] assms(3,5,6)
    by (auto simp: torn_tail_def Let_def record_ok_def frame_def)
  then have "LogReader_GetEvents ty (m_filename w) dev' (fs(m_filename w \<mapsto> log_bytes ty es @ ?tail)) = Inr es"
    by (intro GetEvents_log [OF assms(8) _ assms(2), where tail = ?tail]) simp_all
  with Append_ok [OF assms(4,7), of w fs] assms(1) show ?thesis by (simp add: file_content_def)
qed

theorem append_after_cut_off_record_is_lost_witness:
  "\<exists>fs'. LogWriter_Append std_string demo_writer healthy clear_event
      [''./db.radish'' \<mapsto> log_bytes std_string [] @ take 4 (frame std_string (create_event (-1) ''k'' ''v''))] = (Inr (), fs') \<and>
    LogReader_GetEvents std_string (m_filename demo_writer) healthy fs' = Inr []"
proof (rule append_after_cut_off_record_is_lost [where ?e0.0 = "create_event (-1) ''k'' ''v''" and n = 4])
  show "record_ok std_string (create_event (-1) ''k'' ''v'')" "record_ok std_string clear_event"
    by (simp_all add: record_ok_def event_ok_def event_bytes_def kMaxRecordSize_def BinarySize_max_def)
  show "4 + length (frame std_string clear_event) < length (frame std_string (create_event (-1) ''k'' ''v''))"
    by (simp add: frame_def event_bytes_def)
qed (simp_all add: demo_writer_def writable_def healthy_def readable_def)

end
