(* ===== verification/Compaction.thy ===== *)
theory Compaction
  imports Log_Writer
begin

text \<open>
  What replaying and compacting a log mean for the abstract view of the store, and when they
  agree. An event acts on a view by \<open>event_view\<close>; replaying a log of well-formed events
  never fails and folds that action. Compaction folds its strategies over a map of
  \<^verbatim>\<open>CREATE\<close> events; reading that map as a view relates the two.
\<close>

section \<open>Events acting on views\<close>

definition create_entry :: "bool \<Rightarrow> RadishEvent \<Rightarrow> char list \<times> Timestamp option" where
  "create_entry ttl e = (case m_payload e of Some p \<Rightarrow> p | None \<Rightarrow> [], if ttl then Some (m_timestamp e) else None)"

definition event_view :: "bool \<Rightarrow> Timestamp \<Rightarrow> RadishEvent \<Rightarrow> char list view \<Rightarrow> char list view" where
  "event_view ttl now e w =
     (case m_key e of
        None \<Rightarrow> Map.empty
      | Some a \<Rightarrow>
          if m_type e = CREATE then w(a \<mapsto> create_entry ttl e)
          else if m_type e = RENAME
          then (case w a of
                  Some x \<Rightarrow> if entry_live now x then view_move a (case m_renameKey e of Some b \<Rightarrow> b | None \<Rightarrow> []) w else w
                | None \<Rightarrow> w)
          else view_delete a w)"

fun replay_view :: "bool \<Rightarrow> (nat \<Rightarrow> Timestamp) \<Rightarrow> nat \<Rightarrow> RadishEvent list \<Rightarrow> char list view \<Rightarrow> char list view" where
  "replay_view ttl now i [] w = w"
| "replay_view ttl now i (e # es) w = replay_view ttl now (Suc i) es (event_view ttl (now i) e w)"

lemma HasTTL_create:
  "RadishStore_Create now k v t s = Inr (r, s') \<Longrightarrow> RadishStore_HasTimeToLive s' = RadishStore_HasTimeToLive s"
  by (auto simp: store_defs Let_def result_simps split: if_splits option.splits)

lemma HasTTL_ops [simp]:
  "RadishStore_HasTimeToLive (snd (RadishStore_Rename now a b s)) = RadishStore_HasTimeToLive s"
  "RadishStore_HasTimeToLive (snd (RadishStore_Delete k s)) = RadishStore_HasTimeToLive s"
  "RadishStore_HasTimeToLive (snd (RadishStore_Clear s)) = RadishStore_HasTimeToLive s"
  by (auto simp: store_defs Let_def result_simps split: if_splits option.splits)

lemma Create_total: "\<exists>r s'. RadishStore_Create now k v (Some t) s = Inr (r, s')"
  by (cases "RadishStore_HasTimeToLive s") (simp_all add: store_defs Let_def)

text \<open>Applying a well-formed event always succeeds and acts on the view as \<^const>\<open>event_view\<close>.\<close>

lemma ApplyEvent_view:
  assumes "event_ok ty e" and "store_ok s"
  shows "\<exists>b s'. LogWriter_ApplyEvent now s e = Inr (b, s') \<and> store_ok s' \<and>
    RadishStore_HasTimeToLive s' = RadishStore_HasTimeToLive s \<and>
    store_view s' = event_view (RadishStore_HasTimeToLive s) now e (store_view s)"
  using assms(1)
proof (cases rule: event_ok_cases)
  case (Create ts k p)
  obtain r s' where s': "RadishStore_Create now k p (Some ts) s = Inr (r, s')"
    using Create_total [of now k p ts s] by blast
  with Create assms(2) show ?thesis
    using view_of_create [OF s' assms(2)] store_ok_create [OF assms(2) s'] HasTTL_create [OF s']
    by (auto simp: LogWriter_ApplyEvent_def event_view_def create_entry_def view_create_def)
next
  case (Rename ts a b)
  let ?R = "RadishStore_Rename now a b s"
  have "store_view (snd ?R) = event_view (RadishStore_HasTimeToLive s) now e (store_view s)"
  proof (cases "RadishStore_Get now s a = None")
    case True
    then have "snd ?R = s" using view_of_rename(1) [OF assms(2)] by (metis snd_conv)
    with True Rename Get_view [OF assms(2)] show ?thesis
      by (auto simp: event_view_def view_get_def split: option.splits if_splits)
  next
    case False
    with Rename view_of_rename(2) [OF assms(2) False] Get_view [OF assms(2)] show ?thesis
      by (auto simp: event_view_def view_get_def split: option.splits if_splits)
  qed
  with Rename store_ok_rename [OF assms(2), of now a b] show ?thesis
    by (cases ?R) (use HasTTL_ops(1) [of now a b s] in \<open>auto simp: LogWriter_ApplyEvent_def dest: sym\<close>)
next
  case (Delete ts k)
  with store_ok_delete [OF assms(2), of k] view_of_delete(2) [of k s] HasTTL_ops(2) [of k s] show ?thesis
    by (cases "RadishStore_Delete k s") (auto simp: LogWriter_ApplyEvent_def event_view_def)
next
  case (Clear ts)
  with store_ok_clear [OF assms(2)] view_of_clear(2) [of s] HasTTL_ops(3) [of s] show ?thesis
    by (cases "RadishStore_Clear s") (auto simp: LogWriter_ApplyEvent_def event_view_def)
qed

lemma Replay_loop_view:
  assumes "list_all (event_ok ty) es" and "store_ok s"
  shows "\<exists>s'. LogWriter_Replay_loop now i es s = Inr s' \<and> store_ok s' \<and>
    RadishStore_HasTimeToLive s' = RadishStore_HasTimeToLive s \<and>
    store_view s' = replay_view (RadishStore_HasTimeToLive s) now i es (store_view s)"
  using assms
proof (induction es arbitrary: i s)
  case (Cons e es)
  then obtain b s1 where s1: "LogWriter_ApplyEvent (now i) s e = Inr (b, s1)" "store_ok s1"
    "RadishStore_HasTimeToLive s1 = RadishStore_HasTimeToLive s"
    "store_view s1 = event_view (RadishStore_HasTimeToLive s) (now i) e (store_view s)"
    using ApplyEvent_view [of ty e s "now i"] by auto
  with Cons.IH [of s1 "Suc i"] Cons.prems show ?case by simp
qed simp

lemma store_view_new [simp]: "store_view (RadishStore_new ttl) = Map.empty"
  by (simp add: store_view_def RadishStore_new_def umap_simps fun_eq_iff)

lemma HasTTL_new [simp]: "RadishStore_HasTimeToLive (RadishStore_new ttl) \<longleftrightarrow> ttl \<noteq> -1"
  by (simp add: RadishStore_HasTimeToLive_def RadishStore_new_def)

section \<open>The compaction map as a view\<close>

definition events_ok :: "TType \<Rightarrow> EventsMap \<Rightarrow> bool" where
  "events_ok ty M \<longleftrightarrow> umap_ok M \<and>
     (\<forall>k e. umap_find M k = Some e \<longrightarrow> event_ok ty e \<and> m_type e = CREATE \<and> m_key e = Some k)"

definition map_view :: "bool \<Rightarrow> EventsMap \<Rightarrow> char list view" where
  "map_view ttl M k = map_option (create_entry ttl) (umap_find M k)"

definition skipped :: "Timestamp \<Rightarrow> RadishEvent \<Rightarrow> bool" where
  "skipped now e \<longleftrightarrow> m_type e = CREATE \<and> m_timestamp e \<noteq> -1 \<and> sint (m_timestamp e) < sint now"

definition default_writer :: "LogWriter \<Rightarrow> bool" where
  "default_writer w \<longleftrightarrow> m_compactStrategies w = LogWriter_InitializeCompactStrategies"

declare LogWriter_Compact_loop.simps(2) [simp del]

text \<open>One step of compaction on an event that is not skipped.\<close>

definition compact_step :: "RadishEvent \<Rightarrow> EventsMap \<Rightarrow> EventsMap result" where
  "compact_step e M =
     (if m_type e = CREATE then CreateCompactStrategy_Execute M e
      else if m_type e = RENAME then RenameCompactStrategy_Execute M e
      else if m_type e = DELETE then DeleteCompactStrategy_Execute M e
      else ClearCompactStrategy_Execute M e)"

lemma Compact_loop_Cons:
  assumes "default_writer w" and "event_ok ty e"
  shows "LogWriter_Compact_loop w now i (e # es) M =
    (if skipped (now i) e then LogWriter_Compact_loop w now (Suc i) es M
     else rbind (compact_step e M) (LogWriter_Compact_loop w now (Suc i) es))"
  using assms(2)
proof (cases rule: event_ok_cases)
qed (use assms(1) in \<open>simp_all add: LogWriter_Compact_loop.simps(2) default_writer_def LogWriter_InitializeCompactStrategies_def
       umap_find_def skipped_def compact_step_def\<close>)

lemma SetKey_ok:
  "event_ok ty e \<Longrightarrow> m_type e = CREATE \<Longrightarrow> value_ok std_string b \<Longrightarrow> event_ok ty (RadishEvent_SetKey b e)"
  by (auto simp: event_ok_def RadishEvent_SetKey_def simp del: value_ok.simps split: option.splits)

lemma SetKey_sel [simp]:
  "m_type (RadishEvent_SetKey b e) = m_type e" "m_key (RadishEvent_SetKey b e) = Some b"
  "m_timestamp (RadishEvent_SetKey b e) = m_timestamp e" "m_payload (RadishEvent_SetKey b e) = m_payload e"
  "create_entry ttl (RadishEvent_SetKey b e) = create_entry ttl e"
  by (simp_all add: RadishEvent_SetKey_def create_entry_def)

text \<open>A compaction step succeeds, keeps the map well formed, and moves entries on renames.\<close>

lemma compact_step_view:
  assumes "event_ok ty e" and "events_ok ty M"
  shows "\<exists>M'. compact_step e M = Inr M' \<and> events_ok ty M' \<and>
    map_view ttl M' =
      (case m_key e of
         None \<Rightarrow> Map.empty
       | Some a \<Rightarrow>
           if m_type e = CREATE then (map_view ttl M)(a \<mapsto> create_entry ttl e)
           else if m_type e = RENAME
           then (if map_view ttl M a = None then map_view ttl M
                 else ((map_view ttl M)(a := None))((case m_renameKey e of Some b \<Rightarrow> b | None \<Rightarrow> []) := map_view ttl M a))
           else (map_view ttl M)(a := None))"
  using assms(1)
proof (cases rule: event_ok_cases)
  case (Create ts k p)
  with assms show ?thesis
    by (auto simp: compact_step_def CreateCompactStrategy_Execute_def events_ok_def map_view_def umap_simps
        um.invar_assign fun_eq_iff)
next
  case (Rename ts a b)
  show ?thesis
  proof (cases "umap_find M a")
    case None
    with Rename assms(2) show ?thesis
      by (simp add: compact_step_def RenameCompactStrategy_Execute_def map_view_def)
  next
    case (Some x)
    then have "event_ok ty x" "m_type x = CREATE" using assms(2) by (auto simp: events_ok_def)
    with Rename assms(2) Some SetKey_ok [of ty x b] show ?thesis
      by (auto simp: compact_step_def RenameCompactStrategy_Execute_def map_view_def events_ok_def umap_simps
          um.invar_assign um.invar_erase Let_def fun_eq_iff)
  qed
next
  case (Delete ts k)
  with assms show ?thesis
    by (auto simp: compact_step_def DeleteCompactStrategy_Execute_def events_ok_def map_view_def umap_simps
        um.invar_erase fun_eq_iff)
next
  case (Clear ts)
  then show ?thesis
    by (auto simp: compact_step_def ClearCompactStrategy_Execute_def events_ok_def map_view_def umap_simps fun_eq_iff)
qed

section \<open>Compaction and replay agree: logs without expiry\<close>

definition no_self_rename :: "RadishEvent \<Rightarrow> bool" where
  "no_self_rename e \<longleftrightarrow> (m_type e = RENAME \<longrightarrow> m_key e \<noteq> m_renameKey e)"

definition no_expiry :: "RadishEvent \<Rightarrow> bool" where
  "no_expiry e \<longleftrightarrow> (m_type e = CREATE \<longrightarrow> m_timestamp e = -1)"

definition entries_satisfy :: "(Timestamp \<Rightarrow> bool) \<Rightarrow> EventsMap \<Rightarrow> bool" where
  "entries_satisfy T M \<longleftrightarrow> (\<forall>k e. umap_find M k = Some e \<longrightarrow> T (m_timestamp e))"

lemma events_ok_Nil [simp]: "events_ok ty []"
  by (simp add: events_ok_def umap_simps)

lemma map_view_Nil [simp]: "map_view ttl [] = Map.empty"
  by (simp add: map_view_def umap_simps fun_eq_iff)

lemma entries_satisfy_Nil [simp]: "entries_satisfy T []"
  by (simp add: entries_satisfy_def umap_simps)

lemma compact_step_entries:
  assumes "compact_step e M = Inr M'" and "m_type e = CREATE \<longrightarrow> T (m_timestamp e)" and "entries_satisfy T M"
  shows "entries_satisfy T M'"
  using assms
  by (auto simp: compact_step_def CreateCompactStrategy_Execute_def RenameCompactStrategy_Execute_def
      DeleteCompactStrategy_Execute_def ClearCompactStrategy_Execute_def entries_satisfy_def umap_simps
      result_simps Let_def split: if_splits option.splits)

lemma map_view_no_ttl_live: "map_view False M k = Some x \<Longrightarrow> entry_live now x"
  by (auto simp: map_view_def create_entry_def)

text \<open>Without a time to live, a step of compaction and a step of replay are the same update.\<close>

lemma compact_step_no_ttl:
  assumes "event_ok ty e" and "events_ok ty M" and "no_self_rename e"
  shows "\<exists>M'. compact_step e M = Inr M' \<and> events_ok ty M' \<and>
    map_view False M' = event_view False now e (map_view False M)"
proof -
  from compact_step_view [OF assms(1,2), of False] obtain M' where
    M': "compact_step e M = Inr M'" "events_ok ty M'" and v: "map_view False M' =
      (case m_key e of
         None \<Rightarrow> Map.empty
       | Some a \<Rightarrow>
           if m_type e = CREATE then (map_view False M)(a \<mapsto> create_entry False e)
           else if m_type e = RENAME
           then (if map_view False M a = None then map_view False M
                 else ((map_view False M)(a := None))((case m_renameKey e of Some b \<Rightarrow> b | None \<Rightarrow> []) := map_view False M a))
           else (map_view False M)(a := None))"
    by blast
  have "map_view False M' = event_view False now e (map_view False M)"
    using assms(1)
  proof (cases rule: event_ok_cases)
    case (Rename ts a b)
    with assms(3) have "a \<noteq> b" by (simp add: no_self_rename_def)
    with Rename v show ?thesis
      by (auto simp: event_view_def view_move_def fun_upd_twist map_view_no_ttl_live split: option.splits)
  qed (use v in \<open>simp_all add: event_view_def view_delete_def\<close>)
  with M' show ?thesis by blast
qed

lemma Compact_loop_no_ttl:
  assumes "default_writer w" and "list_all (event_ok ty) es" and "list_all no_self_rename es"
    and "list_all no_expiry es" and "events_ok ty M" and "entries_satisfy (\<lambda>t. t = -1) M"
  shows "\<exists>M'. LogWriter_Compact_loop w now i es M = Inr M' \<and> events_ok ty M' \<and>
    entries_satisfy (\<lambda>t. t = -1) M' \<and> map_view False M' = replay_view False r j es (map_view False M)"
  using assms
proof (induction es arbitrary: i j M)
  case (Cons e es)
  obtain M1 where M1: "compact_step e M = Inr M1" "events_ok ty M1"
    "map_view False M1 = event_view False (r j) e (map_view False M)"
    using compact_step_no_ttl [of ty e M "r j"] Cons.prems by auto
  have "entries_satisfy (\<lambda>t. t = -1) M1"
    using compact_step_entries [OF M1(1)] Cons.prems by (simp add: no_expiry_def)
  moreover have "\<not> skipped (now i) e"
    using Cons.prems by (auto simp: skipped_def no_expiry_def)
  ultimately show ?case
    using Cons.IH [of M1 "Suc i" "Suc j"] Cons.prems M1 Compact_loop_Cons [of w ty e] by simp
qed simp

section \<open>Compaction and replay agree: logs with expiry\<close>

text \<open>
  At one instant \<open>t\<close>: the map holds exactly the live part of the view. This needs the
  expiries of the log to be non-decreasing, as they are when the clock and the configured time
  to live are constant or growing: otherwise a skipped \<^verbatim>\<open>CREATE\<close> can uncover an older value.
\<close>

definition live_part :: "Timestamp \<Rightarrow> EventsMap \<Rightarrow> char list view \<Rightarrow> bool" where
  "live_part t M w \<longleftrightarrow>
     (\<forall>k x. map_view True M k = Some x \<longrightarrow> w k = Some x \<and> entry_live t x) \<and>
     (\<forall>k x. map_view True M k = None \<longrightarrow> w k = Some x \<longrightarrow> \<not> entry_live t x)"

definition expiring :: "Timestamp \<Rightarrow> RadishEvent \<Rightarrow> bool" where
  "expiring t e \<longleftrightarrow> (m_type e = CREATE \<longrightarrow> m_timestamp e \<noteq> -1 \<and> m_timestamp e \<noteq> t)"

fun create_times :: "RadishEvent list \<Rightarrow> int list" where
  "create_times [] = []"
| "create_times (e # es) = (if m_type e = CREATE then sint (m_timestamp e) # create_times es else create_times es)"

lemma live_part_step:
  assumes "event_ok ty e" and "events_ok ty M" and "no_self_rename e" and "expiring t e"
    and "\<not> skipped t e" and "live_part t M w"
  shows "\<exists>M'. compact_step e M = Inr M' \<and> events_ok ty M' \<and> live_part t M' (event_view True t e w)"
proof -
  from compact_step_view [OF assms(1,2), of True] obtain M' where
    M': "compact_step e M = Inr M'" "events_ok ty M'" and v: "map_view True M' =
      (case m_key e of
         None \<Rightarrow> Map.empty
       | Some a \<Rightarrow>
           if m_type e = CREATE then (map_view True M)(a \<mapsto> create_entry True e)
           else if m_type e = RENAME
           then (if map_view True M a = None then map_view True M
                 else ((map_view True M)(a := None))((case m_renameKey e of Some b \<Rightarrow> b | None \<Rightarrow> []) := map_view True M a))
           else (map_view True M)(a := None))"
    by blast
  have "live_part t M' (event_view True t e w)"
    using assms(1)
  proof (cases rule: event_ok_cases)
    case (Create ts k p)
    with assms(4,5) have "sint t < sint ts"
      by (auto simp: skipped_def expiring_def intro: sint_linear)
    with Create v assms(6) show ?thesis
      by (simp add: live_part_def event_view_def create_entry_def)
  next
    case (Rename ts a b)
    with assms(3) have "a \<noteq> b" by (simp add: no_self_rename_def)
    show ?thesis
    proof (cases "map_view True M a")
      case None
      then have "event_view True t e w = w"
        using Rename assms(6) by (auto simp: live_part_def event_view_def split: option.splits)
      with None Rename v assms(6) show ?thesis by (simp add: live_part_def)
    next
      case (Some x)
      then have "w a = Some x" "entry_live t x"
        using assms(6) unfolding live_part_def by blast+
      with Some Rename v assms(6) \<open>a \<noteq> b\<close> show ?thesis
        by (cases x) (simp add: live_part_def event_view_def view_move_def)
    qed
  qed (use v assms(6) in \<open>simp_all add: live_part_def event_view_def view_delete_def\<close>)
  with M' show ?thesis by blast
qed

lemma live_part_skipped:
  assumes "event_ok ty e" and "skipped t e" and "live_part t [] w"
  shows "live_part t [] (event_view True t e w)"
  using assms(1)
proof (cases rule: event_ok_cases)
  case (Create ts k p)
  with assms(2,3) show ?thesis
    by (simp add: live_part_def event_view_def create_entry_def skipped_def)
qed (use assms(2) in \<open>simp_all add: skipped_def\<close>)

lemma create_times_bound:
  "sorted (x # create_times es) \<Longrightarrow> e \<in> set es \<Longrightarrow> m_type e = CREATE \<Longrightarrow> x \<le> sint (m_timestamp e)"
  by (induction es) (auto split: if_splits)

lemma Compact_loop_live_part:
  assumes "default_writer w0" and "list_all (event_ok ty) es" and "list_all no_self_rename es"
    and "list_all (expiring t) es" and "sorted (create_times es)"
    and "events_ok ty M" and "live_part t M w"
    and "M \<noteq> [] \<Longrightarrow> \<forall>e \<in> set es. \<not> skipped t e"
  shows "\<exists>M'. LogWriter_Compact_loop w0 (\<lambda>_. t) i es M = Inr M' \<and> events_ok ty M' \<and>
    live_part t M' (replay_view True (\<lambda>_. t) j es w)"
  using assms
proof (induction es arbitrary: i j M w)
  case Nil
  then show ?case by simp
next
  case (Cons e es)
  have srt: "sorted (create_times es)" using Cons.prems(5) by (auto split: if_splits)
  show ?case
  proof (cases "skipped t e")
    case True
    with Cons.prems(8) have "M = []" by auto
    moreover from this True have "live_part t [] (event_view True t e w)"
      using live_part_skipped [of ty e t w] Cons.prems(2,7) by simp
    ultimately show ?thesis
      using True Cons.IH [of "[]" "event_view True t e w" "Suc i" "Suc j"] Cons.prems srt
        Compact_loop_Cons [of w0 ty e] by simp
  next
    case False
    obtain M1 where M1: "compact_step e M = Inr M1" "events_ok ty M1" "live_part t M1 (event_view True t e w)"
      using live_part_step [of ty e M t w] False Cons.prems by auto
    have "\<forall>x \<in> set es. \<not> skipped t x" if "M1 \<noteq> []"
    proof (cases "m_type e = CREATE")
      case True
      with Cons.prems(5) have "sorted (sint (m_timestamp e) # create_times es)" by simp
      then have "\<forall>x \<in> set es. m_type x = CREATE \<longrightarrow> sint (m_timestamp e) \<le> sint (m_timestamp x)"
        using create_times_bound by blast
      moreover have "\<not> sint (m_timestamp e) < sint t"
        using True False Cons.prems(4) by (auto simp: skipped_def expiring_def)
      ultimately show ?thesis by (force simp: skipped_def)
    next
      case notcreate: False
      have "M \<noteq> []"
      proof
        assume "M = []"
        with M1(1) notcreate have "M1 = []"
          by (auto simp: compact_step_def RenameCompactStrategy_Execute_def DeleteCompactStrategy_Execute_def
              ClearCompactStrategy_Execute_def result_simps umap_simps split: if_splits)
        with that show False by simp
      qed
      with Cons.prems(8) show ?thesis by auto
    qed
    with False M1 Cons.IH [of M1 "event_view True t e w" "Suc i" "Suc j"] Cons.prems srt
    show ?thesis using Compact_loop_Cons [of w0 ty e] by simp
  qed
qed

section \<open>Replaying a compacted log\<close>

lemma replay_creates:
  assumes "\<forall>(k, e) \<in> set xs. m_type e = CREATE \<and> m_key e = Some k"
  shows "replay_view ttl now i (map snd xs) w = w ++ map_of (rev (map (\<lambda>(k, e). (k, create_entry ttl e)) xs))"
  using assms
proof (induction xs arbitrary: i w)
  case Nil
  then show ?case by simp
next
  case (Cons x xs)
  then show ?case
    by (cases x) (simp add: event_view_def map_add_def fun_eq_iff split: option.splits)
qed

lemma replay_map_entries:
  assumes "events_ok ty M" and "iteration_order ord"
  shows "replay_view ttl now i (map snd (ord M)) Map.empty = map_view ttl M"
proof -
  let ?f = "\<lambda>(k, e). (k, create_entry ttl e)"
  have entry: "m_type e = CREATE \<and> m_key e = Some k" if "(k, e) \<in> set (ord M)" for k e
    using that assms by (auto simp: events_ok_def umap_find_eq_Some)
  have d: "distinct (map fst (ord M))"
    using assms by (simp add: iteration_order_distinct_fst events_ok_def umap_ok_def)
  have fst: "map fst (map ?f xs) = map fst xs" for xs :: EventsMap
    by (induction xs) auto
  have "replay_view ttl now i (map snd (ord M)) Map.empty = map_of (rev (map ?f (ord M)))"
    using replay_creates [of "ord M" ttl now i Map.empty] entry by auto
  also have "\<dots> = map_of (map ?f (ord M))"
    by (rule um.map_of_rev_distinct) (simp only: fst d)
  also have "\<dots> = map_of (map ?f M)"
  proof (rule map_of_inject_set [THEN iffD2])
    show "distinct (map fst (map ?f (ord M)))" by (simp only: fst d)
    show "distinct (map fst (map ?f M))" using assms(1) by (simp only: fst) (simp add: events_ok_def umap_ok_def)
    show "set (map ?f (ord M)) = set (map ?f M)" using assms(2) by simp
  qed
  also have "\<dots> = map_view ttl M"
    by (rule ext) (simp add: map_view_def umap_find_def map_of_map)
  finally show ?thesis .
qed

lemma rewrite_kept_all:
  assumes "\<forall>x \<in> set xs. \<forall>j. m_timestamp (snd x) = -1 \<or> \<not> sint (m_timestamp (snd x)) < sint (now j)"
  shows "rewrite_kept now i xs = map snd xs"
  using assms by (induction xs arbitrary: i) auto

text \<open>A record that was written is one the reader accepts.\<close>

lemma WriteRecord_Inr:
  assumes "event_ok ty e" and "LogWriter_WriteRecord ty e s = (Inr (), s')"
  shows "record_ok ty e \<and> s' = ostream_write (frame ty e) s \<and> \<not> obad s'"
proof -
  have "record_ok ty e"
    using assms WriteRecord_oversized [of ty e s] by (auto simp: record_ok_def not_le [symmetric])
  with assms(2) show ?thesis by (auto simp: WriteRecord_ok Let_def split: if_splits)
qed

lemma ostream_write_good:
  "\<not> obad (ostream_write bs s) \<Longrightarrow> obuf (ostream_write bs s) = obuf s @ bs"
  by (auto simp: ostream_write_def split: if_splits option.splits)

lemma Rewrite_loop_Inr:
  assumes "\<forall>x \<in> set xs. event_ok ty (snd x)" and "LogWriter_Rewrite_loop ty now i xs s = (Inr (), s')"
  shows "list_all (record_ok ty) (rewrite_kept now i xs) \<and>
    obuf s' = obuf s @ concat (map (frame ty) (rewrite_kept now i xs))"
  using assms
proof (induction xs arbitrary: i s)
  case (Cons x xs)
  obtain k e where x: "x = (k, e)" by (cases x)
  show ?case
  proof (cases "m_timestamp e \<noteq> -1 \<and> sint (m_timestamp e) < sint (now i)")
    case True
    with Cons x show ?thesis by simp
  next
    case False
    with Cons.prems x obtain s1 where s1: "LogWriter_WriteRecord ty e s = (Inr (), s1)"
      and rest: "LogWriter_Rewrite_loop ty now (Suc i) xs s1 = (Inr (), s')"
      by (auto simp: sbind_eq_Inr)
    have "record_ok ty e" "obuf s1 = obuf s @ frame ty e"
      using WriteRecord_Inr [OF _ s1] Cons.prems(1) x ostream_write_good by auto
    with False x Cons.IH [OF _ rest] Cons.prems(1) show ?thesis by auto
  qed
qed simp

lemma RewriteHistory_Inr:
  assumes "\<forall>x \<in> set (ord M). event_ok ty (snd x)"
    and "LogWriter_RewriteHistory ty w dev ord now M fs = (Inr (), fs')"
  shows "list_all (record_ok ty) (rewrite_kept now 0 (ord M)) \<and>
    fs' (m_filename w) = Some (log_bytes ty (rewrite_kept now 0 (ord M)))"
proof -
  obtain s where
    s: "sbind (LogWriter_WriteHeader (ofstream (dev_room dev))) (\<lambda>_ s1. LogWriter_Rewrite_loop ty now 0 (ord M) s1) = (Inr (), s)"
    and fs': "fs' (m_filename w) = Some (obuf s)"
    using assms(2) by (auto simp: LogWriter_RewriteHistory_def Let_def split: if_splits prod.splits sum.splits)
  from s obtain s1 where "LogWriter_WriteHeader (ofstream (dev_room dev)) = (Inr (), s1)"
    and loop: "LogWriter_Rewrite_loop ty now 0 (ord M) s1 = (Inr (), s)"
    by (auto simp: sbind_eq_Inr)
  then have "obuf s1 = kHeader"
    using ostream_write_good [of kHeader "ofstream (dev_room dev)"]
    by (auto simp: LogWriter_WriteHeader_def Let_def header_literal ofstream_def kHeader_def split: if_splits)
  with Rewrite_loop_Inr [OF assms(1) loop] fs' show ?thesis by (simp add: log_bytes_def)
qed

section \<open>Compaction of a log file\<close>

lemma Compact_Inr:
  assumes "LogWriter_Compact ty w dev ord now1 now2 fs = (Inr (), fs')"
    and "LogReader_GetEvents ty (m_filename w) dev fs = Inr es"
    and "LogWriter_Compact_loop w now1 0 es [] = Inr M" and "events_ok ty M" and "iteration_order ord"
  shows "list_all (record_ok ty) (rewrite_kept now2 0 (ord M)) \<and>
    fs' (m_filename w) = Some (log_bytes ty (rewrite_kept now2 0 (ord M)))"
proof (rule RewriteHistory_Inr [where fs = fs and dev = dev and ord = ord and M = M])
  show "LogWriter_RewriteHistory ty w dev ord now2 M fs = (Inr (), fs')"
    using assms(1-3) by (simp add: LogWriter_Compact_def)
  show "\<forall>x \<in> set (ord M). event_ok ty (snd x)"
    using assms(4,5) by (auto simp: events_ok_def umap_find_eq_Some)
qed

lemma ord_entries:
  assumes "events_ok ty M" and "iteration_order ord" and "x \<in> set (ord M)"
  shows "umap_find M (fst x) = Some (snd x)" and "event_ok ty (snd x)" and "m_type (snd x) = CREATE"
proof -
  from assms(3) have "(fst x, snd x) \<in> set M" using assms(2) by simp
  then show "umap_find M (fst x) = Some (snd x)" using assms(1) by (simp add: events_ok_def umap_find_eq_Some)
  with assms(1) show "event_ok ty (snd x)" "m_type (snd x) = CREATE" by (auto simp: events_ok_def)
qed

lemma ord_keys_distinct:
  assumes "events_ok ty M" and "iteration_order ord"
  shows "distinct (map m_key (map snd (ord M)))"
proof -
  have "map m_key (map snd (ord M)) = map Some (map fst (ord M))"
    using ord_entries(1) [OF assms] assms(1) by (auto simp: events_ok_def)
  moreover have "distinct (map fst (ord M))"
    using assms by (simp add: iteration_order_distinct_fst events_ok_def umap_ok_def)
  ultimately show ?thesis by (simp only: distinct_map [of Some] inj_on_def) simp
qed

text \<open>A log without expiries, whatever the clock reads during compaction and replay.\<close>

lemma Compact_no_ttl:
  assumes "default_writer w" and "iteration_order ord"
    and "LogReader_GetEvents ty (m_filename w) dev fs = Inr es"
    and "list_all (event_ok ty) es" and "list_all no_self_rename es" and "list_all no_expiry es"
    and "LogWriter_Compact ty w dev ord now1 now2 fs = (Inr (), fs')"
  shows "\<exists>es'. fs' (m_filename w) = Some (log_bytes ty es') \<and> list_all (record_ok ty) es' \<and>
    list_all (\<lambda>e. m_type e = CREATE \<and> m_timestamp e = -1) es' \<and> distinct (map m_key es') \<and>
    (\<forall>r r' j j'. replay_view False r j es' Map.empty = replay_view False r' j' es Map.empty)"
proof -
  obtain M where M: "LogWriter_Compact_loop w now1 0 es [] = Inr M" "events_ok ty M" "entries_satisfy (\<lambda>t. t = -1) M"
    using Compact_loop_no_ttl [OF assms(1,4,5,6), of "[]" now1 0] by auto
  have view: "map_view False M = replay_view False r' j' es Map.empty" for r' j'
    using Compact_loop_no_ttl [OF assms(1,4,5,6), of "[]" now1 0 r' j'] M(1) by auto
  have ts: "m_timestamp (snd x) = -1" if "x \<in> set (ord M)" for x
    using ord_entries(1) [OF M(2) assms(2) that] M(3) by (auto simp: entries_satisfy_def)
  have kept: "rewrite_kept now2 0 (ord M) = map snd (ord M)"
    using ts by (intro rewrite_kept_all) auto
  have "list_all (\<lambda>e. m_type e = CREATE \<and> m_timestamp e = -1) (map snd (ord M))"
    using ts ord_entries(3) [OF M(2) assms(2)] by (auto simp: list_all_iff)
  with Compact_Inr [OF assms(7,3) M(1,2) assms(2)] kept view replay_map_entries [OF M(2) assms(2)]
    ord_keys_distinct [OF M(2) assms(2)]
  show ?thesis by (intro exI [of _ "map snd (ord M)"]) simp
qed

text \<open>The live part answers every later read as the whole view does.\<close>

lemma entry_live_antimono: "sint t \<le> sint now \<Longrightarrow> entry_live now x \<Longrightarrow> entry_live t x"
  by (cases "(now, x)" rule: entry_live.cases) auto

lemma live_part_get:
  assumes "live_part t M w" and "sint t \<le> sint now"
  shows "view_get now (map_view True M) k = view_get now w k"
proof (cases "map_view True M k")
  case None
  then have "\<not> entry_live now x" if "w k = Some x" for x
    using assms that entry_live_antimono unfolding live_part_def by blast
  with None show ?thesis by (auto simp: view_get_def split: option.splits)
next
  case (Some x)
  then have "w k = Some x" using assms(1) unfolding live_part_def by blast
  with Some show ?thesis by (simp add: view_get_def)
qed

text \<open>A log with expiries, compacted and replayed at one instant.\<close>

lemma Compact_ttl:
  assumes "default_writer w" and "iteration_order ord"
    and "LogReader_GetEvents ty (m_filename w) dev fs = Inr es"
    and "list_all (event_ok ty) es" and "list_all no_self_rename es"
    and "list_all (expiring t) es" and "sorted (create_times es)"
    and "LogWriter_Compact ty w dev ord (\<lambda>_. t) (\<lambda>_. t) fs = (Inr (), fs')"
  shows "\<exists>es'. fs' (m_filename w) = Some (log_bytes ty es') \<and> list_all (record_ok ty) es' \<and> distinct (map m_key es') \<and>
    (\<forall>k now. sint t \<le> sint now \<longrightarrow>
      view_get now (replay_view True (\<lambda>_. t) 0 es' Map.empty) k = view_get now (replay_view True (\<lambda>_. t) 0 es Map.empty) k)"
proof -
  have "live_part t [] Map.empty" by (simp add: live_part_def)
  then obtain M where M: "LogWriter_Compact_loop w (\<lambda>_. t) 0 es [] = Inr M" "events_ok ty M"
    "live_part t M (replay_view True (\<lambda>_. t) 0 es Map.empty)"
    using Compact_loop_live_part [OF assms(1,4,5,6,7), of "[]" Map.empty 0 0] by auto
  have live: "sint t < sint (m_timestamp (snd x))" if "x \<in> set (ord M)" for x
  proof -
    have "map_view True M (fst x) = Some (create_entry True (snd x))"
      using ord_entries(1) [OF M(2) assms(2) that] by (simp add: map_view_def)
    then have "entry_live t (create_entry True (snd x))"
      using M(3) unfolding live_part_def by blast
    then show ?thesis by (simp add: create_entry_def)
  qed
  have kept: "rewrite_kept (\<lambda>_. t) 0 (ord M) = map snd (ord M)"
    using live by (intro rewrite_kept_all) force
  have agree: "view_get now (map_view True M) k = view_get now (replay_view True (\<lambda>_. t) 0 es Map.empty) k"
    if "sint t \<le> sint now" for k now
    by (rule live_part_get [OF M(3) that])
  from Compact_Inr [OF assms(8,3) M(1,2) assms(2)] kept agree replay_map_entries [OF M(2) assms(2)]
    ord_keys_distinct [OF M(2) assms(2)]
  show ?thesis by (intro exI [of _ "map snd (ord M)"]) simp
qed


section \<open>Replaying a file\<close>

lemma record_ok_events: "list_all (record_ok ty) es \<Longrightarrow> list_all (event_ok ty) es"
  by (simp add: list_all_iff record_ok_def)

lemma Replay_file:
  assumes "LogReader_GetEvents ty (m_filename w) dev fs = Inr es" and "list_all (record_ok ty) es"
  obtains s where "LogWriter_Replay ty w dev clock fs (RadishStore_new ttl) = Inr s" and "store_ok s"
    and "store_view s = replay_view (ttl \<noteq> -1) clock 0 es Map.empty"
proof -
  from assms Replay_loop_view [OF record_ok_events [OF assms(2)] store_ok_new, of clock 0 ttl] that show thesis
    by (auto simp: LogWriter_Replay_def)
qed

lemma Compact_success:
  assumes "LogReader_GetEvents ty (m_filename w) healthy fs = Inr es"
    and "LogWriter_Compact_loop w now1 0 es [] = Inr M" and "iteration_order ord"
    and "\<forall>x \<in> set M. record_ok ty (snd x)"
  shows "LogWriter_Compact ty w healthy ord now1 now2 fs =
    (Inr (), fs(m_filename w \<mapsto> log_bytes ty (rewrite_kept now2 0 (ord M)), m_filename w @ ''.tmp'' := None))"
proof -
  have "LogWriter_RewriteHistory ty w healthy ord now2 M fs =
      (Inr (), fs(m_filename w \<mapsto> log_bytes ty (rewrite_kept now2 0 (ord M)), m_filename w @ ''.tmp'' := None))"
    by (rule RewriteHistory_ok) (use assms(3,4) in \<open>simp_all add: healthy_def\<close>)
  with assms(1,2) show ?thesis by (simp add: LogWriter_Compact_def)
qed

section \<open>Properties\<close>

text \<open>The log and writer of the witnesses.\<close>

definition demo_log :: "RadishEvent list \<Rightarrow> FileSystem" where
  "demo_log es = [''./db.radish'' \<mapsto> log_bytes std_string es]"

lemma demo_log_file [simp]: "demo_log es (m_filename demo_writer) = Some (log_bytes std_string es)"
  by (simp add: demo_log_def demo_writer_def)

lemma demo_default [simp]: "default_writer demo_writer"
  by (simp add: default_writer_def demo_writer_def)

lemma small_record_ok:
  "length k \<le> 1000 \<Longrightarrow> length v \<le> 1000 \<Longrightarrow> record_ok std_string (create_event t k v)"
  "length k \<le> 1000 \<Longrightarrow> length v \<le> 1000 \<Longrightarrow> record_ok std_string (rename_event k v)"
  by (simp_all add: record_ok_def event_ok_def event_bytes_def kMaxRecordSize_def BinarySize_max_def)

lemmas small_records = small_record_ok small_record_ok [unfolded One_nat_def]

lemma demo_read:
  "list_all (record_ok std_string) es \<Longrightarrow> LogReader_GetEvents std_string (m_filename demo_writer) healthy (demo_log es) = Inr es"
  by (rule GetEvents_clean) simp_all

lemmas compact_eval = LogWriter_Compact_loop.simps demo_writer_def LogWriter_InitializeCompactStrategies_def
  CreateCompactStrategy_Execute_def RenameCompactStrategy_Execute_def DeleteCompactStrategy_Execute_def
  umap_find_def umap_assign_def umap_erase_def RadishEvent_SetKey_def result_simps

text \<open>
  (C10) Compacting a log without expiries that holds no rename of a key onto itself: the new log
  has one creation per key, in any order of iteration and whatever the clock reads meanwhile,
  and replaying it gives a store that answers every read as the store replayed from the old
  log does.
\<close>

theorem compaction_preserves_contents:
  assumes "default_writer w" and "iteration_order ord" and "readable dev"
    and "fs (m_filename w) = Some (log_bytes ty es)" and "list_all (record_ok ty) es"
    and "list_all no_self_rename es" and "list_all no_expiry es"
    and "LogWriter_Compact ty w dev ord now1 now2 fs = (Inr (), fs')"
  shows "\<exists>es' s s'. LogReader_GetEvents ty (m_filename w) dev fs' = Inr es' \<and>
    list_all (\<lambda>e. m_type e = CREATE) es' \<and> distinct (map m_key es') \<and>
    LogWriter_Replay ty w dev clock fs (RadishStore_new (-1)) = Inr s \<and>
    LogWriter_Replay ty w dev clock' fs' (RadishStore_new (-1)) = Inr s' \<and>
    (\<forall>key t. RadishStore_Get t s' key = RadishStore_Get t s key)"
proof -
  have read: "LogReader_GetEvents ty (m_filename w) dev fs = Inr es"
    by (rule GetEvents_clean [where fs = fs and filename = "m_filename w", OF assms(3-5)])
  obtain es' where es': "fs' (m_filename w) = Some (log_bytes ty es')" "list_all (record_ok ty) es'"
    "list_all (\<lambda>e. m_type e = CREATE \<and> m_timestamp e = -1) es'" "distinct (map m_key es')"
    "replay_view False clock' 0 es' Map.empty = replay_view False clock 0 es Map.empty"
    using Compact_no_ttl [OF assms(1,2) read record_ok_events [OF assms(5)] assms(6-8)] by blast
  have read': "LogReader_GetEvents ty (m_filename w) dev fs' = Inr es'"
    by (rule GetEvents_clean [where fs = fs' and filename = "m_filename w", OF assms(3) es'(1,2)])
  obtain s where s: "LogWriter_Replay ty w dev clock fs (RadishStore_new (-1)) = Inr s" "store_ok s"
    "store_view s = replay_view False clock 0 es Map.empty"
    using Replay_file [OF read assms(5), of clock "-1"] by auto
  obtain s' where s': "LogWriter_Replay ty w dev clock' fs' (RadishStore_new (-1)) = Inr s'" "store_ok s'"
    "store_view s' = replay_view False clock' 0 es' Map.empty"
    using Replay_file [OF read' es'(2), of clock' "-1"] by auto
  note read'
  moreover have "RadishStore_Get t s' key = RadishStore_Get t s key" for t key
    using s s' es'(5) by (simp add: Get_view)
  moreover have "list_all (\<lambda>e. m_type e = CREATE) es'" using es'(3) by (simp add: list_all_iff)
  ultimately show ?thesis using s(1) s'(1) es'(4) by blast
qed

theorem compaction_preserves_contents_witness:
  "\<exists>fs' es' s s'. LogWriter_Compact std_string demo_writer healthy rev (\<lambda>_. 0) (\<lambda>_. 0)
       (demo_log [create_event (-1) ''a'' ''1'', rename_event ''a'' ''b'']) = (Inr (), fs') \<and>
     LogReader_GetEvents std_string (m_filename demo_writer) healthy fs' = Inr es' \<and>
     LogWriter_Replay std_string demo_writer healthy (\<lambda>_. 0) (demo_log [create_event (-1) ''a'' ''1'', rename_event ''a'' ''b''])
       (RadishStore_new (-1)) = Inr s \<and>
     LogWriter_Replay std_string demo_writer healthy (\<lambda>_. 0) fs' (RadishStore_new (-1)) = Inr s' \<and>
     (\<forall>key t. RadishStore_Get t s' key = RadishStore_Get t s key)"
proof -
  let ?es = "[create_event (-1) ''a'' ''1'', rename_event ''a'' ''b'']"
  have ok: "list_all (record_ok std_string) ?es" by (simp add: small_records)
  have "LogWriter_Compact_loop demo_writer (\<lambda>_. 0) 0 ?es [] = Inr [(''b'', create_event (-1) ''b'' ''1'')]"
    by (simp add: compact_eval)
  from Compact_success [OF demo_read [OF ok] this iteration_order_rev] obtain fs' where
    c: "LogWriter_Compact std_string demo_writer healthy rev (\<lambda>_. 0) (\<lambda>_. 0) (demo_log ?es) = (Inr (), fs')"
    by (simp add: small_records)
  have "\<exists>es' s s'. LogReader_GetEvents std_string (m_filename demo_writer) healthy fs' = Inr es' \<and>
    list_all (\<lambda>e. m_type e = CREATE) es' \<and> distinct (map m_key es') \<and>
    LogWriter_Replay std_string demo_writer healthy (\<lambda>_. 0) (demo_log ?es) (RadishStore_new (-1)) = Inr s \<and>
    LogWriter_Replay std_string demo_writer healthy (\<lambda>_. 0) fs' (RadishStore_new (-1)) = Inr s' \<and>
    (\<forall>key t. RadishStore_Get t s' key = RadishStore_Get t s key)"
    by (rule compaction_preserves_contents [OF demo_default iteration_order_rev readable_healthy demo_log_file ok _ _ c])
      (simp_all add: no_self_rename_def no_expiry_def)
  with c show ?thesis by blast
qed

text \<open>
  (C22) Compacting a log with expiries at an instant \<open>t\<close> at which no entry is just
  expiring, provided that no key was renamed onto itself and that expiries in the log do not
  decrease: the new log has at most one record per key, and the store replayed from it answers
  every read from \<open>t\<close> on as the store replayed from the old log.
\<close>

theorem compaction_preserves_live_keys:
  assumes "default_writer w" and "iteration_order ord" and "readable dev"
    and "fs (m_filename w) = Some (log_bytes ty es)" and "list_all (record_ok ty) es"
    and "list_all no_self_rename es" and "list_all (expiring t) es" and "sorted (create_times es)"
    and "ttl \<noteq> -1"
    and "LogWriter_Compact ty w dev ord (\<lambda>_. t) (\<lambda>_. t) fs = (Inr (), fs')"
  shows "\<exists>es' s s'. LogReader_GetEvents ty (m_filename w) dev fs' = Inr es' \<and> distinct (map m_key es') \<and>
    LogWriter_Replay ty w dev (\<lambda>_. t) fs (RadishStore_new ttl) = Inr s \<and>
    LogWriter_Replay ty w dev (\<lambda>_. t) fs' (RadishStore_new ttl) = Inr s' \<and>
    (\<forall>key later. sint t \<le> sint later \<longrightarrow> RadishStore_Get later s' key = RadishStore_Get later s key)"
proof -
  have read: "LogReader_GetEvents ty (m_filename w) dev fs = Inr es"
    by (rule GetEvents_clean [where fs = fs and filename = "m_filename w", OF assms(3-5)])
  obtain es' where es': "fs' (m_filename w) = Some (log_bytes ty es')" "list_all (record_ok ty) es'"
    "distinct (map m_key es')"
    "\<forall>k now. sint t \<le> sint now \<longrightarrow>
      view_get now (replay_view True (\<lambda>_. t) 0 es' Map.empty) k = view_get now (replay_view True (\<lambda>_. t) 0 es Map.empty) k"
    using Compact_ttl [OF assms(1,2) read record_ok_events [OF assms(5)] assms(6-8,10)] by blast
  have read': "LogReader_GetEvents ty (m_filename w) dev fs' = Inr es'"
    by (rule GetEvents_clean [where fs = fs' and filename = "m_filename w", OF assms(3) es'(1,2)])
  obtain s where s: "LogWriter_Replay ty w dev (\<lambda>_. t) fs (RadishStore_new ttl) = Inr s" "store_ok s"
    "store_view s = replay_view True (\<lambda>_. t) 0 es Map.empty"
    using Replay_file [OF read assms(5), of "\<lambda>_. t" ttl] assms(9) by auto
  obtain s' where s': "LogWriter_Replay ty w dev (\<lambda>_. t) fs' (RadishStore_new ttl) = Inr s'" "store_ok s'"
    "store_view s' = replay_view True (\<lambda>_. t) 0 es' Map.empty"
    using Replay_file [OF read' es'(2), of "\<lambda>_. t" ttl] assms(9) by auto
  note read'
  moreover have "RadishStore_Get later s' key = RadishStore_Get later s key" if "sint t \<le> sint later" for later key
    using s s' es'(4) that by (simp add: Get_view)
  ultimately show ?thesis using s(1) s'(1) es'(3) by blast
qed

theorem compaction_preserves_live_keys_witness:
  "\<exists>fs' es' s s'. LogWriter_Compact std_string demo_writer healthy rev (\<lambda>_. 100) (\<lambda>_. 100)
       (demo_log [create_event 90 ''a'' ''1'', create_event 150 ''b'' ''2'']) = (Inr (), fs') \<and>
     LogReader_GetEvents std_string (m_filename demo_writer) healthy fs' = Inr es' \<and>
     LogWriter_Replay std_string demo_writer healthy (\<lambda>_. 100) (demo_log [create_event 90 ''a'' ''1'', create_event 150 ''b'' ''2''])
       (RadishStore_new 50) = Inr s \<and>
     LogWriter_Replay std_string demo_writer healthy (\<lambda>_. 100) fs' (RadishStore_new 50) = Inr s' \<and>
     RadishStore_Get 120 s' ''b'' = RadishStore_Get 120 s ''b''"
proof -
  let ?es = "[create_event 90 ''a'' ''1'', create_event 150 ''b'' ''2'']"
  have ok: "list_all (record_ok std_string) ?es" by (simp add: small_records)
  have "LogWriter_Compact_loop demo_writer (\<lambda>_. 100) 0 ?es [] = Inr [(''b'', create_event 150 ''b'' ''2'')]"
    by (simp add: compact_eval)
  from Compact_success [OF demo_read [OF ok] this iteration_order_rev] obtain fs' where
    c: "LogWriter_Compact std_string demo_writer healthy rev (\<lambda>_. 100) (\<lambda>_. 100) (demo_log ?es) = (Inr (), fs')"
    by (simp add: small_records)
  have "\<exists>es' s s'. LogReader_GetEvents std_string (m_filename demo_writer) healthy fs' = Inr es' \<and> distinct (map m_key es') \<and>
    LogWriter_Replay std_string demo_writer healthy (\<lambda>_. 100) (demo_log ?es) (RadishStore_new 50) = Inr s \<and>
    LogWriter_Replay std_string demo_writer healthy (\<lambda>_. 100) fs' (RadishStore_new 50) = Inr s' \<and>
    (\<forall>key later. sint (100 :: Timestamp) \<le> sint later \<longrightarrow> RadishStore_Get later s' key = RadishStore_Get later s key)"
    by (rule compaction_preserves_live_keys [OF demo_default iteration_order_rev readable_healthy demo_log_file ok _ _ _ _ c])
      (simp_all add: no_self_rename_def expiring_def)
  then obtain es' s s' where "LogReader_GetEvents std_string (m_filename demo_writer) healthy fs' = Inr es'"
    "LogWriter_Replay std_string demo_writer healthy (\<lambda>_. 100) (demo_log ?es) (RadishStore_new 50) = Inr s"
    "LogWriter_Replay std_string demo_writer healthy (\<lambda>_. 100) fs' (RadishStore_new 50) = Inr s'"
    and get: "\<forall>key later. sint (100 :: Timestamp) \<le> sint later \<longrightarrow> RadishStore_Get later s' key = RadishStore_Get later s key"
    by blast
  moreover have "RadishStore_Get 120 s' ''b'' = RadishStore_Get 120 s ''b''" using get by simp
  ultimately show ?thesis using c by blast
qed

text \<open>
  A rename of a key onto itself is compacted differently from how it is replayed: the store
  drops the key, the compacted log brings it back.
\<close>

lemma compaction_revives_self_renamed_key:
  assumes "default_writer w" and "iteration_order ord" and "readable dev"
    and "record_ok ty (create_event (-1) key v)" and "record_ok ty (rename_event key key)"
    and "fs (m_filename w) = Some (log_bytes ty [create_event (-1) key v, rename_event key key])"
    and "LogWriter_Compact ty w dev ord now1 now2 fs = (Inr (), fs')"
  shows "\<exists>s s'. LogWriter_Replay ty w dev clock fs (RadishStore_new (-1)) = Inr s \<and>
    RadishStore_Get t s key = None \<and>
    LogWriter_Replay ty w dev clock fs' (RadishStore_new (-1)) = Inr s' \<and>
    RadishStore_Get t s' key = Some v"
proof -
  let ?es = "[create_event (-1) key v, rename_event key key]"
  let ?M = "[(key, RadishEvent_SetKey key (create_event (-1) key v))]"
  have read: "LogReader_GetEvents ty (m_filename w) dev fs = Inr ?es"
    by (rule GetEvents_clean [where fs = fs and filename = "m_filename w", OF assms(3,6)]) (use assms(4,5) in simp)
  have ok: "event_ok ty (create_event (-1) key v)" "event_ok ty (rename_event key key)"
    using assms(4,5) by (simp_all add: record_ok_def)
  have M: "LogWriter_Compact_loop w now1 0 ?es [] = Inr ?M"
    by (simp add: Compact_loop_Cons [OF assms(1) ok(1)] Compact_loop_Cons [OF assms(1) ok(2)] skipped_def compact_step_def
        CreateCompactStrategy_Execute_def RenameCompactStrategy_Execute_def umap_find_def umap_assign_def umap_erase_def
        result_simps)
  have e: "RadishEvent_SetKey key (create_event (-1) key v) = create_event (-1) key v"
    by (simp add: RadishEvent_SetKey_def)
  have "events_ok ty ?M"
    using ok(1) e by (simp add: events_ok_def umap_ok_def umap_find_def)
  moreover have "ord ?M = ?M"
    using assms(2) by (rule iteration_order_single)
  ultimately have fs': "fs' (m_filename w) = Some (log_bytes ty [create_event (-1) key v])"
    "list_all (record_ok ty) [create_event (-1) key v]"
    using Compact_Inr [OF assms(7) read M _ assms(2)] e by simp_all
  have read': "LogReader_GetEvents ty (m_filename w) dev fs' = Inr [create_event (-1) key v]"
    by (rule GetEvents_clean [where fs = fs' and filename = "m_filename w", OF assms(3) fs'])
  obtain s where s: "LogWriter_Replay ty w dev clock fs (RadishStore_new (-1)) = Inr s" "store_ok s"
    "store_view s = replay_view False clock 0 ?es Map.empty"
    using Replay_file [OF read, of clock "-1"] assms(4,5) by auto
  obtain s' where s': "LogWriter_Replay ty w dev clock fs' (RadishStore_new (-1)) = Inr s'" "store_ok s'"
    "store_view s' = replay_view False clock 0 [create_event (-1) key v] Map.empty"
    using Replay_file [OF read' fs'(2), of clock "-1"] by auto
  have "RadishStore_Get t s key = None"
    using s(2,3) by (simp add: Get_view view_get_def event_view_def view_move_def create_entry_def)
  moreover have "RadishStore_Get t s' key = Some v"
    using s'(2,3) by (simp add: Get_view view_get_def event_view_def create_entry_def)
  ultimately show ?thesis using s(1) s'(1) by blast
qed

lemma compaction_revives_self_renamed_key_witness:
  "\<exists>fs' s s'. LogWriter_Compact std_string demo_writer healthy rev (\<lambda>_. 0) (\<lambda>_. 0)
       (demo_log [create_event (-1) ''a'' ''1'', rename_event ''a'' ''a'']) = (Inr (), fs') \<and>
     LogWriter_Replay std_string demo_writer healthy (\<lambda>_. 0) (demo_log [create_event (-1) ''a'' ''1'', rename_event ''a'' ''a''])
       (RadishStore_new (-1)) = Inr s \<and> RadishStore_Get 5 s ''a'' = None \<and>
     LogWriter_Replay std_string demo_writer healthy (\<lambda>_. 0) fs' (RadishStore_new (-1)) = Inr s' \<and>
     RadishStore_Get 5 s' ''a'' = Some ''1''"
proof -
  let ?es = "[create_event (-1) ''a'' ''1'', rename_event ''a'' ''a'']"
  have ok: "list_all (record_ok std_string) ?es" by (simp add: small_records)
  have "LogWriter_Compact_loop demo_writer (\<lambda>_. 0) 0 ?es [] = Inr [(''a'', create_event (-1) ''a'' ''1'')]"
    by (simp add: compact_eval)
  from Compact_success [OF demo_read [OF ok] this iteration_order_rev] obtain fs' where
    c: "LogWriter_Compact std_string demo_writer healthy rev (\<lambda>_. 0) (\<lambda>_. 0) (demo_log ?es) = (Inr (), fs')"
    by (simp add: small_records)
  have "\<exists>s s'. LogWriter_Replay std_string demo_writer healthy (\<lambda>_. 0) (demo_log ?es) (RadishStore_new (-1)) = Inr s \<and>
      RadishStore_Get 5 s ''a'' = None \<and>
      LogWriter_Replay std_string demo_writer healthy (\<lambda>_. 0) fs' (RadishStore_new (-1)) = Inr s' \<and>
      RadishStore_Get 5 s' ''a'' = Some ''1''"
    by (rule compaction_revives_self_renamed_key [OF demo_default iteration_order_rev readable_healthy _ _ demo_log_file c])
      (simp_all add: small_records)
  with c show ?thesis by blast
qed


text \<open>
  (C40) Without the condition on the order of expiries compaction is not harmless: when a key was
  overwritten with an earlier expiry that has passed, compaction skips the overwriting record
  without dropping the overwritten one, and the old value is readable again.
\<close>

theorem compaction_uncovers_overwritten_value:
  assumes "default_writer w" and "iteration_order ord" and "readable dev"
    and "record_ok ty (create_event t1 key v1)" and "record_ok ty (create_event t2 key v2)"
    and "fs (m_filename w) = Some (log_bytes ty [create_event t1 key v1, create_event t2 key v2])"
    and "t2 \<noteq> -1" and "sint t2 < sint t" and "sint t < sint t1" and "ttl \<noteq> -1"
    and "LogWriter_Compact ty w dev ord (\<lambda>_. t) (\<lambda>_. t) fs = (Inr (), fs')"
  shows "\<exists>s s'. LogWriter_Replay ty w dev (\<lambda>_. t) fs (RadishStore_new ttl) = Inr s \<and>
    RadishStore_Get t s key = None \<and>
    LogWriter_Replay ty w dev (\<lambda>_. t) fs' (RadishStore_new ttl) = Inr s' \<and>
    RadishStore_Get t s' key = Some v1"
proof -
  let ?e1 = "create_event t1 key v1" and ?e2 = "create_event t2 key v2"
  have read: "LogReader_GetEvents ty (m_filename w) dev fs = Inr [?e1, ?e2]"
    by (rule GetEvents_clean [where fs = fs and filename = "m_filename w", OF assms(3,6)]) (use assms(4,5) in simp)
  have ok: "event_ok ty ?e1" "event_ok ty ?e2" using assms(4,5) by (simp_all add: record_ok_def)
  have M: "LogWriter_Compact_loop w (\<lambda>_. t) 0 [?e1, ?e2] [] = Inr [(key, ?e1)]"
    using assms(7-9)
    by (simp add: Compact_loop_Cons [OF assms(1) ok(1)] Compact_loop_Cons [OF assms(1) ok(2)] skipped_def compact_step_def
        CreateCompactStrategy_Execute_def umap_find_def umap_assign_def result_simps)
  have "events_ok ty [(key, ?e1)]" using ok(1) by (simp add: events_ok_def umap_ok_def umap_find_def)
  then have fs': "fs' (m_filename w) = Some (log_bytes ty [?e1])" "list_all (record_ok ty) [?e1]"
    using Compact_Inr [OF assms(11) read M _ assms(2)] iteration_order_single [OF assms(2)] assms(9) by simp_all
  have read': "LogReader_GetEvents ty (m_filename w) dev fs' = Inr [?e1]"
    by (rule GetEvents_clean [where fs = fs' and filename = "m_filename w", OF assms(3) fs'])
  obtain s where s: "LogWriter_Replay ty w dev (\<lambda>_. t) fs (RadishStore_new ttl) = Inr s" "store_ok s"
    "store_view s = replay_view True (\<lambda>_. t) 0 [?e1, ?e2] Map.empty"
    using Replay_file [OF read, of "\<lambda>_. t" ttl] assms(4,5,10) by auto
  obtain s' where s': "LogWriter_Replay ty w dev (\<lambda>_. t) fs' (RadishStore_new ttl) = Inr s'" "store_ok s'"
    "store_view s' = replay_view True (\<lambda>_. t) 0 [?e1] Map.empty"
    using Replay_file [OF read' fs'(2), of "\<lambda>_. t" ttl] assms(10) by auto
  have "RadishStore_Get t s key = None"
    using s(2,3) assms(8) by (simp add: Get_view view_get_def event_view_def create_entry_def)
  moreover have "RadishStore_Get t s' key = Some v1"
    using s'(2,3) assms(9) by (simp add: Get_view view_get_def event_view_def create_entry_def)
  ultimately show ?thesis using s(1) s'(1) by blast
qed

theorem compaction_uncovers_overwritten_value_witness:
  "\<exists>fs' s s'. LogWriter_Compact std_string demo_writer healthy rev (\<lambda>_. 100) (\<lambda>_. 100)
       (demo_log [create_event 200 ''a'' ''old'', create_event 90 ''a'' ''new'']) = (Inr (), fs') \<and>
     LogWriter_Replay std_string demo_writer healthy (\<lambda>_. 100)
       (demo_log [create_event 200 ''a'' ''old'', create_event 90 ''a'' ''new'']) (RadishStore_new 10) = Inr s \<and>
     RadishStore_Get 100 s ''a'' = None \<and>
     LogWriter_Replay std_string demo_writer healthy (\<lambda>_. 100) fs' (RadishStore_new 10) = Inr s' \<and>
     RadishStore_Get 100 s' ''a'' = Some ''old''"
proof -
  let ?es = "[create_event 200 ''a'' ''old'', create_event 90 ''a'' ''new'']"
  have ok: "list_all (record_ok std_string) ?es" by (simp add: small_records)
  have "LogWriter_Compact_loop demo_writer (\<lambda>_. 100) 0 ?es [] = Inr [(''a'', create_event 200 ''a'' ''old'')]"
    by (simp add: compact_eval)
  from Compact_success [OF demo_read [OF ok] this iteration_order_rev] obtain fs' where
    c: "LogWriter_Compact std_string demo_writer healthy rev (\<lambda>_. 100) (\<lambda>_. 100) (demo_log ?es) = (Inr (), fs')"
    by (simp add: small_records)
  have "\<exists>s s'. LogWriter_Replay std_string demo_writer healthy (\<lambda>_. 100) (demo_log ?es) (RadishStore_new 10) = Inr s \<and>
      RadishStore_Get 100 s ''a'' = None \<and>
      LogWriter_Replay std_string demo_writer healthy (\<lambda>_. 100) fs' (RadishStore_new 10) = Inr s' \<and>
      RadishStore_Get 100 s' ''a'' = Some ''old''"
    by (rule compaction_uncovers_overwritten_value [OF demo_default iteration_order_rev readable_healthy _ _ demo_log_file _ _ _ _ c])
      (simp_all add: small_records)
  with c show ?thesis by blast
qed

end
