(* ===== verification/Radish_DB.thy ===== *)
theory Radish_DB
  imports Log_Writer
begin

text \<open>
  \<^verbatim>\<open>include/RadishDB.h\<close>: the public facade over the store and the log. A mutation builds an
  event, applies it to a staged copy of the store, appends it to the log, and only then swaps
  the staged store in. The exclusive lock makes a mutation one atomic step, so the model of a
  mutation is a function from the database and the file system to a result and the pair it
  leaves behind; the shared lock of the readers excludes mutations, and readers are functions
  of the store.
\<close>

datatype PersistenceMode = Flush | Disabled

record RadishDB =
  m_store :: "char list RadishStore"
  m_persistence :: "PersistenceLog option"

definition RadishDB_InitializePersistence ::
    "TType \<Rightarrow> string \<Rightarrow> PersistenceMode \<Rightarrow> Device \<Rightarrow> (nat \<Rightarrow> Timestamp) \<Rightarrow> RadishDB \<Rightarrow> FileSystem \<Rightarrow>
     RadishDB result \<times> FileSystem" where
  "RadishDB_InitializePersistence ty filename mode dev now db fs =
     (if mode = Disabled then (Inr db, fs)
      else
        sbind (PersistenceLog_new (filename @ ''.radish'') ''./'' dev fs) (\<lambda>log fs1.
        sbind (PersistenceLog_Replay ty log dev now fs1 (m_store db), fs1) (\<lambda>store fs2.
          (Inr (db\<lparr>m_store := store, m_persistence := Some log\<rparr>), fs2))))"

definition RadishDB_new_ttl ::
    "TType \<Rightarrow> string \<Rightarrow> Timestamp \<Rightarrow> PersistenceMode \<Rightarrow> Device \<Rightarrow> (nat \<Rightarrow> Timestamp) \<Rightarrow> FileSystem \<Rightarrow>
     RadishDB result \<times> FileSystem" where
  "RadishDB_new_ttl ty filename ttl mode dev now fs =
     RadishDB_InitializePersistence ty filename mode dev now
       \<lparr>m_store = RadishStore_new ttl, m_persistence = None\<rparr> fs"

definition RadishDB_new ::
    "TType \<Rightarrow> string \<Rightarrow> PersistenceMode \<Rightarrow> Device \<Rightarrow> (nat \<Rightarrow> Timestamp) \<Rightarrow> FileSystem \<Rightarrow>
     RadishDB result \<times> FileSystem" where
  "RadishDB_new ty filename mode dev now fs =
     RadishDB_InitializePersistence ty filename mode dev now
       \<lparr>m_store = RadishStore_new (-1), m_persistence = None\<rparr> fs"

definition RadishDB_ApplyEvent ::
    "Timestamp \<Rightarrow> char list RadishStore \<Rightarrow> RadishEvent \<Rightarrow> (bool \<times> char list RadishStore) result" where
  "RadishDB_ApplyEvent now store event =
     (if GetEventType event = CREATE then
        rbind (deref (GetKey event)) (\<lambda>key.
        rbind (deref (GetPayload event)) (\<lambda>payload.
        rbind (RadishStore_Create now key payload (Some (GetTimestamp event)) store) (\<lambda>(_, store1).
          Inr (True, store1))))
      else if GetEventType event = RENAME then
        rbind (deref (GetKey event)) (\<lambda>key.
        rbind (deref (GetRenameKey event)) (\<lambda>renameKey.
          Inr (RadishStore_Rename now key renameKey store)))
      else if GetEventType event = DELETE then
        rbind (deref (GetKey event)) (\<lambda>key. Inr (RadishStore_Delete key store))
      else if GetEventType event = CLEAR then Inr (RadishStore_Clear store)
      else Inl (RuntimeError ''Unknown persistence event type''))"

definition RadishDB_Commit ::
    "TType \<Rightarrow> Timestamp \<Rightarrow> Device \<Rightarrow> RadishEvent \<Rightarrow> RadishDB \<times> FileSystem \<Rightarrow> bool result \<times> (RadishDB \<times> FileSystem)" where
  "RadishDB_Commit ty now dev event st =
     (case st of (db, fs) \<Rightarrow>
      (case (case m_persistence db of
               Some log \<Rightarrow> PersistenceLog_Apply now log (m_store db) event
             | None \<Rightarrow> RadishDB_ApplyEvent now (m_store db) event) of
         Inl e \<Rightarrow> (Inl e, (db, fs))
       | Inr (applied, stagedStore) \<Rightarrow>
           if \<not> applied then (Inr False, (db, fs))
           else
             (case (case m_persistence db of
                      Some log \<Rightarrow> PersistenceLog_Append ty log dev event fs
                    | None \<Rightarrow> (Inr (), fs)) of
                (Inl e, fs1) \<Rightarrow> (Inl e, (db, fs1))
              | (Inr _, fs1) \<Rightarrow>
                  (Inr True, (db\<lparr>m_store := fst (RadishStore_Swap (m_store db) stagedStore)\<rparr>, fs1)))))"

definition RadishDB_Create ::
    "TType \<Rightarrow> Timestamp \<Rightarrow> Device \<Rightarrow> string \<Rightarrow> char list \<Rightarrow> RadishDB \<times> FileSystem \<Rightarrow> unit result \<times> (RadishDB \<times> FileSystem)" where
  "RadishDB_Create ty now dev key value st =
     sbind (RadishStore_NewExpiryTimestamp now (m_store (fst st)), st) (\<lambda>expiry st.
     sbind (RadishDB_Commit ty now dev
              (RadishEvent_new CREATE expiry (Some key) None (Some value)) st)
       (\<lambda>_ st. (Inr (), st)))"

definition RadishDB_Rename ::
    "TType \<Rightarrow> Timestamp \<Rightarrow> Device \<Rightarrow> string \<Rightarrow> string \<Rightarrow> RadishDB \<times> FileSystem \<Rightarrow> bool result \<times> (RadishDB \<times> FileSystem)" where
  "RadishDB_Rename ty now dev oldKey newKey st =
     RadishDB_Commit ty now dev
       (RadishEvent_new RENAME (-1) (Some oldKey) (Some newKey) None) st"

definition RadishDB_Delete ::
    "TType \<Rightarrow> Timestamp \<Rightarrow> Device \<Rightarrow> string \<Rightarrow> RadishDB \<times> FileSystem \<Rightarrow> bool result \<times> (RadishDB \<times> FileSystem)" where
  "RadishDB_Delete ty now dev key st =
     RadishDB_Commit ty now dev
       (RadishEvent_new DELETE (-1) (Some key) None None) st"

definition RadishDB_Clear ::
    "TType \<Rightarrow> Timestamp \<Rightarrow> Device \<Rightarrow> RadishDB \<times> FileSystem \<Rightarrow> bool result \<times> (RadishDB \<times> FileSystem)" where
  "RadishDB_Clear ty now dev st =
     RadishDB_Commit ty now dev
       (RadishEvent_new CLEAR (-1) None None None) st"

definition RadishDB_Compact ::
    "TType \<Rightarrow> Device \<Rightarrow> ((string \<times> RadishEvent) list \<Rightarrow> (string \<times> RadishEvent) list) \<Rightarrow>
     (nat \<Rightarrow> Timestamp) \<Rightarrow> (nat \<Rightarrow> Timestamp) \<Rightarrow> RadishDB \<times> FileSystem \<Rightarrow> unit result \<times> (RadishDB \<times> FileSystem)" where
  "RadishDB_Compact ty dev ord now1 now2 st =
     (case st of (db, fs) \<Rightarrow>
      (case m_persistence db of
         Some log \<Rightarrow> (case PersistenceLog_Compact ty log dev ord now1 now2 fs of (r, fs1) \<Rightarrow> (r, (db, fs1)))
       | None \<Rightarrow> (Inr (), (db, fs))))"

definition RadishDB_Get :: "Timestamp \<Rightarrow> RadishDB \<Rightarrow> string \<Rightarrow> char list option" where
  "RadishDB_Get now db key = RadishStore_Get now (m_store db) key"

definition RadishDB_Scan ::
    "((string \<times> char list) list \<Rightarrow> (string \<times> char list) list) \<Rightarrow> (nat \<Rightarrow> Timestamp) \<Rightarrow> RadishDB \<Rightarrow> string list" where
  "RadishDB_Scan ord now db = RadishStore_Scan ord now (m_store db)"

definition RadishDB_Size ::
    "((string \<times> char list) list \<Rightarrow> (string \<times> char list) list) \<Rightarrow> (nat \<Rightarrow> Timestamp) \<Rightarrow> RadishDB \<Rightarrow> nat" where
  "RadishDB_Size ord now db = RadishStore_Size ord now (m_store db)"

definition RadishDB_Exists :: "Timestamp \<Rightarrow> RadishDB \<Rightarrow> string \<Rightarrow> bool" where
  "RadishDB_Exists now db key = RadishStore_Exists now (m_store db) key"

definition RadishDB_IsExpired :: "Timestamp \<Rightarrow> RadishDB \<Rightarrow> string \<Rightarrow> bool" where
  "RadishDB_IsExpired now db key = RadishStore_IsExpired now (m_store db) key"

end
