(* ===== verification/Durability.thy ===== *)
theory Durability
  imports Compaction Radish_DB
begin

text \<open>
  The database against its specification. Without a time to live the specification is a map
  from keys to values: the acknowledged mutations update it, and restarts and compactions leave
  it alone. The step relation \<open>db_reach\<close> runs the database beside that map, and rule
  induction shows that reads return what the map holds.

  With a time to live, a restart reproduces the store exactly as long as replaying the log does
  not depend on the clock; otherwise it may differ, and the properties say how.
\<close>

section \<open>Opening a database\<close>

definition log_name :: "string \<Rightarrow> string" where
  "log_name filename = path_append ''./'' (filename @ ''.radish'')"

definition opened :: "string \<Rightarrow> RadishDB \<Rightarrow> bool" where
  "opened filename db \<longleftrightarrow> m_persistence db =
     Some \<lparr>m_writer = \<lparr>m_filename = log_name filename, m_compactStrategies = LogWriter_InitializeCompactStrategies\<rparr>\<rparr>"

lemma EnsureInitialized_existing:
  assumes "readable dev" and "fs f = Some (kHeader @ rest)"
  shows "LogWriter_EnsureInitialized f dev fs = (Inr (), fs)"
  using assms
  by (simp add: LogWriter_EnsureInitialized_def readable_def ifstream_None kHeader_def)

lemma EnsureInitialized_fresh:
  assumes "writable dev 8" and "fs f = None"
  shows "LogWriter_EnsureInitialized f dev fs = (Inr (), fs(f \<mapsto> kHeader))"
  using assms
  by (cases "dev_room dev")
    (simp_all add: LogWriter_EnsureInitialized_def LogWriter_WriteHeader_def writable_def Let_def
      ostream_write_limited kHeader_def)

lemma RadishDB_new_is_ttl: "RadishDB_new ty filename mode dev now fs = RadishDB_new_ttl ty filename (-1) mode dev now fs"
  by (simp add: RadishDB_new_def RadishDB_new_ttl_def)

lemma open_existing:
  assumes "readable dev" and "fs (log_name filename) = Some (log_bytes ty es @ tail)" and "torn_tail tail"
    and "list_all (record_ok ty) es"
  shows "\<exists>db. RadishDB_new_ttl ty filename ttl Flush dev now fs = (Inr db, fs) \<and> opened filename db \<and>
    LogWriter_Replay_loop now 0 es (RadishStore_new ttl) = Inr (m_store db)"
proof -
  have "list_all (event_ok ty) es" using assms(4) by (simp add: list_all_iff record_ok_def)
  from Replay_loop_view [OF this store_ok_new, of now 0 ttl] obtain s where
    s: "LogWriter_Replay_loop now 0 es (RadishStore_new ttl) = Inr s" by blast
  have "LogWriter_EnsureInitialized (log_name filename) dev fs = (Inr (), fs)"
    using assms(1,2) by (intro EnsureInitialized_existing [where rest = "concat (map (frame ty) es) @ tail"])
      (simp_all add: log_bytes_def)
  then show ?thesis
    using s GetEvents_log [where fs = fs and filename = "log_name filename", OF assms(1,2,4,3)]
    by (simp add: RadishDB_new_ttl_def RadishDB_InitializePersistence_def PersistenceLog_new_def LogWriter_new_def
        PersistenceLog_Replay_def LogWriter_Replay_def log_name_def opened_def Let_def)
qed

lemma open_fresh:
  assumes "readable dev" and "writable dev 8" and "fs (log_name filename) = None"
  shows "\<exists>db. RadishDB_new_ttl ty filename ttl Flush dev now fs = (Inr db, fs(log_name filename \<mapsto> log_bytes ty [])) \<and>
    opened filename db \<and> m_store db = RadishStore_new ttl"
proof -
  have "LogReader_GetEvents ty (log_name filename) dev (fs(log_name filename \<mapsto> kHeader)) = Inr []"
    using GetEvents_log [OF assms(1), of _ "log_name filename" ty "[]" "[]"] by (simp add: log_bytes_def)
  then show ?thesis
    using EnsureInitialized_fresh [where fs = fs and f = "log_name filename", OF assms(2,3)]
    by (simp add: RadishDB_new_ttl_def RadishDB_InitializePersistence_def PersistenceLog_new_def LogWriter_new_def
        PersistenceLog_Replay_def LogWriter_Replay_def log_name_def opened_def Let_def log_bytes_def)
qed

text \<open>Whatever the device does, an open that succeeds on an existing log has replayed it.\<close>

lemma open_success:
  assumes "RadishDB_new_ttl ty filename ttl Flush dev now fs = (Inr db, fs')"
    and "fs (log_name filename) = Some (log_bytes ty es @ tail)" and "torn_tail tail" and "list_all (record_ok ty) es"
  shows "fs' = fs" and "opened filename db" and "LogWriter_Replay_loop now 0 es (RadishStore_new ttl) = Inr (m_store db)"
proof -
  have "snd (LogWriter_EnsureInitialized (log_name filename) dev fs) = fs"
    using assms(2) by (simp add: LogWriter_EnsureInitialized_def Let_def split: prod.split)
  then obtain r where init: "LogWriter_EnsureInitialized (log_name filename) dev fs = (r, fs)"
    by (cases "LogWriter_EnsureInitialized (log_name filename) dev fs") simp
  with assms(1) have r: "r = Inr ()" by (cases r) (auto simp: RadishDB_new_ttl_def RadishDB_InitializePersistence_def
      PersistenceLog_new_def LogWriter_new_def log_name_def Let_def)
  with init assms(1)
  obtain es' where "fs' = fs" "opened filename db" "LogReader_GetEvents ty (log_name filename) dev fs = Inr es'"
    "LogWriter_Replay_loop now 0 es' (RadishStore_new ttl) = Inr (m_store db)"
    by (auto simp: RadishDB_new_ttl_def RadishDB_InitializePersistence_def PersistenceLog_new_def LogWriter_new_def
        PersistenceLog_Replay_def LogWriter_Replay_def log_name_def opened_def Let_def sbind_eq_Inr rbind_eq_Inr)
  moreover from this have "es' = es"
    by (intro GetEvents_any(1) [where fs = fs and filename = "log_name filename", OF _ assms(2,4,3)])
  ultimately show "fs' = fs" "opened filename db"
    "LogWriter_Replay_loop now 0 es (RadishStore_new ttl) = Inr (m_store db)" by auto
qed

section \<open>Committing an event\<close>

lemma Commit_opened:
  assumes "opened filename db" and "event_ok ty e" and "store_ok (m_store db)"
  shows "\<exists>b s'. LogWriter_ApplyEvent now (m_store db) e = Inr (b, s') \<and> store_ok s' \<and>
    RadishStore_HasTimeToLive s' = RadishStore_HasTimeToLive (m_store db) \<and>
    store_view s' = event_view (RadishStore_HasTimeToLive (m_store db)) now e (store_view (m_store db)) \<and>
    RadishDB_Commit ty now dev e (db, fs) =
      (if \<not> b then (Inr False, (db, fs))
       else case LogWriter_Append ty (m_writer (the (m_persistence db))) dev e fs of
              (Inl err, fs1) \<Rightarrow> (Inl err, (db, fs1))
            | (Inr _, fs1) \<Rightarrow> (Inr True, (db\<lparr>m_store := s'\<rparr>, fs1)))"
proof -
  obtain b s' where s': "LogWriter_ApplyEvent now (m_store db) e = Inr (b, s')" "store_ok s'"
    "RadishStore_HasTimeToLive s' = RadishStore_HasTimeToLive (m_store db)"
    "store_view s' = event_view (RadishStore_HasTimeToLive (m_store db)) now e (store_view (m_store db))"
    using ApplyEvent_view [OF assms(2,3), of now] by blast
  with assms(1) show ?thesis
    by (auto simp: RadishDB_Commit_def opened_def PersistenceLog_Apply_def PersistenceLog_Append_def
        split: prod.split sum.split)
qed

lemma replay_view_snoc:
  "replay_view ttl r i (es @ [e]) w = event_view ttl (r (i + length es)) e (replay_view ttl r i es w)"
  by (induction es arbitrary: i w) simp_all

text \<open>The view of a store without time to live.\<close>

definition plain_view :: "(string \<Rightarrow> char list option) \<Rightarrow> char list view" where
  "plain_view m k = map_option (\<lambda>v. (v, None)) (m k)"

lemma plain_view_inject: "plain_view m = plain_view m' \<Longrightarrow> m = m'"
proof (rule ext)
  fix k assume "plain_view m = plain_view m'"
  then have "plain_view m k = plain_view m' k" by simp
  then show "m k = m' k" by (cases "m k"; cases "m' k") (simp_all add: plain_view_def)
qed

lemma event_view_plain:
  "event_view False now (create_event t k v) (plain_view m) = plain_view (m(k \<mapsto> v))"
  "event_view False now (rename_event a b) (plain_view m) =
     plain_view (if m a = None then m else (m(b := m a))(a := None))"
  "event_view False now (delete_event k) (plain_view m) = plain_view (m(k := None))"
  "event_view False now clear_event (plain_view m) = plain_view Map.empty"
  by (auto simp: event_view_def plain_view_def create_entry_def view_move_def view_delete_def fun_eq_iff
      split: option.splits)

lemma Compact_reads:
  assumes "LogWriter_Compact ty w dev ord clock1 clock2 fs = (Inr u, fs')" and "fs (m_filename w) = Some (log_bytes ty es)"
    and "list_all (record_ok ty) es"
  shows "LogReader_GetEvents ty (m_filename w) dev fs = Inr es"
proof -
  from assms(1) obtain es' where "LogReader_GetEvents ty (m_filename w) dev fs = Inr es'"
    by (auto simp: LogWriter_Compact_def sbind_eq_Inr rbind_eq_Inr)
  moreover from this have "es' = es" by (rule GetEvents_any(1) [where tail = "[]"]) (use assms(2,3) in simp_all)
  ultimately show ?thesis by simp
qed

section \<open>The invariant without time to live\<close>

definition db_inv :: "TType \<Rightarrow> string \<Rightarrow> RadishDB \<times> FileSystem \<Rightarrow> (string \<Rightarrow> char list option) \<Rightarrow> bool" where
  "db_inv ty filename st m \<longleftrightarrow>
     opened filename (fst st) \<and> store_ok (m_store (fst st)) \<and>
     \<not> RadishStore_HasTimeToLive (m_store (fst st)) \<and> store_view (m_store (fst st)) = plain_view m \<and>
     (\<exists>es. snd st (log_name filename) = Some (log_bytes ty es) \<and> list_all (record_ok ty) es \<and>
        list_all no_self_rename es \<and> list_all no_expiry es \<and>
        (\<forall>r i. replay_view False r i es Map.empty = plain_view m))"

lemma db_inv_commit:
  assumes "db_inv ty filename st m" and "record_ok ty e" and "no_self_rename e" and "no_expiry e"
    and "\<And>now. event_view False now e (plain_view m) = plain_view m'"
    and "RadishDB_Commit ty now dev e st = (Inr b, st')"
  shows "db_inv ty filename st' m'"
proof -
  obtain db fs where st: "st = (db, fs)" by (cases st)
  from assms(1) st obtain es where es: "fs (log_name filename) = Some (log_bytes ty es)"
      "list_all (record_ok ty) es" "list_all no_self_rename es" "list_all no_expiry es"
      "\<And>r i. replay_view False r i es Map.empty = plain_view m"
    and db: "opened filename db" "store_ok (m_store db)" "\<not> RadishStore_HasTimeToLive (m_store db)"
      "store_view (m_store db) = plain_view m"
    by (auto simp: db_inv_def)
  have e: "event_ok ty e" using assms(2) by (simp add: record_ok_def)
  obtain c s' where s': "LogWriter_ApplyEvent now (m_store db) e = Inr (c, s')" "store_ok s'"
    "\<not> RadishStore_HasTimeToLive s'" "store_view s' = plain_view m'"
    and commit: "RadishDB_Commit ty now dev e (db, fs) =
      (if \<not> c then (Inr False, (db, fs))
       else case LogWriter_Append ty (m_writer (the (m_persistence db))) dev e fs of
              (Inl err, fs1) \<Rightarrow> (Inl err, (db, fs1))
            | (Inr _, fs1) \<Rightarrow> (Inr True, (db\<lparr>m_store := s'\<rparr>, fs1)))"
    using Commit_opened [OF db(1) e db(2), of now dev fs] db(3,4) assms(5) by auto
  show ?thesis
  proof (cases c)
    case False
    with s' jr.refused [OF db(2), of now e s'] have "s' = m_store db" by simp
    with s'(4) db(4) have "m' = m" by (intro plain_view_inject) simp
    with False commit assms(1,6) st show ?thesis by simp
  next
    case True
    let ?w = "m_writer (the (m_persistence db))"
    have w: "m_filename ?w = log_name filename" using db(1) by (simp add: opened_def)
    have "st' = (db\<lparr>m_store := s'\<rparr>, fs(log_name filename \<mapsto> log_bytes ty (es @ [e])))"
      using assms(2)
    proof (cases rule: Append_cases [of ty e ?w dev fs])
      case ok
      with True commit assms(6) st w es(1) show ?thesis
        by (simp add: file_content_def log_bytes_def)
    qed (use True commit assms(6) st in simp_all)
    moreover have "replay_view False r i (es @ [e]) Map.empty = plain_view m'" for r i
      by (simp add: replay_view_snoc es(5) assms(5))
    ultimately show ?thesis
      using s' es assms(2,3,4) db(1)
      by (auto simp: db_inv_def opened_def intro!: exI [of _ "es @ [e]"])
  qed
qed

section \<open>Runs of the database beside its specification\<close>

text \<open>
  One rule per public operation. The second index is the specification: the map after the
  acknowledged mutations. A run begins without a log, its keys and values fit into a record of the log, and
  no key is renamed onto itself (the store deletes such a key, and a compaction brings it back).
  The device may fail in any way that the operation reports. A mutation that throws leaves the
  specification as it is, and so does a compaction, whether it succeeds or not; a run goes on after a
  mutation that threw only when that left the log as it was, since later records
  would be lost behind an unfinished one.
\<close>

inductive db_reach :: "TType \<Rightarrow> string \<Rightarrow> RadishDB \<times> FileSystem \<Rightarrow> (string \<Rightarrow> char list option) \<Rightarrow> bool"
  for ty :: TType and filename :: string where
  start: "fs (log_name filename) = None \<Longrightarrow>
     RadishDB_new ty filename Flush dev now fs = (Inr db, fs') \<Longrightarrow> db_reach ty filename (db, fs') Map.empty"
| create: "db_reach ty filename st m \<Longrightarrow> record_ok ty (create_event (-1) key value) \<Longrightarrow>
     RadishDB_Create ty now1 dev1 key value st = (Inr (), st') \<Longrightarrow> db_reach ty filename st' (m(key \<mapsto> value))"
| rename: "db_reach ty filename st m \<Longrightarrow> record_ok ty (rename_event a b) \<Longrightarrow> a \<noteq> b \<Longrightarrow>
     RadishDB_Rename ty now1 dev1 a b st = (Inr r, st') \<Longrightarrow>
     db_reach ty filename st' (if m a = None then m else (m(b := m a))(a := None))"
| delete: "db_reach ty filename st m \<Longrightarrow> record_ok ty (delete_event key) \<Longrightarrow>
     RadishDB_Delete ty now1 dev1 key st = (Inr r, st') \<Longrightarrow> db_reach ty filename st' (m(key := None))"
| clear: "db_reach ty filename st m \<Longrightarrow>
     RadishDB_Clear ty now1 dev1 st = (Inr r, st') \<Longrightarrow> db_reach ty filename st' Map.empty"
| compact: "db_reach ty filename st m \<Longrightarrow> iteration_order ord \<Longrightarrow>
     RadishDB_Compact ty dev1 ord clock1 clock2 st = (r', st') \<Longrightarrow> db_reach ty filename st' m"
| failed: "db_reach ty filename st m \<Longrightarrow> RadishDB_Commit ty now1 dev1 e st = (Inl err, st') \<Longrightarrow>
     snd st' (log_name filename) = snd st (log_name filename) \<Longrightarrow> db_reach ty filename st' m"
| restart: "db_reach ty filename st m \<Longrightarrow>
     RadishDB_new ty filename Flush dev1 clock1 (snd st) = (Inr db, fs') \<Longrightarrow> db_reach ty filename (db, fs') m"

lemma record_ok_clear: "record_ok ty clear_event"
  by (simp add: record_ok_def event_ok_def event_bytes_def kMaxRecordSize_def)

lemma open_new_file:
  assumes "fs (log_name filename) = None"
    and "RadishDB_new_ttl ty filename ttl Flush dev clock fs = (Inr db, fs')"
  shows "opened filename db \<and> m_store db = RadishStore_new ttl \<and> fs' = fs(log_name filename \<mapsto> log_bytes ty [])"
proof -
  have "writable dev 8"
  proof (rule ccontr)
    assume "\<not> writable dev 8"
    then have "\<exists>e g. LogWriter_EnsureInitialized (log_name filename) dev fs = (Inl e, g)"
      using assms(1)
      by (cases "dev_room dev") (auto simp: LogWriter_EnsureInitialized_def LogWriter_WriteHeader_def writable_def
          ostream_write_limited Let_def)
    with assms(2) show False
      by (auto simp: RadishDB_new_ttl_def RadishDB_InitializePersistence_def PersistenceLog_new_def LogWriter_new_def
          log_name_def Let_def)
  qed
  note fresh = EnsureInitialized_fresh [where fs = fs and f = "log_name filename", OF this assms(1)]
  have "LogReader_GetEvents ty (log_name filename) dev (fs(log_name filename \<mapsto> kHeader)) = Inr es \<Longrightarrow> es = []" for es
    using GetEvents_any(1) [of ty "log_name filename" dev "fs(log_name filename \<mapsto> kHeader)" es "[]" "[]"]
    by (simp add: log_bytes_def)
  with fresh assms(2) show ?thesis
    by (auto simp: RadishDB_new_ttl_def RadishDB_InitializePersistence_def PersistenceLog_new_def LogWriter_new_def
        PersistenceLog_Replay_def LogWriter_Replay_def log_name_def opened_def Let_def log_bytes_def sbind_eq_Inr rbind_eq_Inr)
qed

lemma db_inv_start:
  assumes "fs (log_name filename) = None"
    and "RadishDB_new ty filename Flush dev now fs = (Inr db, fs')"
  shows "db_inv ty filename (db, fs') Map.empty"
  using open_new_file [where fs = fs and filename = filename, OF assms(1) assms(2) [unfolded RadishDB_new_is_ttl]]
  by (auto simp: db_inv_def plain_view_def fun_eq_iff intro!: exI [of _ "[]"])

lemma db_inv_restart:
  assumes "db_inv ty filename st m"
    and "RadishDB_new ty filename Flush dev now (snd st) = (Inr db, fs')"
  shows "db_inv ty filename (db, fs') m"
proof -
  from assms(1) obtain es where es: "snd st (log_name filename) = Some (log_bytes ty es @ [])"
      "list_all (record_ok ty) es" "list_all no_self_rename es" "list_all no_expiry es"
      "\<And>r i. replay_view False r i es Map.empty = plain_view m"
    by (auto simp: db_inv_def)
  note db = open_success(2,1) [OF assms(2) [unfolded RadishDB_new_is_ttl] es(1) torn_tail_Nil es(2)]
    and replay = open_success(3) [OF assms(2) [unfolded RadishDB_new_is_ttl] es(1) torn_tail_Nil es(2)]
  have "list_all (event_ok ty) es" using es(2) by (simp add: list_all_iff record_ok_def)
  from Replay_loop_view [OF this store_ok_new, of now 0 "-1"] replay es(5)
  have "store_ok (m_store db)" "\<not> RadishStore_HasTimeToLive (m_store db)" "store_view (m_store db) = plain_view m"
    by auto
  with db es show ?thesis by (auto simp: db_inv_def)
qed

lemma db_inv_compact:
  assumes "db_inv ty filename st m" and "iteration_order ord"
    and "RadishDB_Compact ty dev ord clock1 clock2 st = (r, st')"
  shows "db_inv ty filename st' m"
proof -
  obtain db fs where st: "st = (db, fs)" by (cases st)
  from assms(1) st obtain es where es: "fs (log_name filename) = Some (log_bytes ty es)"
      "list_all (record_ok ty) es" "list_all no_self_rename es" "list_all no_expiry es"
      "\<And>r i. replay_view False r i es Map.empty = plain_view m"
    and db: "opened filename db"
    by (auto simp: db_inv_def)
  define w where "w = \<lparr>m_filename = log_name filename, m_compactStrategies = LogWriter_InitializeCompactStrategies\<rparr>"
  obtain fs' where c: "LogWriter_Compact ty w dev ord clock1 clock2 fs = (r, fs')" and st': "st' = (db, fs')"
    using assms(3) db st by (auto simp: RadishDB_Compact_def opened_def PersistenceLog_Compact_def w_def split: prod.splits)
  show ?thesis
  proof (cases r)
    case (Inl e)
    with Compact_error_keeps_log [of ty w dev ord clock1 clock2 fs e fs'] c
    have "fs' (log_name filename) = fs (log_name filename)" by (simp add: w_def)
    with assms(1) st st' show ?thesis by (auto simp: db_inv_def)
  next
    case (Inr u)
    have ge: "LogReader_GetEvents ty (m_filename w) dev fs = Inr es"
      by (rule Compact_reads [where fs = fs and w = w, OF c [unfolded Inr] _ es(2)]) (use es(1) in \<open>simp add: w_def\<close>)
    have "list_all (event_ok ty) es" using es(2) by (simp add: list_all_iff record_ok_def)
    from Compact_no_ttl [OF _ assms(2) ge this es(3,4), of clock1 clock2 fs'] c Inr obtain es' where
      es': "fs' (log_name filename) = Some (log_bytes ty es')" "list_all (record_ok ty) es'"
        "list_all (\<lambda>e. m_type e = CREATE \<and> m_timestamp e = -1) es'"
        "\<And>r i. replay_view False r i es' Map.empty = plain_view m"
      using es(5) by (auto simp: w_def default_writer_def)
    have "list_all no_self_rename es'" "list_all no_expiry es'"
      using es'(3) by (auto simp: list_all_iff no_self_rename_def no_expiry_def)
    with es' assms(1) st st' show ?thesis by (auto simp: db_inv_def)
  qed
qed

lemma Commit_Inl: "RadishDB_Commit ty now dev e st = (Inl err, st') \<Longrightarrow> fst st' = fst st"
  by (auto simp: RadishDB_Commit_def split: prod.splits sum.splits if_splits)

lemma db_inv_failed:
  assumes "db_inv ty filename st m" and "RadishDB_Commit ty now dev e st = (Inl err, st')"
    and "snd st' (log_name filename) = snd st (log_name filename)"
  shows "db_inv ty filename st' m"
  using assms(1,3) Commit_Inl [OF assms(2)] by (simp add: db_inv_def)

lemma event_classes [simp]:
  "no_self_rename (create_event t k v)" "no_self_rename (delete_event k)" "no_self_rename clear_event"
  "no_self_rename (rename_event a b) \<longleftrightarrow> a \<noteq> b"
  "no_expiry (create_event (-1) k v)" "no_expiry (delete_event k)" "no_expiry clear_event" "no_expiry (rename_event a b)"
  by (simp_all add: no_self_rename_def no_expiry_def)

lemma db_inv_create:
  assumes "db_inv ty filename st m" and "record_ok ty (create_event (-1) key value)"
    and "RadishDB_Create ty now dev key value st = (Inr (), st')"
  shows "db_inv ty filename st' (m(key \<mapsto> value))"
proof -
  have "\<not> RadishStore_HasTimeToLive (m_store (fst st))" using assms(1) by (simp add: db_inv_def)
  with assms(3) obtain b where "RadishDB_Commit ty now dev (create_event (-1) key value) st = (Inr b, st')"
    by (auto simp: RadishDB_Create_def RadishStore_NewExpiryTimestamp_def sbind_eq_Inr)
  then show ?thesis
    by (rule db_inv_commit [OF assms(1,2) event_classes(1,5) event_view_plain(1)])
qed

lemma db_inv_rename:
  assumes "db_inv ty filename st m" and "record_ok ty (rename_event a b)" and "a \<noteq> b"
    and "RadishDB_Rename ty now dev a b st = (Inr r, st')"
  shows "db_inv ty filename st' (if m a = None then m else (m(b := m a))(a := None))"
  by (rule db_inv_commit [OF assms(1,2) _ event_classes(8) event_view_plain(2)])
    (use assms(3,4) in \<open>simp_all add: RadishDB_Rename_def\<close>)

lemma db_inv_delete:
  assumes "db_inv ty filename st m" and "record_ok ty (delete_event key)"
    and "RadishDB_Delete ty now dev key st = (Inr r, st')"
  shows "db_inv ty filename st' (m(key := None))"
  by (rule db_inv_commit [OF assms(1,2) event_classes(2,6) event_view_plain(3)])
    (use assms(3) in \<open>simp add: RadishDB_Delete_def\<close>)

lemma db_inv_clear:
  assumes "db_inv ty filename st m" and "RadishDB_Clear ty now dev st = (Inr r, st')"
  shows "db_inv ty filename st' Map.empty"
  by (rule db_inv_commit [OF assms(1) record_ok_clear event_classes(3,7) event_view_plain(4)])
    (use assms(2) in \<open>simp add: RadishDB_Clear_def\<close>)

lemma db_reach_inv: "db_reach ty filename st m \<Longrightarrow> db_inv ty filename st m"
  by (induction rule: db_reach.induct)
    (erule (1) db_inv_start, erule (2) db_inv_create, erule (3) db_inv_rename, erule (2) db_inv_delete,
     erule (1) db_inv_clear, erule (2) db_inv_compact, erule (2) db_inv_failed,
     erule (1) db_inv_restart)

lemma db_reach_reads:
  assumes "db_reach ty filename (db, fs) m"
  shows "RadishDB_Get now db key = m key" and "RadishDB_Exists now db key \<longleftrightarrow> m key \<noteq> None"
proof -
  from db_reach_inv [OF assms] have s: "store_ok (m_store db)" "store_view (m_store db) = plain_view m"
    by (auto simp: db_inv_def)
  then show get: "RadishDB_Get now db key = m key"
    by (cases "m key") (simp_all add: RadishDB_Get_def Get_view view_get_def plain_view_def)
  then show "RadishDB_Exists now db key \<longleftrightarrow> m key \<noteq> None"
    by (simp add: RadishDB_Exists_def RadishDB_Get_def Exists_Get)
qed

lemma IsExpired_no_ttl: "\<not> RadishStore_HasTimeToLive s \<Longrightarrow> \<not> RadishStore_IsExpired now s key"
  by (simp add: RadishStore_IsExpired_def)

lemma Scan_loop_no_ttl:
  "\<not> RadishStore_HasTimeToLive s \<Longrightarrow> RadishStore_Scan_loop now i s es = map fst es"
  by (induction es arbitrary: i) (auto simp: IsExpired_no_ttl)

lemma db_inv_scan:
  assumes "db_inv ty filename (db, fs) m" and "iteration_order ord"
  shows "set (RadishDB_Scan ord clock db) = dom m" and "distinct (RadishDB_Scan ord clock db)"
    and "RadishDB_Size ord clock db = card (dom m)"
proof -
  from assms(1) have s: "store_ok (m_store db)" "store_view (m_store db) = plain_view m"
    and nt: "\<not> RadishStore_HasTimeToLive (m_store db)"
    by (auto simp: db_inv_def)
  have scan: "RadishDB_Scan ord clock db = map fst (ord (m_data (m_store db)))"
    by (simp add: RadishDB_Scan_def RadishStore_Scan_def Scan_loop_no_ttl nt)
  have "umap_find (m_data (m_store db)) k = None \<longleftrightarrow> m k = None" for k
    using fun_cong [OF s(2), of k] by (cases "m k") (auto simp: store_view_def plain_view_def)
  then have "k \<in> dom m \<longleftrightarrow> k \<in> fst ` set (m_data (m_store db))" for k
    using umap_find_eq_None [of "m_data (m_store db)" k] by (auto simp: domIff)
  then have "dom m = fst ` set (m_data (m_store db))" by blast
  then show set: "set (RadishDB_Scan ord clock db) = dom m"
    using assms(2) scan by simp
  show d: "distinct (RadishDB_Scan ord clock db)"
    using s(1) scan iteration_order_distinct_fst [OF assms(2)] by (simp add: store_ok_def umap_ok_def)
  have "RadishDB_Size ord clock db = length (RadishDB_Scan ord clock db)"
    by (simp add: RadishDB_Size_def RadishDB_Scan_def RadishStore_Size_def RadishStore_Scan_def Size_loop_length)
  then show "RadishDB_Size ord clock db = card (dom m)"
    using set d distinct_card by metis
qed


lemmas db_reach_scan = db_inv_scan [OF db_reach_inv]

section \<open>Progress and failures\<close>

lemma ApplyEvent_create: "\<exists>s'. LogWriter_ApplyEvent now s (create_event t k v) = Inr (True, s')"
  using Create_total [of now k v t s] by (auto simp: LogWriter_ApplyEvent_def)

lemma Create_healthy:
  assumes "db_inv ty filename st m" and "record_ok ty (create_event (-1) key value)"
    and "writable dev (length (frame ty (create_event (-1) key value)))"
  obtains st' where "RadishDB_Create ty now dev key value st = (Inr (), st')"
proof -
  obtain db fs where st: "st = (db, fs)" by (cases st)
  have db: "opened filename db" "store_ok (m_store db)" "\<not> RadishStore_HasTimeToLive (m_store db)"
    using assms(1) st by (simp_all add: db_inv_def)
  have e: "event_ok ty (create_event (-1) key value)" using assms(2) by (simp add: record_ok_def)
  from Commit_opened [OF db(1) e db(2), of now dev fs] ApplyEvent_create [of now "m_store db" "-1" key "value"]
    Append_ok [OF assms(2,3), of "m_writer (the (m_persistence db))" fs]
  obtain st' where "RadishDB_Commit ty now dev (create_event (-1) key value) (db, fs) = (Inr True, st')"
    by auto
  with st db(3) that show thesis
    by (simp add: RadishDB_Create_def RadishStore_NewExpiryTimestamp_def)
qed

lemma reopen_db_inv:
  assumes "db_inv ty filename (db, fs) m" and "readable dev" and "torn_tail tail"
    and "fs' (log_name filename) = Some (file_content fs (log_name filename) @ tail)"
  shows "\<exists>db'. RadishDB_new ty filename Flush dev clock fs' = (Inr db', fs') \<and> RadishDB_Get t db' k = m k"
proof -
  from assms(1) obtain es where es: "fs (log_name filename) = Some (log_bytes ty es)"
    "list_all (record_ok ty) es" "\<And>r i. replay_view False r i es Map.empty = plain_view m"
    by (auto simp: db_inv_def)
  from open_existing [OF assms(2) _ assms(3) es(2), of fs' filename "-1" clock] assms(4) es(1)
  obtain db' where db': "RadishDB_new_ttl ty filename (-1) Flush dev clock fs' = (Inr db', fs')"
    "LogWriter_Replay_loop clock 0 es (RadishStore_new (-1)) = Inr (m_store db')"
    by (auto simp: file_content_def)
  from Replay_loop_view [OF record_ok_events [OF es(2)] store_ok_new, of clock 0 "-1"] db'(2) es(3)
  have "store_ok (m_store db')" "store_view (m_store db') = plain_view m" by auto
  then have "RadishDB_Get t db' k = m k"
    by (cases "m k") (simp_all add: RadishDB_Get_def Get_view view_get_def plain_view_def)
  with db'(1) show ?thesis by (simp add: RadishDB_new_is_ttl)
qed

lemma failed_commit:
  assumes "db_inv ty filename (db, fs) m" and "event_ok ty e"
    and "RadishDB_Commit ty now dev e (db, fs) = (Inl err, (db', fs'))"
  shows "db' = db \<and> (\<exists>tail. fs' (log_name filename) = Some (file_content fs (log_name filename) @ tail) \<and> torn_tail tail)"
proof -
  from assms(1) obtain es where es: "fs (log_name filename) = Some (log_bytes ty es)"
    and db: "opened filename db" "store_ok (m_store db)"
    by (auto simp: db_inv_def)
  let ?w = "m_writer (the (m_persistence db))"
  have w: "m_filename ?w = log_name filename" using db(1) by (simp add: opened_def)
  from Commit_opened [OF db(1) assms(2) db(2), of now dev fs] assms(3)
  have "db' = db" and a: "LogWriter_Append ty ?w dev e fs = (Inl err, fs')"
    by (auto split: if_splits prod.splits sum.splits)
  from Append_Inl [OF _ assms(2) a, of es] es w \<open>db' = db\<close> show ?thesis by (auto simp: file_content_def)
qed

section \<open>Properties\<close>

text \<open>
  (C2) A database without a time to live is opened where there is no log, and runs through mutations
  whose keys and values fit into a record and whose renames are onto a different key, mutations that throw and leave the
  log as it was, compactions that succeed or not, and restarts. In every state it reaches, whatever the clock reads, the
  readers answer exactly as the map of acknowledged mutations: reads, existence, the scan (each key
  once, in any order) and the size.
\<close>

theorem database_refines_map:
  assumes "db_reach ty filename (db, fs) m" and "iteration_order ord"
  shows "RadishDB_Get now db key = m key \<and> (RadishDB_Exists now db key \<longleftrightarrow> m key \<noteq> None) \<and>
    set (RadishDB_Scan ord clock db) = dom m \<and> distinct (RadishDB_Scan ord clock db) \<and>
    RadishDB_Size ord clock db = card (dom m)"
  using db_reach_reads [OF assms(1)] db_reach_scan [OF assms] by blast

lemma demo_reach:
  obtains db fs where "db_reach std_string ''db'' (db, fs) [''k'' \<mapsto> ''v'']"
proof -
  obtain db0 where n: "RadishDB_new std_string ''db'' Flush healthy (\<lambda>_. 0) Map.empty =
      (Inr db0, [log_name ''db'' \<mapsto> log_bytes std_string []])"
    using open_fresh [OF readable_healthy, of Map.empty "''db''" std_string "-1" "\<lambda>_. 0"]
    by (auto simp: writable_def healthy_def RadishDB_new_is_ttl)
  have r: "db_reach std_string ''db'' (db0, [log_name ''db'' \<mapsto> log_bytes std_string []]) Map.empty"
    by (rule db_reach.start [OF _ n]) simp
  have ok: "record_ok std_string (create_event (-1) ''k'' ''v'')" by (rule small_record_ok) simp_all
  obtain st' where "RadishDB_Create std_string 7 healthy ''k'' ''v'' (db0, [log_name ''db'' \<mapsto> log_bytes std_string []]) = (Inr (), st')"
    by (rule Create_healthy [OF db_reach_inv [OF r] ok, of healthy 7]) (simp_all add: writable_def healthy_def)
  from db_reach.create [OF r ok this] that show thesis by (cases st') simp
qed

theorem database_refines_map_witness:
  "\<exists>db fs. db_reach std_string ''db'' (db, fs) [''k'' \<mapsto> ''v''] \<and> RadishDB_Get 12345 db ''k'' = Some ''v'' \<and>
     RadishDB_Size rev (\<lambda>_. 0) db = 1"
proof -
  obtain db fs where r: "db_reach std_string ''db'' (db, fs) [''k'' \<mapsto> ''v'']" by (rule demo_reach)
  from database_refines_map [OF r iteration_order_rev, of 12345 "''k''" "\<lambda>_. 0"] r show ?thesis by auto
qed

lemma clear_on_full_device:
  assumes "db_reach std_string ''db'' (db, fs) [''k'' \<mapsto> ''v'']"
  obtains err fs' where "RadishDB_Commit std_string now full_device clear_event (db, fs) = (Inl err, (db, fs'))"
proof -
  have db: "opened ''db'' db" "store_ok (m_store db)" "store_view (m_store db) = plain_view [''k'' \<mapsto> ''v'']"
    using db_reach_inv [OF assms] by (simp_all add: db_inv_def)
  have ok: "event_ok std_string clear_event" "record_ok std_string clear_event"
    using record_ok_clear [of std_string] by (simp_all add: record_ok_def)
  have "fst (RadishStore_Clear (m_store db))"
    using db(3) by (simp add: view_of_clear) (rule exI [of _ "''k''"], simp add: plain_view_def)
  then have "\<exists>s'. LogWriter_ApplyEvent now (m_store db) clear_event = Inr (True, s')"
    by (cases "RadishStore_Clear (m_store db)") (simp add: LogWriter_ApplyEvent_def)
  with Commit_opened [OF db(1) ok(1) db(2), of now full_device fs]
    Append_full [OF ok(2), of full_device 9 "m_writer (the (m_persistence db))" fs] that
  show thesis by (auto simp: full_device_def healthy_def frame_def event_bytes_def)
qed

text \<open>
  (C14) In a state of such a run (no time to live, no rename onto the same key, and a log without an
  unfinished record of an earlier failure) a mutation that throws leaves no trace: the store in
  memory is unchanged, and opening the log again, whatever part of the record reached the disk, gives a
  database that answers as before the mutation.
\<close>

theorem failed_mutation_leaves_no_trace:
  assumes "db_reach ty filename (db, fs) m" and "event_ok ty e"
    and "RadishDB_Commit ty now dev e (db, fs) = (Inl err, (db', fs'))" and "readable dev'"
  shows "db' = db \<and>
    (\<exists>db2. RadishDB_new ty filename Flush dev' clock fs' = (Inr db2, fs') \<and> RadishDB_Get t db2 key = m key)"
  using failed_commit [OF db_reach_inv [OF assms(1)] assms(2,3)]
    reopen_db_inv [OF db_reach_inv [OF assms(1)] assms(4), where fs' = fs'] by blast

theorem failed_mutation_leaves_no_trace_witness:
  "\<exists>db fs err fs' db2. db_reach std_string ''db'' (db, fs) [''k'' \<mapsto> ''v''] \<and>
     RadishDB_Commit std_string 7 full_device clear_event (db, fs) = (Inl err, (db, fs')) \<and>
     RadishDB_new std_string ''db'' Flush healthy (\<lambda>_. 0) fs' = (Inr db2, fs') \<and> RadishDB_Get 9 db2 ''k'' = Some ''v''"
proof -
  obtain db fs where r: "db_reach std_string ''db'' (db, fs) [''k'' \<mapsto> ''v'']" by (rule demo_reach)
  obtain err fs' where c: "RadishDB_Commit std_string 7 full_device clear_event (db, fs) = (Inl err, (db, fs'))"
    using clear_on_full_device [OF r] .
  have "event_ok std_string clear_event" using record_ok_clear [of std_string] by (simp add: record_ok_def)
  from failed_mutation_leaves_no_trace [OF r this c readable_healthy, of "\<lambda>_. 0" 9 "''k''"] obtain db2 where
    "RadishDB_new std_string ''db'' Flush healthy (\<lambda>_. 0) fs' = (Inr db2, fs')" "RadishDB_Get 9 db2 ''k'' = Some ''v''"
    by auto
  with r c show ?thesis by blast
qed

end
