(* ===== verification/Tcp_Session.thy ===== *)
theory Tcp_Session
  imports Resp_Codec Durability
begin

text \<open>
  \<^verbatim>\<open>src/network/TcpServer.cpp\<close>: a session reads bytes, parses requests, dispatches them to the
  database and queues replies. The socket library is outside the repository; what the code
  relies on is one outstanding read and one outstanding write, whose completion handlers are
  operations of the model (\<open>Session_ReadDone\<close>, \<open>Session_WriteDone\<close>). What was
  handed to the socket and completed is kept in \<open>sk_sent\<close>.

  A database call may read the clock, meet any behaviour of the disk and iterate in any order;
  an \<open>Env\<close> says what it meets, one entry per call.
\<close>

type_synonym Database = "RadishDB \<times> FileSystem"

record Env =
  env_now :: "nat \<Rightarrow> Timestamp"
  env_dev :: "nat \<Rightarrow> Device"
  env_ord :: "(string \<times> char list) list \<Rightarrow> (string \<times> char list) list"

record Session =
  m_input :: string
  m_output :: "string list"
  m_version :: RespVersion
  m_closeAfterWrite :: bool
  sk_open :: bool
  sk_reading :: bool
  sk_writing :: bool
  sk_sent :: string

type_synonym CommandResult = "string \<times> bool"
type_synonym CommandHandler =
  "Env \<Rightarrow> string list \<Rightarrow> string \<Rightarrow> Session \<times> Database \<Rightarrow> CommandResult result \<times> (Session \<times> Database)"

definition Session_new :: Session where
  "Session_new = \<lparr>m_input = '''', m_output = [], m_version = Resp2, m_closeAfterWrite = False,
     sk_open = True, sk_reading = False, sk_writing = False, sk_sent = ''''\<rparr>"

section \<open>Commands\<close>

definition toupper :: "char \<Rightarrow> char" where
  "toupper c = (let n = (of_char c :: nat) in if 97 \<le> n \<and> n \<le> 122 then char_of (n - 32) else c)"

definition Uppercase :: "string \<Rightarrow> string" where
  "Uppercase s = map toupper s"

definition WrongArity :: "string \<Rightarrow> CommandResult" where
  "WrongArity name = (RespCodec_Error (''wrong number of arguments for '' @ [CHR 0x27] @ name @ [CHR 0x27] @ '' command''), False)"

definition HandleHello :: CommandHandler where
  "HandleHello env args name st =
     (case st of (s, db) \<Rightarrow>
      if length args = 1 \<or> length args > 2 then (Inr (WrongArity name), st)
      else if args ! 1 = ''2'' then (Inr (RespCodec_Hello Resp2, False), (s\<lparr>m_version := Resp2\<rparr>, db))
      else if args ! 1 = ''3'' then (Inr (RespCodec_Hello Resp3, False), (s\<lparr>m_version := Resp3\<rparr>, db))
      else (Inr (RespCodec_Error ''NOPROTO unsupported protocol version'', False), st))"

definition HandlePing :: CommandHandler where
  "HandlePing env args name st =
     (if length args = 1 then (Inr (RespCodec_SimpleString ''PONG'', False), st)
      else if length args = 2 then (Inr (RespCodec_BulkString (Some (args ! 1)) (m_version (fst st)), False), st)
      else (Inr (WrongArity name), st))"

definition HandleGet :: CommandHandler where
  "HandleGet env args name st =
     (case st of (s, (db, fs)) \<Rightarrow>
      if length args \<noteq> 2 then (Inr (WrongArity name), st)
      else (Inr (RespCodec_BulkString (RadishDB_Get (env_now env 0) db (args ! 1)) (m_version s), False), st))"

definition HandleSet :: CommandHandler where
  "HandleSet env args name st =
     (case st of (s, db) \<Rightarrow>
      if length args \<noteq> 3 then (Inr (WrongArity name), st)
      else
        (case RadishDB_Create std_string (env_now env 0) (env_dev env 0) (args ! 1) (args ! 2) db of
           (Inl e, db1) \<Rightarrow> (Inl e, (s, db1))
         | (Inr _, db1) \<Rightarrow> (Inr (RespCodec_SimpleString ''OK'', False), (s, db1))))"

fun Delete_loop :: "Env \<Rightarrow> nat \<Rightarrow> string list \<Rightarrow> int \<Rightarrow> Database \<Rightarrow> int result \<times> Database" where
  "Delete_loop env i [] deleted db = (Inr deleted, db)"
| "Delete_loop env i (key # keys) deleted db =
     sbind (RadishDB_Delete std_string (env_now env i) (env_dev env i) key db) (\<lambda>b db1.
       Delete_loop env (Suc i) keys (deleted + (if b then 1 else 0)) db1)"

definition HandleDelete :: CommandHandler where
  "HandleDelete env args name st =
     (case st of (s, db) \<Rightarrow>
      if length args < 2 then (Inr (WrongArity name), st)
      else
        (case Delete_loop env 0 (drop 1 args) 0 db of
           (Inl e, db1) \<Rightarrow> (Inl e, (s, db1))
         | (Inr deleted, db1) \<Rightarrow> (Inr (RespCodec_Integer deleted, False), (s, db1))))"

definition HandleRename :: CommandHandler where
  "HandleRename env args name st =
     (case st of (s, db) \<Rightarrow>
      if length args \<noteq> 3 then (Inr (WrongArity name), st)
      else
        (case RadishDB_Rename std_string (env_now env 0) (env_dev env 0) (args ! 1) (args ! 2) db of
           (Inl e, db1) \<Rightarrow> (Inl e, (s, db1))
         | (Inr renamed, db1) \<Rightarrow>
             (Inr (if \<not> renamed then RespCodec_Error ''no such key'' else RespCodec_SimpleString ''OK'', False), (s, db1))))"

fun Exists_loop :: "Env \<Rightarrow> nat \<Rightarrow> string list \<Rightarrow> int \<Rightarrow> RadishDB \<Rightarrow> int" where
  "Exists_loop env i [] found db = found"
| "Exists_loop env i (key # keys) found db =
     Exists_loop env (Suc i) keys (found + (if RadishDB_Exists (env_now env i) db key then 1 else 0)) db"

definition HandleExists :: CommandHandler where
  "HandleExists env args name st =
     (case st of (s, (db, fs)) \<Rightarrow>
      if length args < 2 then (Inr (WrongArity name), st)
      else (Inr (RespCodec_Integer (Exists_loop env 0 (drop 1 args) 0 db), False), st))"

definition HandleKeys :: CommandHandler where
  "HandleKeys env args name st =
     (case st of (s, (db, fs)) \<Rightarrow>
      if length args \<noteq> 2 then (Inr (WrongArity name), st)
      else if args ! 1 \<noteq> ''*'' then (Inr (RespCodec_Error ''only KEYS * is supported'', False), st)
      else (Inr (RespCodec_Array (RadishDB_Scan (env_ord env) (env_now env) db) (m_version s), False), st))"

definition HandleDatabaseSize :: CommandHandler where
  "HandleDatabaseSize env args name st =
     (case st of (s, (db, fs)) \<Rightarrow>
      if length args \<noteq> 1 then (Inr (WrongArity name), st)
      else (Inr (RespCodec_Integer (int (RadishDB_Size (env_ord env) (env_now env) db)), False), st))"

definition HandleFlushDatabase :: CommandHandler where
  "HandleFlushDatabase env args name st =
     (case st of (s, db) \<Rightarrow>
      if length args \<noteq> 1 then (Inr (WrongArity name), st)
      else
        (case RadishDB_Clear std_string (env_now env 0) (env_dev env 0) db of
           (Inl e, db1) \<Rightarrow> (Inl e, (s, db1))
         | (Inr _, db1) \<Rightarrow> (Inr (RespCodec_SimpleString ''OK'', False), (s, db1))))"

definition HandleQuit :: CommandHandler where
  "HandleQuit env args name st =
     (if length args \<noteq> 1 then (Inr (WrongArity name), st)
      else (Inr (RespCodec_SimpleString ''OK'', True), st))"

definition CommandHandlers :: "(string, CommandHandler) umap" where
  "CommandHandlers =
     [(''HELLO'', HandleHello), (''PING'', HandlePing), (''GET'', HandleGet), (''SET'', HandleSet),
      (''DEL'', HandleDelete), (''RENAME'', HandleRename), (''EXISTS'', HandleExists), (''KEYS'', HandleKeys),
      (''DBSIZE'', HandleDatabaseSize), (''FLUSHDB'', HandleFlushDatabase), (''QUIT'', HandleQuit)]"

definition Session_Dispatch ::
    "Env \<Rightarrow> string list \<Rightarrow> Session \<times> Database \<Rightarrow> CommandResult result \<times> (Session \<times> Database)" where
  "Session_Dispatch env args st =
     (if args = [] then (Inl (UndefinedBehaviour ''front of an empty vector''), st)
      else
        let name = Uppercase (hd args)
        in (case umap_find CommandHandlers name of
              None \<Rightarrow> (Inr (RespCodec_Error (''unknown command '' @ [CHR 0x27] @ name @ [CHR 0x27]), False), st)
            | Some handler \<Rightarrow> handler env args name st))"

section \<open>Output\<close>

definition Session_Write :: "Session \<Rightarrow> Session" where
  "Session_Write s = s\<lparr>sk_writing := True\<rparr>"

definition Session_Queue :: "string \<Rightarrow> bool \<Rightarrow> Session \<Rightarrow> Session" where
  "Session_Queue response closeAfterWrite s =
     (let writing = (m_output s \<noteq> []);
          s1 = s\<lparr>m_output := m_output s @ [response], m_closeAfterWrite := m_closeAfterWrite s \<or> closeAfterWrite\<rparr>
      in if \<not> writing then Session_Write s1 else s1)"

text \<open>Completion of a write: everything was sent, or an error after some of the bytes.\<close>

definition Session_WriteDone :: "nat option \<Rightarrow> Session \<Rightarrow> Session" where
  "Session_WriteDone failed s =
     (let s0 = s\<lparr>sk_writing := False\<rparr>
      in case failed of
           Some n \<Rightarrow> s0\<lparr>sk_sent := sk_sent s @ take n (hd (m_output s))\<rparr>
         | None \<Rightarrow>
             let s1 = s0\<lparr>sk_sent := sk_sent s @ hd (m_output s), m_output := tl (m_output s)\<rparr>
             in if m_output s1 \<noteq> [] then Session_Write s1
                else if m_closeAfterWrite s1 then s1\<lparr>sk_open := False\<rparr>
                else s1)"

section \<open>Input\<close>

text \<open>Handlers leave everything in the session alone but the protocol version.\<close>

definition only_version :: "Session \<Rightarrow> Session \<Rightarrow> bool" where
  "only_version s s' \<longleftrightarrow> (\<exists>v. s' = s\<lparr>m_version := v\<rparr>)"

lemma only_version_refl [simp]: "only_version s s"
  unfolding only_version_def by (rule exI [of _ "m_version s"]) simp

lemmas handler_defs = HandleHello_def HandlePing_def HandleGet_def HandleSet_def HandleDelete_def HandleRename_def
  HandleExists_def HandleKeys_def HandleDatabaseSize_def HandleFlushDatabase_def HandleQuit_def

lemma Dispatch_only_version:
  assumes "Session_Dispatch env args (s, db) = (r, (s', db'))"
  shows "only_version s s'"
proof -
  have v: "only_version s (s\<lparr>m_version := x\<rparr>)" for x by (auto simp: only_version_def)
  have "only_version s s'" if "(name, h) \<in> set CommandHandlers" "h env args nm (s, db) = (r, (s', db'))" for name nm h
    using that v
    by (auto simp: CommandHandlers_def handler_defs split: if_splits prod.splits sum.splits)
  with assms show ?thesis
    by (auto simp: Session_Dispatch_def Let_def umap_find_def split: if_splits option.splits dest: map_of_SomeD)
qed

lemma only_version_input: "only_version s s' \<Longrightarrow> m_input s' = m_input s"
  by (auto simp: only_version_def)


lemma Queue_sel [simp]:
  "m_input (Session_Queue response close s) = m_input s"
  "m_version (Session_Queue response close s) = m_version s"
  "m_output (Session_Queue response close s) = m_output s @ [response]"
  "m_closeAfterWrite (Session_Queue response close s) \<longleftrightarrow> m_closeAfterWrite s \<or> close"
  "sk_open (Session_Queue response close s) = sk_open s"
  "sk_reading (Session_Queue response close s) = sk_reading s"
  "sk_sent (Session_Queue response close s) = sk_sent s"
  "sk_writing (Session_Queue response close s) \<longleftrightarrow> sk_writing s \<or> m_output s = []"
  by (simp_all add: Session_Queue_def Session_Write_def Let_def)

lemma Process_decreases:
  assumes "ParseCommand (m_input s) = Inr r" and "rp_status r \<noteq> Incomplete" and "rp_status r \<noteq> StatusError"
    and "Session_Dispatch env args (s\<lparr>m_input := drop (rp_consumed r) (m_input s)\<rparr>, db) = (x, (s1, db1))"
  shows "length (m_input s1) < length (m_input s)"
proof -
  have "rp_status r = Complete" using assms(2,3) by (cases "rp_status r") simp_all
  with ParseCommand_total [of "m_input s"] assms(1) have "0 < rp_consumed r" "rp_consumed r \<le> length (m_input s)" by auto
  with only_version_input [OF Dispatch_only_version [OF assms(4)]] show ?thesis by simp
qed

text \<open>
  The loop over the requests in the buffer. The counter numbers the dispatched commands, so
  that each meets its own environment; it is returned at the end.
\<close>

function Session_Process :: "(nat \<Rightarrow> Env) \<Rightarrow> nat \<Rightarrow> Session \<times> Database \<Rightarrow> nat result \<times> (Session \<times> Database)" where
  "Session_Process envs i (s, db) =
     (if m_input s = [] \<or> m_closeAfterWrite s then (Inr i, (s, db))
      else
        (case ParseCommand (m_input s) of
           Inl e \<Rightarrow> (Inl e, (s, db))
         | Inr r \<Rightarrow>
             if rp_status r = Incomplete then (Inr i, (s, db))
             else if rp_status r = StatusError
             then (Inr i, (Session_Queue (RespCodec_Error (rp_error r)) True s, db))
             else
               (case Session_Dispatch (envs i) (rp_arguments r) (s\<lparr>m_input := drop (rp_consumed r) (m_input s)\<rparr>, db) of
                  (Inl e, st1) \<Rightarrow> (Inl e, st1)
                | (Inr (response, close), (s1, db1)) \<Rightarrow>
                    Session_Process envs (Suc i) (Session_Queue response close s1, db1))))"
  by pat_completeness auto

termination
  by (relation "measure (\<lambda>(envs, i, s, db). length (m_input s))") (auto intro: Process_decreases [OF _ _ _ sym])

declare Session_Process.simps [simp del]

text \<open>
  Completion of a read: an error ends the session; otherwise the bytes are appended, an
  oversized buffer is refused, and the next read is started unless the session is closing.
\<close>

definition Session_ReadDone ::
    "(nat \<Rightarrow> Env) \<Rightarrow> string option \<Rightarrow> Session \<times> Database \<Rightarrow> nat result \<times> (Session \<times> Database)" where
  "Session_ReadDone envs received st =
     (case st of (s, db) \<Rightarrow>
      let s0 = s\<lparr>sk_reading := False\<rparr>
      in case received of
           None \<Rightarrow> (Inr 0, (s0, db))
         | Some bytes \<Rightarrow>
             let s1 = s0\<lparr>m_input := m_input s0 @ bytes\<rparr>
             in if length (m_input s1) > kMaxBufferedInput
                then (Inr 0, (Session_Queue (RespCodec_Error ''Protocol error: input buffer limit exceeded'') True s1, db))
                else
                  (case Session_Process envs 0 (s1, db) of
                     (Inl e, st2) \<Rightarrow> (Inl e, st2)
                   | (Inr n, (s2, db2)) \<Rightarrow>
                       (Inr n, (if \<not> m_closeAfterWrite s2 then s2\<lparr>sk_reading := True\<rparr> else s2, db2))))"


section \<open>What a session answers\<close>

text \<open>
  The specification of a session: a command is answered from the protocol version and the
  database alone, and the answers of a list of commands follow each other until one closes the
  session.
\<close>

definition answer :: "Env \<Rightarrow> string list \<Rightarrow> RespVersion \<Rightarrow> Database \<Rightarrow> CommandResult result \<times> RespVersion \<times> Database" where
  "answer env args v db =
     (case Session_Dispatch env args (Session_new\<lparr>m_version := v\<rparr>, db) of (r, (s, db1)) \<Rightarrow> (r, m_version s, db1))"

fun serve :: "(nat \<Rightarrow> Env) \<Rightarrow> nat \<Rightarrow> string list list \<Rightarrow> RespVersion \<Rightarrow> Database \<Rightarrow>
    (string list \<times> bool \<times> RespVersion \<times> Database) result" where
  "serve envs i [] v db = Inr ([], False, v, db)"
| "serve envs i (c # cs) v db =
     (case answer (envs i) c v db of
        (Inl e, _) \<Rightarrow> Inl e
      | (Inr (response, close), v1, db1) \<Rightarrow>
          if close then Inr ([response], True, v1, db1)
          else rbind (serve envs (Suc i) cs v1 db1) (\<lambda>(rs, closed, v2, db2). Inr (response # rs, closed, v2, db2)))"

lemma handler_local:
  assumes "(name, h) \<in> set CommandHandlers"
  shows "h env args nm (s, db) =
    (case h env args nm (Session_new\<lparr>m_version := m_version s\<rparr>, db) of (r, (s', db')) \<Rightarrow> (r, (s\<lparr>m_version := m_version s'\<rparr>, db')))"
  using assms by (auto simp: CommandHandlers_def handler_defs split: prod.split sum.split)

lemma Dispatch_answer:
  "Session_Dispatch env args (s, db) =
    (case answer env args (m_version s) db of (r, v, db') \<Rightarrow> (r, (s\<lparr>m_version := v\<rparr>, db')))"
proof (cases "args = [] \<or> umap_find CommandHandlers (Uppercase (hd args)) = None")
  case True
  then show ?thesis by (auto simp: answer_def Session_Dispatch_def Let_def)
next
  case False
  then obtain h where h: "umap_find CommandHandlers (Uppercase (hd args)) = Some h" "args \<noteq> []" by auto
  then have "(Uppercase (hd args), h) \<in> set CommandHandlers" by (auto simp: umap_find_def dest: map_of_SomeD)
  from handler_local [OF this, of env args "Uppercase (hd args)" s db] h show ?thesis
    by (auto simp: answer_def Session_Dispatch_def Let_def split: prod.splits)
qed

lemma Process_Complete:
  assumes "ParseCommand (m_input s) = Inr r" and "rp_status r = Complete" and "\<not> m_closeAfterWrite s"
    and "answer (envs i) (rp_arguments r) (m_version s) db = (Inr (response, close), v, db1)"
  shows "Session_Process envs i (s, db) =
    Session_Process envs (Suc i)
      (Session_Queue response close (s\<lparr>m_input := drop (rp_consumed r) (m_input s), m_version := v\<rparr>), db1)"
proof -
  have "m_input s \<noteq> []" using assms(1,2) by (auto simp: ParseCommand_def parse_more_def)
  with assms show ?thesis
    by (subst Session_Process.simps) (simp add: Dispatch_answer)
qed

lemma Process_closed: "m_closeAfterWrite s \<Longrightarrow> Session_Process envs i (s, db) = (Inr i, (s, db))"
  by (subst Session_Process.simps) simp

lemma outcome_Complete:
  "command_outcome x = Done c n \<longleftrightarrow> (\<exists>r. ParseCommand x = Inr r \<and> rp_status r = Complete \<and> rp_arguments r = c \<and> rp_consumed r = n)"
  by (auto simp: command_outcome_def split: sum.splits RespStatus.splits)

lemma outcome_More: "command_outcome x = More \<longleftrightarrow> (\<exists>r. ParseCommand x = Inr r \<and> rp_status r = Incomplete)"
  using ParseCommand_total [of x] by (auto simp: command_outcome_def split: RespStatus.splits)

lemma outcome_Bad:
  "command_outcome x = Bad e \<longleftrightarrow> (\<exists>r. ParseCommand x = Inr r \<and> rp_status r = StatusError \<and> rp_error r = e)"
  by (auto simp: command_outcome_def split: sum.splits RespStatus.splits)

text \<open>The turns of the loop: it stops, rejects the input, meets an exception, or goes on.\<close>

lemma Process_idle:
  "command_outcome (m_input s) = More \<or> m_closeAfterWrite s \<Longrightarrow> Session_Process envs i (s, db) = (Inr i, (s, db))"
  by (subst Session_Process.simps) (auto simp: outcome_More)

lemma Process_Bad:
  assumes "\<not> m_closeAfterWrite s" and "command_outcome (m_input s) = Bad e"
  shows "Session_Process envs i (s, db) = (Inr i, (Session_Queue (RespCodec_Error e) True s, db))"
proof -
  from assms(2) obtain p where p: "ParseCommand (m_input s) = Inr p" "rp_status p = StatusError" "rp_error p = e"
    by (auto simp: outcome_Bad)
  then have "m_input s \<noteq> []" by (auto simp: ParseCommand_def parse_more_def)
  with p assms(1) show ?thesis by (subst Session_Process.simps) auto
qed

lemma Process_Done:
  assumes "\<not> m_closeAfterWrite s" and "command_outcome (m_input s) = Done c n"
    and "answer (envs i) c (m_version s) db = (x, v, db1)"
  shows "Session_Process envs i (s, db) =
    (let s1 = s\<lparr>m_input := drop n (m_input s), m_version := v\<rparr>
     in case x of Inl e \<Rightarrow> (Inl e, (s1, db1))
        | Inr (response, close) \<Rightarrow> Session_Process envs (Suc i) (Session_Queue response close s1, db1))"
proof -
  from assms(2) obtain p where p: "ParseCommand (m_input s) = Inr p" "rp_status p = Complete" "rp_arguments p = c" "rp_consumed p = n"
    by (auto simp: outcome_Complete)
  have "m_input s \<noteq> []" using rc.done_consumes [OF assms(2)] by auto
  with p assms(1,3) show ?thesis
    by (subst Session_Process.simps) (auto simp: Dispatch_answer split: sum.splits)
qed

lemma Process_induct [consumes 1, case_names idle bad threw step]:
  assumes "Session_Process envs i (s, db) = (r, (s', db'))"
    and idle: "\<And>i s db. command_outcome (m_input s) = More \<or> m_closeAfterWrite s \<Longrightarrow> P i s db (Inr i) s db"
    and bad: "\<And>i s db e. \<not> m_closeAfterWrite s \<Longrightarrow> command_outcome (m_input s) = Bad e \<Longrightarrow>
      P i s db (Inr i) (Session_Queue (RespCodec_Error e) True s) db"
    and threw: "\<And>i s db c n e v db1. \<not> m_closeAfterWrite s \<Longrightarrow> command_outcome (m_input s) = Done c n \<Longrightarrow>
      answer (envs i) c (m_version s) db = (Inl e, v, db1) \<Longrightarrow>
      P i s db (Inl e) (s\<lparr>m_input := drop n (m_input s), m_version := v\<rparr>) db1"
    and step: "\<And>i s db c n response close v db1 r s' db'. \<not> m_closeAfterWrite s \<Longrightarrow> command_outcome (m_input s) = Done c n \<Longrightarrow>
      answer (envs i) c (m_version s) db = (Inr (response, close), v, db1) \<Longrightarrow>
      Session_Process envs (Suc i) (Session_Queue response close (s\<lparr>m_input := drop n (m_input s), m_version := v\<rparr>), db1) = (r, (s', db')) \<Longrightarrow>
      P (Suc i) (Session_Queue response close (s\<lparr>m_input := drop n (m_input s), m_version := v\<rparr>)) db1 r s' db' \<Longrightarrow>
      P i s db r s' db'"
  shows "P i s db r s' db'"
  using assms(1)
proof (induction "length (m_input s)" arbitrary: i s db rule: less_induct)
  case less
  show ?case
  proof (cases "command_outcome (m_input s) = More \<or> m_closeAfterWrite s")
    case True
    with less.prems idle [OF True, of i db] show ?thesis by (auto simp: Process_idle)
  next
    case False
    then have open': "\<not> m_closeAfterWrite s" by simp
    show ?thesis
    proof (cases "command_outcome (m_input s)")
      case (Bad e)
      with less.prems bad [OF open' Bad, of i db] show ?thesis by (auto simp: Process_Bad [OF open'])
    next
      case (Done c n)
      obtain x v db1 where a: "answer (envs i) c (m_version s) db = (x, v, db1)" by (rule prod_cases3)
      show ?thesis
      proof (cases x)
        case (Inl e)
        with less.prems threw [OF open' Done, of i db e v db1] a show ?thesis by (auto simp: Process_Done [where envs = envs and i = i, OF open' Done a])
      next
        case (Inr y)
        obtain response close where y: "y = (response, close)" by (cases y)
        note rec = less.prems [unfolded Process_Done [where envs = envs and i = i, OF open' Done a] Inr y Let_def sum.case prod.case]
        have "length (drop n (m_input s)) < length (m_input s)" using rc.done_consumes [OF Done] by auto
        with less.hyps [OF _ rec] step [OF open' Done _ rec] a Inr y show ?thesis by simp
      qed
    qed (use False in simp)
  qed
qed

definition error_reply :: "bool \<Rightarrow> string option \<Rightarrow> string list" where
  "error_reply closed err = (case err of Some e \<Rightarrow> if closed then [] else [RespCodec_Error e] | None \<Rightarrow> [])"

lemma Process_serve:
  assumes "\<not> m_closeAfterWrite s" and "rc.drain (m_input s) = (cmds, err, rest)"
    and "serve envs i cmds (m_version s) db = Inr (rs, closed, v, db')"
  shows "\<exists>j s'. Session_Process envs i (s, db) = (Inr j, (s', db')) \<and>
    m_output s' = m_output s @ rs @ error_reply closed err \<and> m_version s' = v \<and>
    (m_closeAfterWrite s' \<longleftrightarrow> closed \<or> err \<noteq> None) \<and> sk_sent s' = sk_sent s \<and>
    (\<not> closed \<longrightarrow> m_input s' = rest)"
  using assms
proof (induction cmds arbitrary: s i db rs)
  case Nil
  show ?case
  proof (cases "command_outcome (m_input s)")
    case (Done c n)
    with Nil.prems(2) show ?thesis
      by (cases "rc.drain (drop n (m_input s))") (simp add: rc.drain_Done)
  next
    case More
    with Nil.prems show ?thesis
      by (subst Session_Process.simps) (auto simp: rc.drain_More outcome_More error_reply_def)
  next
    case (Bad e)
    then obtain r where r: "ParseCommand (m_input s) = Inr r" "rp_status r = StatusError" "rp_error r = e"
      by (auto simp: outcome_Bad)
    then have "m_input s \<noteq> []" by (auto simp: ParseCommand_def parse_more_def)
    with r Nil.prems Bad show ?thesis
      by (subst Session_Process.simps) (auto simp: rc.drain_Bad error_reply_def)
  qed
next
  case (Cons c cs)
  show ?case
  proof (cases "command_outcome (m_input s)")
    case (Done c' n)
    obtain cs1 e1 rest1 where d: "rc.drain (drop n (m_input s)) = (cs1, e1, rest1)"
      by (cases "rc.drain (drop n (m_input s))")
    with Cons.prems(2) Done have eqs: "c' = c" "cs1 = cs" "e1 = err" "rest1 = rest" by (simp_all add: rc.drain_Done)
    from Done obtain r where r: "ParseCommand (m_input s) = Inr r" "rp_status r = Complete"
      "rp_arguments r = c" "rp_consumed r = n"
      unfolding outcome_Complete eqs(1) by auto
    from Cons.prems(3) obtain response close v1 db1 where
      a: "answer (envs i) c (m_version s) db = (Inr (response, close), v1, db1)"
      by (auto split: prod.splits sum.splits)
    let ?s = "Session_Queue response close (s\<lparr>m_input := drop n (m_input s), m_version := v1\<rparr>)"
    have step: "Session_Process envs i (s, db) = Session_Process envs (Suc i) (?s, db1)"
      using Process_Complete [OF r(1,2) Cons.prems(1)] a r(3,4) by simp
    show ?thesis
    proof (cases close)
      case True
      with Cons.prems(3) a step show ?thesis by (simp add: Process_closed error_reply_def split: option.split)
    next
      case False
      with Cons.prems(3) a obtain rs1 where rs: "rs = response # rs1"
        "serve envs (Suc i) cs v1 db1 = Inr (rs1, closed, v, db')"
        by (auto simp: result_simps)
      have "\<not> m_closeAfterWrite ?s" "rc.drain (m_input ?s) = (cs, err, rest)" "m_version ?s = v1"
        using False Cons.prems(1) d eqs by simp_all
      from Cons.IH [OF this(1,2), of "Suc i" db1 rs1] this(3) rs(2) step rs(1) show ?thesis by auto
    qed
  qed (use Cons.prems(2) in \<open>simp_all add: rc.drain_More rc.drain_Bad\<close>)
qed


lemma drain_encoded:
  assumes "list_all command_ok cmds" and "command_outcome rest = More"
  shows "rc.drain (concat (map EncodeCommand cmds) @ rest) = (cmds, None, rest)"
  using assms(1)
proof (induction cmds)
  case Nil
  with assms(2) show ?case by (simp add: rc.drain_More)
next
  case (Cons c cs)
  then have "command_outcome (EncodeCommand c @ concat (map EncodeCommand cs) @ rest) = Done c (length (EncodeCommand c))"
    by (simp add: outcome_Complete ParseCommand_encode)
  from rc.drain_Done [OF this, of cs None rest] Cons show ?case by simp
qed

lemma Queue_input:
  "Session_Queue response close (s\<lparr>m_input := x\<rparr>) = (Session_Queue response close s)\<lparr>m_input := x\<rparr>"
  by (simp add: Session_Queue_def Session_Write_def Let_def)

lemma version_input: "s\<lparr>m_version := v, m_input := x\<rparr> = s\<lparr>m_input := x, m_version := v\<rparr>"
  by simp

text \<open>Where the stream is cut does not matter as long as the session stays open.\<close>

lemma Process_append:
  assumes "Session_Process envs i (s, db) = (Inr j, (s', db'))" and "\<not> m_closeAfterWrite s'"
  shows "Session_Process envs i (s\<lparr>m_input := m_input s @ y\<rparr>, db) =
    Session_Process envs j (s'\<lparr>m_input := m_input s' @ y\<rparr>, db')"
  using assms
proof (induction envs i "(s, db)" arbitrary: s db rule: Session_Process.induct)
  case (1 envs i s db)
  have ns: "\<not> m_closeAfterWrite s"
    using 1(2,3) by (auto simp: Process_closed)
  show ?case
  proof (cases "command_outcome (m_input s)")
    case More
    with 1(2) ns have "s' = s" "db' = db" "j = i"
      by (subst (asm) Session_Process.simps, auto simp: outcome_More split: if_splits)+
    then show ?thesis by simp
  next
    case (Bad e)
    then obtain r where r: "ParseCommand (m_input s) = Inr r" "rp_status r = StatusError" by (auto simp: outcome_Bad)
    then have "m_input s \<noteq> []" by (auto simp: ParseCommand_def parse_more_def)
    with 1(2,3) ns r show ?thesis
      by (subst (asm) Session_Process.simps) auto
  next
    case (Done c n)
    then obtain r where r: "ParseCommand (m_input s) = Inr r" "rp_status r = Complete" "rp_consumed r = n"
      by (auto simp: outcome_Complete)
    have n: "n \<le> length (m_input s)" "m_input s \<noteq> []" using rc.done_consumes [OF Done] by auto
    obtain x v db1 where fields: "answer (envs i) (rp_arguments r) (m_version s) db = (x, v, db1)"
      by (rule prod_cases3)
    show ?thesis
    proof (cases x)
        case (Inl e)
        with 1(2) fields r n ns show ?thesis
          by (subst (asm) Session_Process.simps) (simp add: Dispatch_answer)
      next
        case (Inr rc)
        obtain response close where rc: "rc = (response, close)" by (cases rc)
        let ?s = "s\<lparr>m_input := drop n (m_input s), m_version := v\<rparr>"
        have step: "Session_Process envs i (s, db) = Session_Process envs (Suc i) (Session_Queue response close ?s, db1)"
          using Process_Complete [OF r(1,2) ns] fields Inr rc r(3) by simp
        have ih: "Session_Process envs (Suc i) ((Session_Queue response close ?s)\<lparr>m_input := drop n (m_input s) @ y\<rparr>, db1) =
            Session_Process envs j (s'\<lparr>m_input := m_input s' @ y\<rparr>, db')"
          using 1(1) [OF _ r(1), of "Inr (response, close)" "(?s, db1)" "(response, close)" response close ?s db1] n ns r fields Inr rc 1(2,3) step
          by (simp add: Dispatch_answer)
        have "ParseCommand (m_input (s\<lparr>m_input := m_input s @ y\<rparr>)) = Inr r"
          using ParseCommand_append [OF r(1)] r(2) by simp
        from Process_Complete [OF this r(2), of envs i db response close v db1] ns fields Inr rc r(3) n ih
        show ?thesis by (simp add: Queue_input [symmetric] version_input)
    qed
  qed
qed

end
