(* ===== verification/Tcp_Server.thy ===== *)
theory Tcp_Server
  imports Tcp_Session
begin

text \<open>
  A session as a state machine (\<^verbatim>\<open>src/network/TcpServer.cpp\<close>): its steps are the completion
  handlers of the read and of the write, in any order and with any outcome, while other
  sessions change the database in between. Shown here: replies leave in the order of the
  requests, exactly one per request, whatever the fragmentation of the input; at most one write
  is outstanding; the socket is closed only after everything was sent; and what each command
  answers in terms of the map that the database implements.
\<close>

section \<open>Sessions as a state machine\<close>

definition Session_Start :: "Session \<Rightarrow> Session" where
  "Session_Start s = s\<lparr>sk_reading := True\<rparr>"

text \<open>
  The indices besides the session: the replies queued so far, and whether a write has failed.
\<close>

inductive session_reach :: "Session \<Rightarrow> string list \<Rightarrow> bool \<Rightarrow> bool" where
  start: "session_reach (Session_Start Session_new) [] False"
| read: "session_reach s replies failed \<Longrightarrow> sk_reading s \<Longrightarrow> sk_open s \<Longrightarrow>
     Session_ReadDone envs received (s, db) = (Inr n, (s', db')) \<Longrightarrow>
     session_reach s' (replies @ drop (length (m_output s)) (m_output s')) failed"
| written: "session_reach s replies failed \<Longrightarrow> sk_writing s \<Longrightarrow> session_reach (Session_WriteDone None s) replies failed"
| broken: "session_reach s replies failed \<Longrightarrow> sk_writing s \<Longrightarrow> session_reach (Session_WriteDone (Some n) s) replies True"

definition extends :: "Session \<Rightarrow> Session \<Rightarrow> string list \<Rightarrow> bool" where
  "extends s s' new \<longleftrightarrow> m_output s' = m_output s @ new \<and> sk_sent s' = sk_sent s \<and> sk_open s' = sk_open s \<and>
     sk_reading s' = sk_reading s \<and> (sk_writing s' \<longleftrightarrow> sk_writing s \<or> m_output s = [] \<and> new \<noteq> [])"

lemma extends_refl: "extends s s []"
  by (simp add: extends_def)

lemma extends_trans: "extends s s1 a \<Longrightarrow> extends s1 s2 b \<Longrightarrow> extends s s2 (a @ b)"
  by (auto simp: extends_def)

lemma extends_queue: "extends s (Session_Queue response close (s\<lparr>m_input := x, m_version := v\<rparr>)) [response]"
  by (simp add: extends_def)

lemma Process_extends:
  assumes "Session_Process envs i (s, db) = (r, (s', db'))"
  shows "\<exists>new. extends s s' new"
  using assms
proof (induction rule: Process_induct)
  case (idle i s db)
  show ?case using extends_refl by blast
next
  case (bad i s db e)
  have "extends s (Session_Queue (RespCodec_Error e) True s) [RespCodec_Error e]"
    by (simp add: extends_def)
  then show ?case by blast
next
  case (threw i s db c n e v db1)
  have "extends s (s\<lparr>m_input := drop n (m_input s), m_version := v\<rparr>) []" by (simp add: extends_def)
  then show ?case by blast
next
  case (step i s db c n response close v db1 r s' db')
  then show ?case using extends_trans [OF extends_queue] by blast
qed

lemma ReadDone_extends:
  assumes "Session_ReadDone envs received (s, db) = (Inr n, (s', db'))"
  shows "\<exists>new s1. extends s s1 new \<and> (s' = s1\<lparr>sk_reading := False\<rparr> \<or> s' = s1\<lparr>sk_reading := True\<rparr> \<and> \<not> m_closeAfterWrite s1)"
proof (cases received)
  case None
  with assms have "s' = s\<lparr>sk_reading := False\<rparr>" by (simp add: Session_ReadDone_def)
  then show ?thesis using extends_refl by blast
next
  case (Some bytes)
  let ?s = "s\<lparr>sk_reading := False, m_input := m_input s @ bytes\<rparr>"
  show ?thesis
  proof (cases "length (m_input s @ bytes) > kMaxBufferedInput")
    case True
    with assms Some have "s' = Session_Queue (RespCodec_Error ''Protocol error: input buffer limit exceeded'') True ?s"
      by (simp add: Session_ReadDone_def)
    then have "extends s (s'\<lparr>sk_reading := sk_reading s\<rparr>) [RespCodec_Error ''Protocol error: input buffer limit exceeded'']"
      "s' = (s'\<lparr>sk_reading := sk_reading s\<rparr>)\<lparr>sk_reading := False\<rparr>"
      by (simp_all add: extends_def Session_Queue_def Session_Write_def Let_def)
    then show ?thesis by blast
  next
    case False
    obtain r s2 db2 where p: "Session_Process envs 0 (?s, db) = (r, (s2, db2))" by (rule prod_cases3)
    from Process_extends [OF p] obtain new where new: "extends ?s s2 new" by blast
    let ?s1 = "s2\<lparr>sk_reading := sk_reading s\<rparr>"
    have "extends s ?s1 new" using new by (auto simp: extends_def)
    moreover have "s' = ?s1\<lparr>sk_reading := False\<rparr> \<or> s' = ?s1\<lparr>sk_reading := True\<rparr> \<and> \<not> m_closeAfterWrite ?s1"
      using assms Some False p new
      by (auto simp: Session_ReadDone_def extends_def Let_def split: sum.splits if_splits)
    ultimately show ?thesis by blast
  qed
qed

definition session_inv :: "Session \<Rightarrow> string list \<Rightarrow> bool \<Rightarrow> bool" where
  "session_inv s replies failed \<longleftrightarrow>
     (sk_writing s \<longrightarrow> m_output s \<noteq> []) \<and>
     (\<not> failed \<longrightarrow> sk_sent s @ concat (m_output s) = concat replies \<and> (m_output s \<noteq> [] \<longrightarrow> sk_writing s)) \<and>
     (failed \<longrightarrow> \<not> sk_writing s \<and> m_output s \<noteq> [] \<and> sk_open s) \<and>
     (\<exists>rest. concat replies = sk_sent s @ rest) \<and>
     (\<not> sk_open s \<longrightarrow> m_output s = [] \<and> m_closeAfterWrite s \<and> \<not> failed) \<and>
     (sk_reading s \<longrightarrow> \<not> m_closeAfterWrite s)"


lemma session_inv_extends:
  assumes "session_inv s replies failed" and "sk_open s" and "extends s s1 new"
    and "s' = s1\<lparr>sk_reading := False\<rparr> \<or> s' = s1\<lparr>sk_reading := True\<rparr> \<and> \<not> m_closeAfterWrite s1"
  shows "session_inv s' (replies @ new) failed"
  using assms unfolding session_inv_def extends_def by auto

lemma session_inv_written:
  assumes "session_inv s replies failed" and "sk_writing s"
  shows "session_inv (Session_WriteDone None s) replies failed"
proof -
  have "m_output s \<noteq> []" "\<not> failed" using assms by (auto simp: session_inv_def)
  then obtain x xs where "m_output s = x # xs" by (cases "m_output s") auto
  with assms show ?thesis
    by (auto simp: session_inv_def Session_WriteDone_def Session_Write_def Let_def)
qed

lemma session_inv_broken:
  assumes "session_inv s replies failed" and "sk_writing s"
  shows "session_inv (Session_WriteDone (Some n) s) replies True"
proof -
  have "m_output s \<noteq> []" "\<not> failed" using assms by (auto simp: session_inv_def)
  then obtain x xs where o: "m_output s = x # xs" by (cases "m_output s") auto
  with assms(1) \<open>\<not> failed\<close> have "concat replies = sk_sent s @ x @ concat xs" by (auto simp: session_inv_def)
  also have "\<dots> = (sk_sent s @ take n x) @ drop n x @ concat xs"
    by (metis append.assoc append_take_drop_id)
  finally have "\<exists>rest. concat replies = (sk_sent s @ take n x) @ rest" by blast
  moreover have "sk_open s" using assms o by (auto simp: session_inv_def)
  ultimately show ?thesis using assms o
    by (simp add: session_inv_def Session_WriteDone_def Let_def)
qed

lemma session_reach_inv: "session_reach s replies failed \<Longrightarrow> session_inv s replies failed"
proof (induction rule: session_reach.induct)
  case start
  show ?case by (simp add: session_inv_def Session_Start_def Session_new_def)
next
  case (read s replies failed envs received db n s' db')
  from ReadDone_extends [OF read(4)] obtain new s1 where e: "extends s s1 new"
    and s': "s' = s1\<lparr>sk_reading := False\<rparr> \<or> s' = s1\<lparr>sk_reading := True\<rparr> \<and> \<not> m_closeAfterWrite s1" by blast
  then have "drop (length (m_output s)) (m_output s') = new" by (auto simp: extends_def)
  with session_inv_extends [OF read(5,3) e s'] show ?case by simp
qed (simp_all add: session_inv_written session_inv_broken)

section \<open>The acceptor\<close>

record TcpServer =
  m_stopped :: bool
  ac_open :: bool
  ac_accepting :: bool
  ac_sessions :: nat

definition TcpServer_new :: TcpServer where
  "TcpServer_new = \<lparr>m_stopped = False, ac_open = True, ac_accepting = False, ac_sessions = 0\<rparr>"

text \<open>The address may be malformed, in use or not allowed; then the constructor throws.\<close>

definition TcpServer_construct :: "error option \<Rightarrow> TcpServer result" where
  "TcpServer_construct failure = (case failure of Some e \<Rightarrow> Inl e | None \<Rightarrow> Inr TcpServer_new)"

definition TcpServer_Accept :: "TcpServer \<Rightarrow> TcpServer" where
  "TcpServer_Accept sv = (if m_stopped sv then sv else sv\<lparr>ac_accepting := True\<rparr>)"

definition TcpServer_Start :: "TcpServer \<Rightarrow> TcpServer" where
  "TcpServer_Start sv = TcpServer_Accept sv"

definition TcpServer_AcceptDone :: "bool \<Rightarrow> TcpServer \<Rightarrow> TcpServer" where
  "TcpServer_AcceptDone error sv =
     (let sv0 = sv\<lparr>ac_accepting := False\<rparr>;
          sv1 = (if \<not> error then sv0\<lparr>ac_sessions := Suc (ac_sessions sv0)\<rparr> else sv0)
      in if \<not> m_stopped sv1 then TcpServer_Accept sv1 else sv1)"

definition TcpServer_Stop :: "TcpServer \<Rightarrow> TcpServer" where
  "TcpServer_Stop sv = (if m_stopped sv then sv else sv\<lparr>m_stopped := True, ac_open := False\<rparr>)"

definition TcpServer_destroy :: "TcpServer \<Rightarrow> TcpServer" where
  "TcpServer_destroy sv = TcpServer_Stop sv"

text \<open>A server that was stopped is destroyed without touching the acceptor again.\<close>

lemma destroy_after_stop: "TcpServer_destroy (TcpServer_Stop sv) = TcpServer_Stop sv"
  by (simp add: TcpServer_destroy_def TcpServer_Stop_def)

inductive server_reach :: "TcpServer \<Rightarrow> bool" where
  started: "server_reach (TcpServer_Start TcpServer_new)"
| accepted: "server_reach sv \<Longrightarrow> ac_accepting sv \<Longrightarrow> server_reach (TcpServer_AcceptDone error sv)"
| stopped: "server_reach sv \<Longrightarrow> server_reach (TcpServer_Stop sv)"

lemma server_reach_inv:
  "server_reach sv \<Longrightarrow> (\<not> m_stopped sv \<longrightarrow> ac_accepting sv) \<and> (m_stopped sv \<longleftrightarrow> \<not> ac_open sv)"
  by (induction rule: server_reach.induct)
    (auto simp: TcpServer_Start_def TcpServer_Accept_def TcpServer_new_def TcpServer_AcceptDone_def TcpServer_Stop_def Let_def)


section \<open>What the commands answer\<close>

lemmas dispatch_eval = answer_def Session_Dispatch_def CommandHandlers_def umap_find_def

lemma answer_handler:
  assumes "umap_find CommandHandlers (Uppercase n) = Some h"
  shows "answer env (n # args) v db =
    (case h env (n # args) (Uppercase n) (Session_new\<lparr>m_version := v\<rparr>, db) of (r, (s, db1)) \<Rightarrow> (r, m_version s, db1))"
  using assms by (simp add: answer_def Session_Dispatch_def)

lemma find_handlers:
  "umap_find CommandHandlers ''GET'' = Some HandleGet" "umap_find CommandHandlers ''SET'' = Some HandleSet"
  "umap_find CommandHandlers ''DEL'' = Some HandleDelete" "umap_find CommandHandlers ''RENAME'' = Some HandleRename"
  "umap_find CommandHandlers ''EXISTS'' = Some HandleExists" "umap_find CommandHandlers ''KEYS'' = Some HandleKeys"
  "umap_find CommandHandlers ''DBSIZE'' = Some HandleDatabaseSize" "umap_find CommandHandlers ''FLUSHDB'' = Some HandleFlushDatabase"
  "umap_find CommandHandlers ''HELLO'' = Some HandleHello" "umap_find CommandHandlers ''PING'' = Some HandlePing"
  "umap_find CommandHandlers ''QUIT'' = Some HandleQuit"
  by (simp_all add: CommandHandlers_def umap_find_def)

lemma Session_new_version [simp]: "m_version (Session_new\<lparr>m_version := v\<rparr>) = v"
  by simp

lemma Exists_loop_count:
  assumes "\<And>now key. RadishDB_Exists now db key \<longleftrightarrow> m key \<noteq> None"
  shows "Exists_loop env i keys found db = found + int (length (filter (\<lambda>k. m k \<noteq> None) keys))"
  using assms by (induction keys arbitrary: i found) auto

text \<open>The truth values that the database returns are those of the map.\<close>

lemma Delete_result:
  assumes "db_reach ty filename st m" and "event_ok ty (delete_event key)"
    and "RadishDB_Delete ty now dev key st = (Inr b, st')"
  shows "b \<longleftrightarrow> m key \<noteq> None"
proof -
  obtain db fs where st: "st = (db, fs)" by (cases st)
  have db: "opened filename db" "store_ok (m_store db)" "store_view (m_store db) = plain_view m"
    using db_reach_inv [OF assms(1)] st by (simp_all add: db_inv_def)
  have "LogWriter_ApplyEvent now (m_store db) (delete_event key) = Inr (RadishStore_Delete key (m_store db))"
    by (simp add: LogWriter_ApplyEvent_def)
  with Commit_opened [OF db(1) assms(2) db(2), of now dev fs] assms(3) st have "b = fst (RadishStore_Delete key (m_store db))"
    by (auto simp: RadishDB_Delete_def split: if_splits prod.splits sum.splits)
  then show ?thesis using db(3) by (simp add: view_of_delete plain_view_def)
qed

lemma Rename_result:
  assumes "db_reach ty filename st m" and "event_ok ty (rename_event a b)"
    and "RadishDB_Rename ty now dev a b st = (Inr r, st')"
  shows "r \<longleftrightarrow> m a \<noteq> None"
proof -
  obtain db fs where st: "st = (db, fs)" by (cases st)
  have db: "opened filename db" "store_ok (m_store db)" "store_view (m_store db) = plain_view m"
    using db_reach_inv [OF assms(1)] st by (simp_all add: db_inv_def)
  have "LogWriter_ApplyEvent now (m_store db) (rename_event a b) = Inr (RadishStore_Rename now a b (m_store db))"
    by (simp add: LogWriter_ApplyEvent_def)
  with Commit_opened [OF db(1) assms(2) db(2), of now dev fs] assms(3) st have "r = fst (RadishStore_Rename now a b (m_store db))"
    by (auto simp: RadishDB_Rename_def split: if_splits prod.splits sum.splits)
  then show ?thesis using view_of_rename_total(1) [OF db(2)] db(3)
    by (cases "m a") (simp_all add: view_get_def plain_view_def)
qed

lemma Delete_loop_reach:
  assumes "db_reach std_string filename st m" and "\<forall>k \<in> set keys. record_ok std_string (delete_event k)"
    and "Delete_loop env i keys deleted st = (Inr n, st')"
  shows "n = deleted + int (card (set keys \<inter> dom m)) \<and> db_reach std_string filename st' (m |` (- set keys))"
  using assms
proof (induction keys arbitrary: i deleted st m)
  case Nil
  then show ?case by (simp add: restrict_map_def)
next
  case (Cons key keys)
  from Cons.prems(3) obtain b st1 where d: "RadishDB_Delete std_string (env_now env i) (env_dev env i) key st = (Inr b, st1)"
    and loop: "Delete_loop env (Suc i) keys (deleted + (if b then 1 else 0)) st1 = (Inr n, st')"
    by (auto simp: sbind_eq_Inr)
  have ok: "record_ok std_string (delete_event key)" using Cons.prems(2) by simp
  have b: "b \<longleftrightarrow> m key \<noteq> None"
    using Delete_result [OF Cons.prems(1) _ d] ok by (simp add: record_ok_def)
  have r: "db_reach std_string filename st1 (m(key := None))"
    using db_reach.delete [OF Cons.prems(1) ok d] .
  have *: "m(key := None) |` (- set keys) = m |` (- set (key # keys))"
    by (auto simp: restrict_map_def fun_eq_iff)
  have card: "card (insert key (set keys) \<inter> dom m) = (if b then 1 else 0) + card (set keys \<inter> dom (m(key := None)))"
  proof (cases b)
    case True
    then have "insert key (set keys) \<inter> dom m = insert key (set keys \<inter> dom (m(key := None)))" using b by auto
    moreover have "key \<notin> set keys \<inter> dom (m(key := None))" by simp
    ultimately show ?thesis using True by simp
  next
    case False
    then have "insert key (set keys) \<inter> dom m = set keys \<inter> dom (m(key := None))" using b by auto
    with False show ?thesis by simp
  qed
  have "\<forall>k \<in> set keys. record_ok std_string (delete_event k)" using Cons.prems(2) by simp
  note ih = Cons.IH [OF r this loop]
  show ?case
  proof
    show "n = deleted + int (card (set (key # keys) \<inter> dom m))"
      using conjunct1 [OF ih] unfolding list.set card by (cases b) (simp_all add: fun_upd_def del: dom_fun_upd)
    show "db_reach std_string filename st' (m |` (- set (key # keys)))"
      using conjunct2 [OF ih] by (simp only: *)
  qed
qed


text \<open>Every request that the parser lets through fits into a record of the log.\<close>

lemma wire_records:
  assumes "length k \<le> kMaxBulkLength" and "length x \<le> kMaxBulkLength"
  shows "record_ok std_string (create_event t k x)" "record_ok std_string (rename_event k x)"
    "record_ok std_string (delete_event k)"
  using assms by (simp_all add: record_ok_def event_ok_def event_bytes_def kMaxBulkLength_def kMaxRecordSize_def BinarySize_max_def)

lemma serve_length:
  "serve envs i cmds v db = Inr (rs, closed, v', db') \<Longrightarrow>
   length rs \<le> length cmds \<and> (\<not> closed \<longrightarrow> length rs = length cmds)"
proof (induction cmds arbitrary: i v db rs)
  case (Cons c cs)
  then show ?case
    by (cases "answer (envs i) c v db" rule: prod_cases3)
      (fastforce simp: result_simps split: sum.splits prod.splits if_splits)
qed simp

lemma ReadDone_serve:
  assumes "m_input s = []" and "\<not> m_closeAfterWrite s" and "rc.drain bytes = (cmds, None, part)"
    and "length bytes \<le> kMaxBufferedInput" and "serve envs 0 cmds (m_version s) db = Inr (replies, closed, v, db')"
  shows "\<exists>j s'. Session_ReadDone envs (Some bytes) (s, db) = (Inr j, (s', db')) \<and>
    m_output s' = m_output s @ replies \<and> m_version s' = v \<and> m_closeAfterWrite s' = closed \<and> sk_reading s' = (\<not> closed) \<and>
    (closed \<or> m_input s' = part)"
proof -
  let ?s = "s\<lparr>sk_reading := False, m_input := bytes\<rparr>"
  have "\<exists>j s'. Session_Process envs 0 (?s, db) = (Inr j, (s', db')) \<and>
      m_output s' = m_output ?s @ replies @ error_reply closed None \<and> m_version s' = v \<and>
      (m_closeAfterWrite s' \<longleftrightarrow> closed \<or> None \<noteq> (None :: string option)) \<and> sk_sent s' = sk_sent ?s \<and>
      (\<not> closed \<longrightarrow> m_input s' = part)"
    by (rule Process_serve [of _ cmds]) (use assms(2,3,5) in simp_all)
  then obtain j s' where p: "Session_Process envs 0 (?s, db) = (Inr j, (s', db'))" "m_output s' = m_output s @ replies"
    "m_version s' = v" "m_closeAfterWrite s' = closed" "\<not> closed \<longrightarrow> m_input s' = part"
    by (auto simp: error_reply_def)
  from Process_extends [OF p(1)] have "\<not> sk_reading s'" by (auto simp: extends_def)
  with p assms(1,4) show ?thesis
    by (cases closed) (auto simp: Session_ReadDone_def Let_def)
qed

section \<open>Properties\<close>

text \<open>
  (C12) A session that receives the encodings of a list of requests, followed by any part of a
  further one, queues exactly one reply per request, in the order of the requests, each computed
  on the database that the previous ones left, and keeps the unfinished request for the next
  read; a request that closes the session is the last one answered.
\<close>

theorem session_answers_requests_in_order:
  assumes "m_input s = []" and "\<not> m_closeAfterWrite s"
    and "list_all command_ok cmds" and "command_ok c" and "n < length (EncodeCommand c)"
    and "length (concat (map EncodeCommand cmds) @ take n (EncodeCommand c)) \<le> kMaxBufferedInput"
    and "serve envs 0 cmds (m_version s) db = Inr (replies, closed, v, db')"
  shows "\<exists>j s'. Session_ReadDone envs (Some (concat (map EncodeCommand cmds) @ take n (EncodeCommand c))) (s, db) =
      (Inr j, (s', db')) \<and>
    m_output s' = m_output s @ replies \<and> m_version s' = v \<and> length replies \<le> length cmds \<and>
    m_closeAfterWrite s' = closed \<and> sk_reading s' = (\<not> closed) \<and>
    (closed \<or> length replies = length cmds \<and> m_input s' = take n (EncodeCommand c))"
proof -
  have "command_outcome (take n (EncodeCommand c) @ drop n (EncodeCommand c)) = Done c (length (EncodeCommand c))"
    using ParseCommand_encode [OF assms(4), of "[]"] by (simp add: outcome_Complete)
  from rc.strict_prefix_More [OF this] assms(5) have "command_outcome (take n (EncodeCommand c)) = More" by simp
  with assms(3) have "rc.drain (concat (map EncodeCommand cmds) @ take n (EncodeCommand c)) = (cmds, None, take n (EncodeCommand c))"
    by (rule drain_encoded)
  from ReadDone_serve [OF assms(1,2) this assms(6,7)] serve_length [OF assms(7)] show ?thesis by blast
qed

definition demo_env :: Env where
  "demo_env = \<lparr>env_now = \<lambda>_. 0, env_dev = \<lambda>_. healthy, env_ord = \<lambda>xs. xs\<rparr>"

definition empty_database :: Database where
  "empty_database = (\<lparr>m_store = RadishStore_new (-1), m_persistence = None\<rparr>, Map.empty)"

theorem session_answers_requests_in_order_witness:
  "\<exists>j s' db'. Session_ReadDone (\<lambda>_. demo_env)
      (Some (concat (map EncodeCommand [[''ping''], [''DBSIZE'']]) @ take 5 (EncodeCommand [''QUIT''])))
      (Session_Start Session_new, empty_database) = (Inr j, (s', db')) \<and>
    m_output s' = [RespCodec_SimpleString ''PONG'', RespCodec_Integer 0]"
proof -
  let ?s = "Session_Start Session_new"
  have s: "m_input ?s = []" "\<not> m_closeAfterWrite ?s" "m_version ?s = Resp2" "m_output ?s = []"
    by (simp_all add: Session_Start_def Session_new_def)
  have ok: "list_all command_ok [[''ping''], [''DBSIZE'']]" "command_ok [''QUIT'']"
    by (simp_all add: command_ok_def kMaxArguments_def kMaxBulkLength_def)
  have up: "Uppercase ''ping'' = ''PING''" "Uppercase ''DBSIZE'' = ''DBSIZE''"
    by (simp_all add: Uppercase_def toupper_def char_of_eq_iff)
  have ping: "answer demo_env [''ping''] Resp2 empty_database = (Inr (RespCodec_SimpleString ''PONG'', False), Resp2, empty_database)"
    by (subst answer_handler [where h = HandlePing]) (simp_all add: up find_handlers HandlePing_def)
  have size: "answer demo_env [''DBSIZE''] Resp2 empty_database = (Inr (RespCodec_Integer 0, False), Resp2, empty_database)"
    by (subst answer_handler [where h = HandleDatabaseSize])
      (simp_all add: up find_handlers HandleDatabaseSize_def empty_database_def RadishDB_Size_def RadishStore_Size_def RadishStore_new_def demo_env_def)
  have "serve (\<lambda>_. demo_env) 0 [[''ping''], [''DBSIZE'']] (m_version ?s) empty_database =
      Inr ([RespCodec_SimpleString ''PONG'', RespCodec_Integer 0], False, Resp2, empty_database)"
    by (simp add: ping size s)
  from session_answers_requests_in_order [OF s(1,2) ok _ _ this, of 5] s(4) show ?thesis
    by (force simp: EncodeCommand_def to_string_nat.simps kMaxBufferedInput_def)
qed


text \<open>
  (C15) How the network cuts the byte stream does not matter: processing two pieces one after the
  other is processing them at once, with the same replies, database, protocol version and
  left-over bytes, as long as the first piece does not close the session.
\<close>

theorem fragmentation_is_invisible:
  assumes "Session_Process envs i (s, db) = (Inr j, (s', db'))" and "\<not> m_closeAfterWrite s'"
  shows "Session_Process envs j (s'\<lparr>m_input := m_input s' @ piece\<rparr>, db') =
    Session_Process envs i (s\<lparr>m_input := m_input s @ piece\<rparr>, db)"
  using Process_append [OF assms] by simp

theorem fragmentation_is_invisible_witness:
  "\<exists>j s'. m_output s' = [RespCodec_SimpleString ''PONG''] \<and>
     Session_Process (\<lambda>_. demo_env) j (s'\<lparr>m_input := m_input s' @ EncodeCommand [''PING'']\<rparr>, empty_database) =
     Session_Process (\<lambda>_. demo_env) 0
       (Session_new\<lparr>m_input := (EncodeCommand [''PING''] @ ''*1'') @ EncodeCommand [''PING'']\<rparr>, empty_database)"
proof -
  let ?s = "Session_new\<lparr>m_input := EncodeCommand [''PING''] @ ''*1''\<rparr>"
  have "ParseCommand ''*1'' = Inr parse_more"
    by (simp add: ParseCommand_def ParseNumber_def sv_find_crlf_def sv_at_def)
  then have "command_outcome ''*1'' = More" by (simp add: outcome_More parse_more_def)
  then have d: "rc.drain (m_input ?s) = ([[''PING'']], None, ''*1'')"
    using drain_encoded [of "[[''PING'']]" "''*1''"] by (simp add: command_ok_def kMaxArguments_def kMaxBulkLength_def)
  have "Uppercase ''PING'' = ''PING''" by (simp add: Uppercase_def toupper_def)
  then have "answer demo_env [''PING''] Resp2 empty_database = (Inr (RespCodec_SimpleString ''PONG'', False), Resp2, empty_database)"
    by (subst answer_handler [where h = HandlePing]) (simp_all add: find_handlers HandlePing_def)
  then have sv: "serve (\<lambda>_. demo_env) 0 [[''PING'']] (m_version ?s) empty_database =
      Inr ([RespCodec_SimpleString ''PONG''], False, Resp2, empty_database)"
    by (simp add: Session_new_def)
  have "\<not> m_closeAfterWrite ?s" by (simp add: Session_new_def)
  from Process_serve [OF this d sv] obtain j s' where
    p: "Session_Process (\<lambda>_. demo_env) 0 (?s, empty_database) = (Inr j, (s', empty_database))" "\<not> m_closeAfterWrite s'"
      "m_output s' = [RespCodec_SimpleString ''PONG'']"
    by (auto simp: error_reply_def Session_new_def)
  from fragmentation_is_invisible [OF p(1,2), of "EncodeCommand [''PING'']"] p(3) show ?thesis by auto
qed

text \<open>
  (C16) In every reachable state of a session, whatever the order and outcome of its reads and
  writes: the bytes sent are a prefix of the replies in the order in which they were queued; as
  long as no write failed the rest of them is in the output queue and a write is outstanding
  exactly when the queue is not empty, so there is never a second write and never a read of an
  empty queue; and the socket is closed only after everything was sent and closing was asked for.
\<close>

theorem session_sends_replies_in_order:
  assumes "session_reach s replies failed"
  shows "(\<exists>rest. concat replies = sk_sent s @ rest) \<and>
    (\<not> failed \<longrightarrow> sk_sent s @ concat (m_output s) = concat replies \<and> (sk_writing s \<longleftrightarrow> m_output s \<noteq> [])) \<and>
    (failed \<longrightarrow> \<not> sk_writing s) \<and>
    (\<not> sk_open s \<longrightarrow> m_closeAfterWrite s \<and> sk_sent s = concat replies) \<and>
    (sk_reading s \<longrightarrow> \<not> m_closeAfterWrite s)"
  using session_reach_inv [OF assms] unfolding session_inv_def by auto

theorem session_sends_replies_in_order_witness:
  "\<exists>s replies. session_reach s replies False \<and> \<not> sk_open s \<and> sk_sent s = concat replies \<and>
     replies = [RespCodec_Error ''Protocol error: expected an array request'']"
proof -
  let ?err = "RespCodec_Error ''Protocol error: expected an array request''"
  let ?s0 = "Session_Start Session_new"
  let ?s1 = "Session_Queue ?err True (?s0\<lparr>sk_reading := False, m_input := ''GET''\<rparr>)"
  have "ParseCommand ''GET'' = Inr (parse_error ''Protocol error: expected an array request'')"
    by (simp add: ParseCommand_def sv_at_def)
  then have "Session_ReadDone (\<lambda>_. demo_env) (Some ''GET'') (?s0, empty_database) = (Inr 0, (?s1, empty_database))"
    by (simp add: Session_ReadDone_def Session_Start_def Session_new_def kMaxBufferedInput_def Session_Process.simps parse_error_def)
  from session_reach.read [OF session_reach.start _ _ this] have r: "session_reach ?s1 [?err] False"
    by (simp add: Session_Start_def Session_new_def)
  have w: "sk_writing ?s1" by (simp add: Session_Start_def Session_new_def)
  note r2 = session_reach.written [OF r w]
  have closed: "\<not> sk_open (Session_WriteDone None ?s1)"
    by (simp add: Session_WriteDone_def Session_Start_def Session_new_def)
  from session_sends_replies_in_order [OF r2] closed have "sk_sent (Session_WriteDone None ?s1) = concat [?err]" by blast
  with r2 closed show ?thesis by blast
qed

text \<open>
  The reading commands answer from the map of acknowledged writes: \<^verbatim>\<open>GET\<close> with the value
  or the null of the protocol version, \<^verbatim>\<open>EXISTS\<close> with the number of its arguments that are
  present (counting repetitions), \<^verbatim>\<open>DBSIZE\<close> with the number of keys and \<^verbatim>\<open>KEYS *\<close> with
  every key once; none of them changes the database or the session.
\<close>

lemma reading_commands_answer_from_map:
  assumes "db_reach std_string filename (db, fs) m" and "iteration_order (env_ord env)" and "keys \<noteq> []"
  shows "answer env [''GET'', key] v (db, fs) = (Inr (RespCodec_BulkString (m key) v, False), v, (db, fs)) \<and>
    answer env (''EXISTS'' # keys) v (db, fs) =
      (Inr (RespCodec_Integer (int (length (filter (\<lambda>k. m k \<noteq> None) keys))), False), v, (db, fs)) \<and>
    answer env [''DBSIZE''] v (db, fs) = (Inr (RespCodec_Integer (int (card (dom m))), False), v, (db, fs)) \<and>
    (\<exists>ks. answer env [''KEYS'', ''*''] v (db, fs) = (Inr (RespCodec_Array ks v, False), v, (db, fs)) \<and>
       set ks = dom m \<and> distinct ks)"
proof (intro conjI)
  note reads = db_reach_reads [OF assms(1)] and scan = db_reach_scan [OF assms(1,2)]
  have up: "Uppercase ''GET'' = ''GET''" "Uppercase ''EXISTS'' = ''EXISTS''" "Uppercase ''DBSIZE'' = ''DBSIZE''"
    "Uppercase ''KEYS'' = ''KEYS''" by (simp_all add: Uppercase_def toupper_def)
  show "answer env [''GET'', key] v (db, fs) = (Inr (RespCodec_BulkString (m key) v, False), v, (db, fs))"
    by (subst answer_handler [where h = HandleGet]) (simp_all add: up find_handlers HandleGet_def reads)
  show "answer env (''EXISTS'' # keys) v (db, fs) =
      (Inr (RespCodec_Integer (int (length (filter (\<lambda>k. m k \<noteq> None) keys))), False), v, (db, fs))"
    by (subst answer_handler [where h = HandleExists])
      (use assms(3) in \<open>simp_all add: up find_handlers HandleExists_def Exists_loop_count [OF reads(2)] Suc_le_eq\<close>)
  show "answer env [''DBSIZE''] v (db, fs) = (Inr (RespCodec_Integer (int (card (dom m))), False), v, (db, fs))"
    by (subst answer_handler [where h = HandleDatabaseSize]) (simp_all add: up find_handlers HandleDatabaseSize_def scan)
  show "\<exists>ks. answer env [''KEYS'', ''*''] v (db, fs) = (Inr (RespCodec_Array ks v, False), v, (db, fs)) \<and>
       set ks = dom m \<and> distinct ks"
    by (subst answer_handler [where h = HandleKeys])
      (simp_all add: up find_handlers HandleKeys_def scan exI [of _ "RadishDB_Scan (env_ord env) (env_now env) db"])
qed

text \<open>
  (C13) In every state of a database without a time to live that a run from an empty log has reached
  (no rename of a key onto itself, and after mutations that threw only if these left the log as it was),
  the writing commands implement their updates of the map, for all keys and values of a length that the
  parser lets through: when they answer at all, \<^verbatim>\<open>SET\<close> and \<^verbatim>\<open>FLUSHDB\<close> answer OK,
  \<^verbatim>\<open>DEL\<close> answers the number of distinct present keys it removed, \<^verbatim>\<open>RENAME\<close> onto a
  different key answers OK or that there is no such key, and the database afterwards is again in
  such a state, for the updated map.
\<close>

theorem writing_commands_update_map:
  assumes "db_reach std_string filename st m" and "length key \<le> kMaxBulkLength" and "length x \<le> kMaxBulkLength"
    and "keys \<noteq> []" and "list_all (\<lambda>k. length k \<le> kMaxBulkLength) keys"
  shows "(answer env [''SET'', key, x] v st = (Inr (reply, close), v', st') \<longrightarrow>
      reply = RespCodec_SimpleString ''OK'' \<and> db_reach std_string filename st' (m(key \<mapsto> x))) \<and>
    (answer env [''FLUSHDB''] v st = (Inr (reply, close), v', st') \<longrightarrow>
      reply = RespCodec_SimpleString ''OK'' \<and> db_reach std_string filename st' Map.empty) \<and>
    (answer env (''DEL'' # keys) v st = (Inr (reply, close), v', st') \<longrightarrow>
      reply = RespCodec_Integer (int (card (set keys \<inter> dom m))) \<and> db_reach std_string filename st' (m |` (- set keys))) \<and>
    (answer env [''RENAME'', key, x] v st = (Inr (reply, close), v', st') \<and> key \<noteq> x \<longrightarrow>
      (if m key = None then reply = RespCodec_Error ''no such key'' \<and> db_reach std_string filename st' m
       else reply = RespCodec_SimpleString ''OK'' \<and> db_reach std_string filename st' ((m(x := m key))(key := None))))"
proof -
  note rec = wire_records [OF assms(2,3)]
  have up: "Uppercase ''SET'' = ''SET''" "Uppercase ''FLUSHDB'' = ''FLUSHDB''" "Uppercase ''DEL'' = ''DEL''"
    "Uppercase ''RENAME'' = ''RENAME''" by (simp_all add: Uppercase_def toupper_def)
  have set: "reply = RespCodec_SimpleString ''OK'' \<and> db_reach std_string filename st' (m(key \<mapsto> x))"
    if "answer env [''SET'', key, x] v st = (Inr (reply, close), v', st')"
    using that answer_handler [of "''SET''" HandleSet env "[key, x]" v st] db_reach.create [OF assms(1) rec(1)]
    by (auto simp: up find_handlers HandleSet_def split: prod.splits sum.splits)
  have flush: "reply = RespCodec_SimpleString ''OK'' \<and> db_reach std_string filename st' Map.empty"
    if "answer env [''FLUSHDB''] v st = (Inr (reply, close), v', st')"
    using that answer_handler [of "''FLUSHDB''" HandleFlushDatabase env "[]" v st] db_reach.clear [OF assms(1)]
    by (auto simp: up find_handlers HandleFlushDatabase_def split: prod.splits sum.splits)
  have "\<forall>k \<in> set keys. record_ok std_string (delete_event k)"
    using assms(5) wire_records(3) by (auto simp: list_all_iff)
  note del = Delete_loop_reach [OF assms(1) this]
  have delete: "reply = RespCodec_Integer (int (card (set keys \<inter> dom m))) \<and> db_reach std_string filename st' (m |` (- set keys))"
    if "answer env (''DEL'' # keys) v st = (Inr (reply, close), v', st')"
    using that answer_handler [of "''DEL''" HandleDelete env keys v st] assms(4) del [of env 0 0]
    by (auto simp: up find_handlers HandleDelete_def Suc_le_eq split: prod.splits sum.splits)
  have rename: "if m key = None then reply = RespCodec_Error ''no such key'' \<and> db_reach std_string filename st' m
       else reply = RespCodec_SimpleString ''OK'' \<and> db_reach std_string filename st' ((m(x := m key))(key := None))"
    if a: "answer env [''RENAME'', key, x] v st = (Inr (reply, close), v', st') \<and> key \<noteq> x"
  proof -
    from a answer_handler [of "''RENAME''" HandleRename env "[key, x]" v st] obtain r where
      r: "RadishDB_Rename std_string (env_now env 0) (env_dev env 0) key x st = (Inr r, st')"
      and reply: "reply = (if \<not> r then RespCodec_Error ''no such key'' else RespCodec_SimpleString ''OK'')"
      by (auto simp: up find_handlers HandleRename_def split: prod.splits sum.splits)
    have "r \<longleftrightarrow> m key \<noteq> None"
      using Rename_result [OF assms(1) _ r] rec(2) by (simp add: record_ok_def)
    with db_reach.rename [OF assms(1) rec(2) _ r] a reply show ?thesis by auto
  qed
  from set flush delete rename show ?thesis by blast
qed

lemma reach_set:
  assumes "db_reach std_string filename st m" and "length key \<le> kMaxBulkLength" and "length x \<le> kMaxBulkLength"
  obtains st' where "answer demo_env [''SET'', key, x] v st = (Inr (RespCodec_SimpleString ''OK'', False), v, st')"
proof -
  obtain st' where "RadishDB_Create std_string 0 healthy key x st = (Inr (), st')"
    by (rule Create_healthy [OF db_reach_inv [OF assms(1)] wire_records(1) [OF assms(2,3)], of healthy 0])
      (simp_all add: writable_def healthy_def)
  moreover have "Uppercase ''SET'' = ''SET''" by (simp add: Uppercase_def toupper_def)
  ultimately show thesis
    using that answer_handler [of "''SET''" HandleSet demo_env "[key, x]" v st]
    by (simp add: find_handlers HandleSet_def demo_env_def)
qed

theorem writing_commands_update_map_witness:
  "\<exists>st st'. answer demo_env [''SET'', ''k'', ''w''] Resp2 st = (Inr (RespCodec_SimpleString ''OK'', False), Resp2, st') \<and>
     db_reach std_string ''db'' st' [''k'' \<mapsto> ''w'']"
proof -
  obtain db fs where r: "db_reach std_string ''db'' (db, fs) [''k'' \<mapsto> ''v'']" by (rule demo_reach)
  obtain st' where a: "answer demo_env [''SET'', ''k'', ''w''] Resp2 (db, fs) = (Inr (RespCodec_SimpleString ''OK'', False), Resp2, st')"
    by (rule reach_set [OF r, of "''k''" "''w''" Resp2]) (simp_all add: kMaxBulkLength_def)
  from writing_commands_update_map [OF r, of "''k''" "''w''" "[''k'']" demo_env Resp2 "RespCodec_SimpleString ''OK''" False Resp2 st'] a
  have "db_reach std_string ''db'' st' [''k'' \<mapsto> ''w'']" by (simp add: kMaxBulkLength_def)
  with a show ?thesis by blast
qed

text \<open>
  A database call that throws is not answered: the request is taken out of the buffer, no
  reply is queued, and the exception leaves the session (and with it the event loop of the
  server).
\<close>

lemma storage_failure_escapes_session:
  assumes "ParseCommand (m_input s) = Inr r" and "rp_status r = Complete" and "\<not> m_closeAfterWrite s"
    and "answer (envs i) (rp_arguments r) (m_version s) db = (Inl e, v, db')"
  shows "\<exists>s'. Session_Process envs i (s, db) = (Inl e, (s', db')) \<and> m_output s' = m_output s \<and>
    m_input s' = drop (rp_consumed r) (m_input s)"
proof -
  have "m_input s \<noteq> []" using assms(1,2) by (auto simp: ParseCommand_def parse_more_def)
  with assms show ?thesis by (subst Session_Process.simps) (simp add: Dispatch_answer)
qed

lemma storage_failure_escapes_session_witness:
  "\<exists>db e s' db'. Session_Process (\<lambda>_. demo_env\<lparr>env_dev := \<lambda>_. full_device\<rparr>) 0
      (Session_new\<lparr>m_input := EncodeCommand [''FLUSHDB'']\<rparr>, db) = (Inl e, (s', db')) \<and> m_output s' = []"
proof -
  let ?env = "demo_env\<lparr>env_dev := \<lambda>_. full_device\<rparr>" and ?s = "Session_new\<lparr>m_input := EncodeCommand [''FLUSHDB'']\<rparr>"
  obtain db fs where reach: "db_reach std_string ''db'' (db, fs) [''k'' \<mapsto> ''v'']" by (rule demo_reach)
  obtain err fs' where "RadishDB_Commit std_string 0 full_device clear_event (db, fs) = (Inl err, (db, fs'))"
    using clear_on_full_device [OF reach] .
  then have "RadishDB_Clear std_string 0 full_device (db, fs) = (Inl err, (db, fs'))"
    by (simp add: RadishDB_Clear_def)
  moreover have "Uppercase ''FLUSHDB'' = ''FLUSHDB''" by (simp add: Uppercase_def toupper_def)
  ultimately have a: "answer ?env [''FLUSHDB''] Resp2 (db, fs) = (Inl err, Resp2, (db, fs'))"
    using answer_handler [of "''FLUSHDB''" HandleFlushDatabase ?env "[]" Resp2 "(db, fs)"]
    by (simp add: find_handlers HandleFlushDatabase_def demo_env_def)
  have p: "ParseCommand (m_input ?s) = Inr \<lparr>rp_status = Complete, rp_arguments = [''FLUSHDB''],
      rp_consumed = length (EncodeCommand [''FLUSHDB'']), rp_error = ''''\<rparr>"
    using ParseCommand_encode [of "[''FLUSHDB'']" "[]"] by (simp add: command_ok_def kMaxArguments_def kMaxBulkLength_def)
  have s: "m_version ?s = Resp2" "\<not> m_closeAfterWrite ?s" "m_output ?s = []" by (simp_all add: Session_new_def)
  obtain s' where "Session_Process (\<lambda>_. ?env) 0 (?s, (db, fs)) = (Inl err, (s', (db, fs')))" "m_output s' = m_output ?s"
    using storage_failure_escapes_session [OF p _ s(2), of "\<lambda>_. ?env" 0 "(db, fs)" err Resp2 "(db, fs')"] a s(1) by auto
  with s(3) show ?thesis by metis
qed

text \<open>
  The acceptor: while the server is not stopped an accept is outstanding, so every
  connection attempt is served; once stopped the listening socket is closed, no accept is
  started again, and stopping twice is stopping once.
\<close>

lemma server_accepts_until_stopped:
  assumes "server_reach sv"
  shows "(\<not> m_stopped sv \<longrightarrow> ac_accepting sv \<and> ac_open sv) \<and>
    (m_stopped sv \<longrightarrow> \<not> ac_open sv \<and> \<not> ac_accepting (TcpServer_AcceptDone error sv) \<and> TcpServer_Start sv = sv) \<and>
    m_stopped (TcpServer_Stop sv) \<and> TcpServer_Stop (TcpServer_Stop sv) = TcpServer_Stop sv"
  using server_reach_inv [OF assms]
  by (auto simp: TcpServer_AcceptDone_def TcpServer_Start_def TcpServer_Accept_def TcpServer_Stop_def Let_def)

end
