(* ===== verification/Resp_Client.thy ===== *)
theory Resp_Client
  imports Tcp_Server
begin

text \<open>
  \<^verbatim>\<open>benchmarks/RadishBench.cpp\<close>: the client side of the protocol, \<^verbatim>\<open>RespConnection\<close>, and the
  generation of keys and commands. A connection is the list of bytes that the server will have
  sent; reading past its end is the exception of a closed connection. The draws of the random
  generator are arguments.

  Shown here: the client reads exactly one reply of the server at a time, whatever the reply
  contains, so that a pipeline of requests and the list of its replies stay in step.
\<close>

section \<open>Numbers in text\<close>

definition isspace :: "char \<Rightarrow> bool" where
  "isspace c \<longleftrightarrow> c \<in> {CHR '' '', CHR 0x09, CHR 0x0A, CHR 0x0B, CHR 0x0C, CHR 0x0D}"

text \<open>\<^verbatim>\<open>std::stoll\<close>: blanks, a sign, and digits; what follows the digits is ignored.\<close>

definition stoll :: "string \<Rightarrow> int result" where
  "stoll s =
     (let s1 = dropWhile isspace s;
          minus = (s1 \<noteq> [] \<and> hd s1 = CHR ''-'');
          s2 = (if s1 \<noteq> [] \<and> (hd s1 = CHR ''-'' \<or> hd s1 = CHR ''+'') then tl s1 else s1);
          ds = takeWhile is_digit s2;
          v = (if minus then - int (decimal_value ds) else int (decimal_value ds))
      in if ds = [] then Inl (InvalidArgument ''stoll'')
         else if v < - (2 ^ 63) \<or> v \<ge> 2 ^ 63 then Inl (OutOfRange ''stoll'')
         else Inr v)"

text \<open>
  \<^verbatim>\<open>std::stoul\<close> and \<^verbatim>\<open>std::stoull\<close>: blanks, a sign, and digits; what follows is ignored, and a
  minus negates modulo the range of 64 bits.
\<close>

definition parse_unsigned :: "string \<Rightarrow> string \<Rightarrow> nat result" where
  "parse_unsigned name s =
     (let s1 = dropWhile isspace s;
          minus = (s1 \<noteq> [] \<and> hd s1 = CHR ''-'');
          s2 = (if s1 \<noteq> [] \<and> (hd s1 = CHR ''-'' \<or> hd s1 = CHR ''+'') then tl s1 else s1);
          ds = takeWhile is_digit s2;
          n = decimal_value ds
      in if ds = [] then Inl (InvalidArgument name)
         else if n \<ge> 2 ^ 64 then Inl (OutOfRange name)
         else Inr (if minus then (2 ^ 64 - n) mod 2 ^ 64 else n))"

section \<open>Reading replies\<close>

abbreviation eof_error :: error where
  "eof_error \<equiv> RuntimeError ''End of file''"

text \<open>
  \<^verbatim>\<open>read_until\<close> waits for the first CRLF; \<^verbatim>\<open>getline\<close> then reads up to the first LF, and the
  last character of the line is dropped.
\<close>

definition RespConnection_ReadLine :: "string \<Rightarrow> string result \<times> string" where
  "RespConnection_ReadLine s =
     (case crlf_index s of
        None \<Rightarrow> (Inl eof_error, s)
      | Some _ \<Rightarrow>
          let line = takeWhile (\<lambda>c. c \<noteq> LF) s;
              rest = drop (length line + 1) s
          in if line = [] then (Inl (UndefinedBehaviour ''pop_back of an empty string''), rest)
             else (Inr (butlast line), rest))"

definition RespConnection_ConsumeBytes :: "nat \<Rightarrow> string \<Rightarrow> unit result \<times> string" where
  "RespConnection_ConsumeBytes n s = (if length s < n then (Inl eof_error, s) else (Inr (), drop n s))"

fun read_elements :: "(string \<Rightarrow> bool result \<times> string) \<Rightarrow> nat \<Rightarrow> bool \<Rightarrow> string \<Rightarrow> bool result \<times> string" where
  "read_elements read1 0 success s = (Inr success, s)"
| "read_elements read1 (Suc n) success s =
     sbind (read1 s) (\<lambda>b s1. read_elements read1 n (b \<and> success) s1)"

text \<open>The first argument is the number of levels of nesting still allowed: 33 at depth 0.\<close>

primrec RespConnection_ReadResponse :: "nat \<Rightarrow> string \<Rightarrow> bool result \<times> string" where
  "RespConnection_ReadResponse 0 s = (Inl (RuntimeError ''RESP response nesting limit exceeded''), s)"
| "RespConnection_ReadResponse (Suc levels) s =
     sbind (RespConnection_ReadLine s) (\<lambda>line s1.
       if line = [] then (Inl (RuntimeError ''Empty RESP response''), s1)
       else if hd line = CHR ''-'' then (Inr False, s1)
       else if hd line \<in> {CHR ''+'', CHR '':'', CHR ''_'', CHR ''#''} then (Inr True, s1)
       else if hd line = CHR ''$''
       then sbind (stoll (tl line), s1) (\<lambda>len s1.
              if len \<ge> 0 then sbind (RespConnection_ConsumeBytes (nat len + 2) s1) (\<lambda>_ s2. (Inr True, s2))
              else (Inr True, s1))
       else if hd line = CHR ''*'' \<or> hd line = CHR ''%''
       then sbind (stoll (tl line), s1) (\<lambda>cnt s1.
              if cnt < 0 then (Inr True, s1)
              else read_elements (RespConnection_ReadResponse levels)
                     (nat (if hd line = CHR ''%'' then cnt * 2 else cnt)) True s1)
       else (Inl (RuntimeError ''Unsupported RESP response type''), s1))"

fun RespConnection_ReadResponses :: "nat \<Rightarrow> string \<Rightarrow> bool list result \<times> string" where
  "RespConnection_ReadResponses 0 s = (Inr [], s)"
| "RespConnection_ReadResponses (Suc n) s =
     sbind (RespConnection_ReadResponse 33 s) (\<lambda>b s1.
     sbind (RespConnection_ReadResponses n s1) (\<lambda>bs s2. (Inr (b # bs), s2)))"

text \<open>The bytes of a pipeline of requests.\<close>

definition RespConnection_pipeline :: "string list list \<Rightarrow> string" where
  "RespConnection_pipeline commands = foldl (\<lambda>request command. request @ EncodeCommand command) [] commands"

section \<open>Lemmas: lines and elements\<close>

lemma stoll_nat:
  assumes "n < 2 ^ 63"
  shows "stoll (to_string_nat n) = Inr (int n)"
proof -
  have d: "is_digit (hd (to_string_nat n))"
    using to_string_nat_digits [of n] hd_in_set [OF to_string_nat_nonempty] by blast
  then have "\<not> isspace (hd (to_string_nat n))" "hd (to_string_nat n) \<noteq> CHR ''-''" "hd (to_string_nat n) \<noteq> CHR ''+''"
    by (auto simp: isspace_def is_digit_def)
  moreover from this(1) have "dropWhile isspace (to_string_nat n) = to_string_nat n"
    by (cases "to_string_nat n") auto
  ultimately show ?thesis
    using assms by (simp add: stoll_def Let_def takeWhile_digits)
qed

lemma ReadLine_clean:
  assumes "LF \<notin> set line" and "CR \<notin> set line"
  shows "RespConnection_ReadLine (line @ CR # LF # rest) = (Inr line, rest)"
proof -
  have "takeWhile (\<lambda>c. c \<noteq> LF) (line @ CR # LF # rest) = line @ [CR]"
    using assms(1) by (auto simp: takeWhile_append)
  then show ?thesis
    by (simp add: RespConnection_ReadLine_def crlf_index_skip [OF assms(2)] Let_def)
qed

lemma lf_not_in_to_string [simp]: "LF \<notin> set (to_string_nat n)"
  using to_string_nat_digits by (fastforce simp: is_digit_def)

lemma clean_to_string_int [simp]: "LF \<notin> set (to_string_int i)" "CR \<notin> set (to_string_int i)"
  by (simp_all add: to_string_int_def)

lemma ReadLine_number:
  "c \<noteq> CR \<Longrightarrow> c \<noteq> LF \<Longrightarrow> RespConnection_ReadLine (c # to_string_nat n @ CR # LF # rest) = (Inr (c # to_string_nat n), rest)"
  using ReadLine_clean [of "c # to_string_nat n" rest] by simp

lemma read_simple:
  "RespConnection_ReadResponse (Suc d) (RespCodec_SimpleString v @ rest) = (Inr True, rest)"
  using ReadLine_clean [of "''+'' @ SanitizeSimpleValue v" rest] sanitize_clean [of v]
  by (simp add: RespCodec_SimpleString_def)

lemma read_error:
  "RespConnection_ReadResponse (Suc d) (RespCodec_Error v @ rest) = (Inr False, rest)"
  using ReadLine_clean [of "''-ERR '' @ SanitizeSimpleValue v" rest] sanitize_clean [of v]
  by (simp add: RespCodec_Error_def)

lemma read_integer:
  "RespConnection_ReadResponse (Suc d) (RespCodec_Integer i @ rest) = (Inr True, rest)"
  using ReadLine_clean [of "'':'' @ to_string_int i" rest]
  by (simp add: RespCodec_Integer_def)

lemma read_bulk:
  assumes "\<And>x. v = Some x \<Longrightarrow> length x < 2 ^ 63"
  shows "RespConnection_ReadResponse (Suc d) (RespCodec_BulkString v version @ rest) = (Inr True, rest)"
proof (cases v)
  case None
  have "stoll ''-1'' = Inr (- 1)"
    by (simp add: stoll_def isspace_def is_digit_def decimal_value_def digit_value_def)
  with None ReadLine_clean [of "''$-1''" rest] ReadLine_clean [of "''_''" rest] show ?thesis
    by (simp add: RespCodec_BulkString_def)
next
  case (Some x)
  with assms show ?thesis
    by (simp add: RespCodec_BulkString_def ReadLine_number stoll_nat RespConnection_ConsumeBytes_def)
qed

lemma read_elements_all:
  assumes "\<And>x rest. x \<in> set xs \<Longrightarrow> read1 (x @ rest) = (Inr True, rest)"
  shows "read_elements read1 (length xs) success (concat xs @ rest) = (Inr success, rest)"
  using assms by (induction xs arbitrary: success) simp_all

lemma Array_eq:
  "RespCodec_Array values version = ''*'' @ to_string_nat (length values) @ CRLF @ concat (map (\<lambda>v. RespCodec_BulkString (Some v) Resp2) values)"
  unfolding RespCodec_Array_def by (simp add: foldl_append_concat)

lemma read_array:
  assumes "length values < 2 ^ 63" and "\<forall>x \<in> set values. length x < 2 ^ 63"
  shows "RespConnection_ReadResponse (Suc (Suc d)) (RespCodec_Array values version @ rest) = (Inr True, rest)"
proof -
  have "read_elements (RespConnection_ReadResponse (Suc d)) (length (map (\<lambda>v. RespCodec_BulkString (Some v) Resp2) values)) True
      (concat (map (\<lambda>v. RespCodec_BulkString (Some v) Resp2) values) @ rest) = (Inr True, rest)"
    by (rule read_elements_all) (use assms(2) in \<open>auto intro!: read_bulk simp del: RespConnection_ReadResponse.simps\<close>)
  with assms(1) show ?thesis
    by (simp add: Array_eq ReadLine_number stoll_nat RespConnection_ReadResponse.simps(2) [of "Suc d"]
        del: RespConnection_ReadResponse.simps)
qed


text \<open>The greeting in both versions.\<close>

lemma Hello_Resp3_eq:
  "RespCodec_Hello Resp3 = ''%6'' @ CRLF @ concat (map (\<lambda>v. RespCodec_BulkString (Some v) Resp3) (butlast (hello_values Resp3)) @ [''*0'' @ CRLF])"
proof -
  have "Hello_loop Resp3 (hello_values Resp3) 12 0 (''%6'' @ CRLF) =
      ''%6'' @ CRLF @ concat (map (\<lambda>v. RespCodec_BulkString (Some v) Resp3) (butlast (butlast (hello_values Resp3))))"
    by (simp add: hello_values_def eval_nat_numeral)
  then show ?thesis by (simp add: RespCodec_Hello_def hello_values_def)
qed

lemma read_hello:
  "RespConnection_ReadResponse (Suc (Suc d)) (RespCodec_Hello version @ rest) = (Inr True, rest)"
proof (cases version)
  case Resp2
  have "length (hello_values Resp2) < 2 ^ 63" "\<forall>x \<in> set (hello_values Resp2). length x < 2 ^ 63"
    by (simp_all add: hello_values_def)
  with Resp2 show ?thesis by (simp add: RespCodec_Hello_def read_array del: RespConnection_ReadResponse.simps)
next
  case Resp3
  define xs where "xs = map (\<lambda>v. RespCodec_BulkString (Some v) Resp3) (butlast (hello_values Resp3)) @ [''*0'' @ CRLF]"
  have empty: "RespConnection_ReadResponse (Suc d) ((''*0'' @ CRLF) @ r) = (Inr True, r)" for r
  proof -
    have "stoll ''0'' = Inr 0" by (simp add: stoll_def isspace_def is_digit_def decimal_value_def digit_value_def)
    with ReadLine_clean [of "''*0''" r] show ?thesis by simp
  qed
  have bulk: "RespConnection_ReadResponse (Suc d) (RespCodec_BulkString (Some v) Resp3 @ r) = (Inr True, r)"
    if "v \<in> set (hello_values Resp3)" for v r
    by (rule read_bulk) (use that in \<open>auto simp: hello_values_def\<close>)
  have "read_elements (RespConnection_ReadResponse (Suc d)) (length xs) True (concat xs @ rest) = (Inr True, rest)"
    by (rule read_elements_all)
      (use bulk empty in \<open>auto simp: xs_def simp del: RespConnection_ReadResponse.simps dest: in_set_butlastD\<close>)
  moreover have "length xs = 12" by (simp add: xs_def hello_values_def)
  moreover have "stoll ''6'' = Inr 6" by (simp add: stoll_def isspace_def is_digit_def decimal_value_def digit_value_def)
  moreover have "RespConnection_ReadLine (''%6'' @ CRLF @ concat xs @ rest) = (Inr ''%6'', concat xs @ rest)"
    using ReadLine_clean [of "''%6''" "concat xs @ rest"] by simp
  ultimately show ?thesis
    unfolding Resp3 Hello_Resp3_eq xs_def [symmetric]
    by (simp add: RespConnection_ReadResponse.simps(2) [of "Suc d"] del: RespConnection_ReadResponse.simps)
qed

section \<open>Every reply of the server is readable\<close>

definition reply_ok :: "string \<Rightarrow> bool" where
  "reply_ok r \<longleftrightarrow> (\<exists>b. \<forall>rest. RespConnection_ReadResponse 33 (r @ rest) = (Inr b, rest))"

lemma reply_okI: "(\<And>d rest. RespConnection_ReadResponse (Suc (Suc d)) (r @ rest) = (Inr b, rest)) \<Longrightarrow> reply_ok r"
  unfolding reply_ok_def by (rule exI [of _ b]) (simp only: eval_nat_numeral simp_thms)

lemma reply_ok_line [simp]:
  "reply_ok (RespCodec_SimpleString v)" "reply_ok (RespCodec_Error v)" "reply_ok (RespCodec_Integer i)"
  "reply_ok (RespCodec_Hello version)" "reply_ok (fst (WrongArity name))"
  unfolding WrongArity_def fst_conv
  by (rule reply_okI, rule read_simple, rule reply_okI, rule read_error, rule reply_okI, rule read_integer,
      rule reply_okI, rule read_hello, rule reply_okI, rule read_error)

lemma length_bulk: "length x \<le> length (RespCodec_BulkString (Some x) version)"
  by (simp add: RespCodec_BulkString_def)

lemma reply_ok_bulk:
  assumes "length (RespCodec_BulkString v version) < 2 ^ 63"
  shows "reply_ok (RespCodec_BulkString v version)"
proof (rule reply_okI, rule read_bulk)
  show "length x < 2 ^ 63" if "v = Some x" for x
    using assms that length_bulk [of x version] by simp
qed

lemma length_concat_ge: "\<forall>x \<in> set xs. f x \<le> length (g x) \<Longrightarrow> x \<in> set xs \<Longrightarrow> f x \<le> length (concat (map g xs))"
  by (induction xs) (auto simp: trans_le_add2 trans_le_add1)

lemma reply_ok_array:
  assumes "length (RespCodec_Array values version) < 2 ^ 63"
  shows "reply_ok (RespCodec_Array values version)"
proof (rule reply_okI, rule read_array)
  let ?body = "concat (map (\<lambda>v. RespCodec_BulkString (Some v) Resp2) values)"
  have body: "length ?body < 2 ^ 63" using assms by (simp add: Array_eq)
  have "length xs \<le> length (concat (map (\<lambda>v. RespCodec_BulkString (Some v) Resp2) xs))" for xs :: "string list"
    by (induction xs) (simp_all add: RespCodec_BulkString_def)
  from this [of "values"] body show "length values < 2 ^ 63" by linarith
  show "\<forall>x \<in> set values. length x < 2 ^ 63"
  proof
    fix x assume "x \<in> set values"
    with length_concat_ge [of "values" length "\<lambda>v. RespCodec_BulkString (Some v) Resp2" x] length_bulk body
    show "length x < 2 ^ 63" by (meson order_le_less_trans)
  qed
qed

lemma answer_reply_ok:
  assumes "answer env args v db = (Inr (reply, close), v', db')" and "length reply < 2 ^ 63"
  shows "reply_ok reply"
proof -
  have wrong: "WrongArity name = (reply, close) \<Longrightarrow> reply_ok reply" for name
    using reply_ok_line(5) [of name] by simp
  have "reply_ok reply" if "(name, h) \<in> set CommandHandlers" "h env args nm (s, db) = (Inr (reply, close), st)" for name nm h s st
    using that assms(2) wrong
    by (auto simp: CommandHandlers_def handler_defs reply_ok_bulk reply_ok_array split: if_splits prod.splits sum.splits)
  with assms(1) show ?thesis
    by (auto simp: answer_def Session_Dispatch_def Let_def umap_find_def split: if_splits option.splits prod.splits dest: map_of_SomeD)
qed


lemma serve_replies_ok:
  "serve envs i cmds v db = Inr (rs, closed, v', db') \<Longrightarrow> list_all (\<lambda>r. length r < 2 ^ 63) rs \<Longrightarrow> list_all reply_ok rs"
proof (induction cmds arbitrary: i v db rs)
  case (Cons c cs)
  obtain x v1 db1 where a: "answer (envs i) c v db = (x, v1, db1)" by (rule prod_cases3)
  with Cons.prems(1) obtain response close where x: "x = Inr (response, close)" by (cases x) auto
  with Cons.prems a have "reply_ok response" using answer_reply_ok [of "envs i" c v db response close v1 db1]
    by (auto simp: result_simps split: if_splits)
  with Cons a x show ?case by (cases db1) (auto simp: result_simps split: if_splits)
qed simp

lemma read_responses:
  "list_all reply_ok rs \<Longrightarrow> \<exists>flags. RespConnection_ReadResponses (length rs) (concat rs @ rest) = (Inr flags, rest) \<and> length flags = length rs"
proof (induction rs)
  case (Cons r rs)
  then obtain flags b where "RespConnection_ReadResponses (length rs) (concat rs @ rest) = (Inr flags, rest)" "length flags = length rs"
    "\<And>rest. RespConnection_ReadResponse 33 (r @ rest) = (Inr b, rest)"
    by (auto simp: reply_ok_def)
  then show ?case by simp
qed simp

lemma pipeline_eq: "RespConnection_pipeline cmds = concat (map EncodeCommand cmds)"
  unfolding RespConnection_pipeline_def by (simp add: foldl_append_concat)

section \<open>Properties\<close>

text \<open>
  (C19) The client and the server stay in step: when a client sends a pipeline of requests, the
  session queues their replies, and the client, reading as many replies as it sent requests,
  finds exactly one per request and leaves whatever the server sends afterwards unread, whatever
  bytes the keys, the values and the messages contain.
\<close>

theorem pipeline_stays_in_step:
  assumes "list_all command_ok cmds" and "length (RespConnection_pipeline cmds) \<le> kMaxBufferedInput"
    and "m_input s = []" and "\<not> m_closeAfterWrite s"
    and "serve envs 0 cmds (m_version s) db = Inr (replies, False, v, db')"
    and "list_all (\<lambda>r. length r < 2 ^ 63) replies"
  shows "\<exists>j s' flags. Session_ReadDone envs (Some (RespConnection_pipeline cmds)) (s, db) = (Inr j, (s', db')) \<and>
    m_output s' = m_output s @ replies \<and> m_input s' = [] \<and>
    RespConnection_ReadResponses (length cmds) (concat replies @ later) = (Inr flags, later) \<and> length flags = length cmds"
proof -
  have "rc.drain (RespConnection_pipeline cmds) = (cmds, None, [])"
    using drain_encoded [OF assms(1) rc.parse_Nil] by (simp add: pipeline_eq)
  from ReadDone_serve [OF assms(3,4) this assms(2,5)] obtain j s' where
    s': "Session_ReadDone envs (Some (RespConnection_pipeline cmds)) (s, db) = (Inr j, (s', db'))"
      "m_output s' = m_output s @ replies" "m_input s' = []" by blast
  have "length replies = length cmds" using serve_length [OF assms(5)] by simp
  with read_responses [OF serve_replies_ok [OF assms(5,6)], of later] s' show ?thesis by auto
qed

theorem pipeline_stays_in_step_witness:
  "\<exists>j s' db' flags. Session_ReadDone (\<lambda>_. demo_env) (Some (RespConnection_pipeline [[''NOPE'', CRLF]])) (Session_new, empty_database) =
      (Inr j, (s', db')) \<and>
    RespConnection_ReadResponses 1 (concat (m_output s') @ ''+OK'') = (Inr flags, ''+OK'') \<and> length flags = 1"
proof -
  let ?r = "RespCodec_Error (''unknown command '' @ [CHR 0x27] @ ''NOPE'' @ [CHR 0x27])"
  have "answer demo_env [''NOPE'', CRLF] Resp2 empty_database = (Inr (?r, False), Resp2, empty_database)"
    by (simp add: answer_def Session_Dispatch_def Uppercase_def toupper_def CommandHandlers_def umap_find_def Session_new_def)
  then have sv: "serve (\<lambda>_. demo_env) 0 [[''NOPE'', CRLF]] (m_version Session_new) empty_database = Inr ([?r], False, Resp2, empty_database)"
    by (simp add: Session_new_def)
  have "list_all command_ok [[''NOPE'', CRLF]]"
    by (simp add: command_ok_def kMaxArguments_def kMaxBulkLength_def)
  moreover have "length (RespConnection_pipeline [[''NOPE'', CRLF]]) \<le> kMaxBufferedInput"
    by (simp add: RespConnection_pipeline_def EncodeCommand_def to_string_nat.simps kMaxBufferedInput_def)
  ultimately have "\<exists>j s' flags. Session_ReadDone (\<lambda>_. demo_env) (Some (RespConnection_pipeline [[''NOPE'', CRLF]])) (Session_new, empty_database) =
      (Inr j, (s', empty_database)) \<and>
    m_output s' = m_output Session_new @ [?r] \<and> m_input s' = [] \<and>
    RespConnection_ReadResponses (length [[''NOPE'', CRLF]]) (concat [?r] @ ''+OK'') = (Inr flags, ''+OK'') \<and> length flags = length [[''NOPE'', CRLF]]"
    by (rule pipeline_stays_in_step [OF _ _ _ _ sv]) (simp_all add: Session_new_def RespCodec_Error_def)
  then show ?thesis by (auto simp: Session_new_def simp del: RespConnection_ReadResponses.simps)
qed

end
