(* ===== verification/Kv_Spec.thy ===== *)
theory Kv_Spec
  imports Tcp_Server
begin

text \<open>
  The specification of the key-value service that the sessions of
  \<^verbatim>\<open>src/network/TcpServer.cpp\<close> offer: what a list of arguments asks for (\<open>classify\<close>), how a
  request changes the contents (\<open>spec_next\<close>), which replies it may get (\<open>spec_reply\<close>), the
  protocol version it leaves (\<open>spec_version\<close>) and whether it ends the session
  (\<open>spec_close\<close>). Contents are views: keys with values and expiries. The clock readings and
  the order of iteration that a request meets come from its \<open>Env\<close>.

  \<open>answer_classify\<close> shows that the table of handlers with their checks of arity and
  arguments is this classification followed by one group of database calls per request.
\<close>

section \<open>Requests\<close>

datatype Request =
    Reject string
  | Hello RespVersion
  | Ping
  | Echo string
  | Get string
  | Set string string
  | Del "string list"
  | Rename string string
  | Exists "string list"
  | Keys
  | DbSize
  | FlushDb
  | Quit

definition arity_message :: "string \<Rightarrow> string" where
  "arity_message name = ''wrong number of arguments for '' @ [CHR 0x27] @ name @ [CHR 0x27] @ '' command''"

definition classify_known :: "string \<Rightarrow> string list \<Rightarrow> Request" where
  "classify_known name rest =
     (if name = ''HELLO'' then
        (case rest of [v] \<Rightarrow> if v = ''2'' then Hello Resp2 else if v = ''3'' then Hello Resp3
                             else Reject ''NOPROTO unsupported protocol version''
         | _ \<Rightarrow> Reject (arity_message name))
      else if name = ''PING'' then (case rest of [] \<Rightarrow> Ping | [x] \<Rightarrow> Echo x | _ \<Rightarrow> Reject (arity_message name))
      else if name = ''GET'' then (case rest of [k] \<Rightarrow> Get k | _ \<Rightarrow> Reject (arity_message name))
      else if name = ''SET'' then (case rest of [k, x] \<Rightarrow> Set k x | _ \<Rightarrow> Reject (arity_message name))
      else if name = ''DEL'' then (if rest = [] then Reject (arity_message name) else Del rest)
      else if name = ''RENAME'' then (case rest of [a, b] \<Rightarrow> Rename a b | _ \<Rightarrow> Reject (arity_message name))
      else if name = ''EXISTS'' then (if rest = [] then Reject (arity_message name) else Exists rest)
      else if name = ''KEYS'' then
        (case rest of [p] \<Rightarrow> if p = ''*'' then Keys else Reject ''only KEYS * is supported''
         | _ \<Rightarrow> Reject (arity_message name))
      else if name = ''DBSIZE'' then (if rest = [] then DbSize else Reject (arity_message name))
      else if name = ''FLUSHDB'' then (if rest = [] then FlushDb else Reject (arity_message name))
      else if name = ''QUIT'' then (if rest = [] then Quit else Reject (arity_message name))
      else Reject (''unknown command '' @ [CHR 0x27] @ name @ [CHR 0x27]))"

definition classify :: "string list \<Rightarrow> Request" where
  "classify args = classify_known (Uppercase (hd args)) (tl args)"

section \<open>Effects and replies\<close>

definition expiry :: "Timestamp \<Rightarrow> Timestamp \<Rightarrow> Timestamp option" where
  "expiry ttl now = (if ttl = -1 then None else Some (now + ttl))"

definition spec_next :: "Timestamp \<Rightarrow> Env \<Rightarrow> Request \<Rightarrow> char list view \<Rightarrow> char list view" where
  "spec_next ttl env r w =
     (case r of
        Set k x \<Rightarrow> w(k \<mapsto> (x, expiry ttl (env_now env 0)))
      | Del ks \<Rightarrow> w |` (- set ks)
      | Rename a b \<Rightarrow> if view_get (env_now env 0) w a = None then w else view_move a b w
      | FlushDb \<Rightarrow> Map.empty
      | _ \<Rightarrow> w)"

text \<open>A list of the keys, each at most once, where a key may be left out or in if it expires meanwhile.\<close>

definition scan_ok :: "(nat \<Rightarrow> Timestamp) \<Rightarrow> char list view \<Rightarrow> string list \<Rightarrow> bool" where
  "scan_ok now w ks \<longleftrightarrow> distinct ks \<and> (\<forall>k \<in> set ks. \<exists>i. view_get (now i) w k \<noteq> None) \<and>
     (\<forall>k. (\<forall>i. view_get (now i) w k \<noteq> None) \<longrightarrow> k \<in> set ks)"

definition spec_reply :: "Env \<Rightarrow> Request \<Rightarrow> RespVersion \<Rightarrow> char list view \<Rightarrow> string \<Rightarrow> bool" where
  "spec_reply env r v w reply =
     (case r of
        Reject message \<Rightarrow> reply = RespCodec_Error message
      | Hello v' \<Rightarrow> reply = RespCodec_Hello v'
      | Ping \<Rightarrow> reply = RespCodec_SimpleString ''PONG''
      | Echo x \<Rightarrow> reply = RespCodec_BulkString (Some x) v
      | Get k \<Rightarrow> reply = RespCodec_BulkString (view_get (env_now env 0) w k) v
      | Set k x \<Rightarrow> reply = RespCodec_SimpleString ''OK''
      | Del ks \<Rightarrow> reply = RespCodec_Integer (int (card (set ks \<inter> dom w)))
      | Rename a b \<Rightarrow> reply = (if view_get (env_now env 0) w a = None then RespCodec_Error ''no such key''
                              else RespCodec_SimpleString ''OK'')
      | Exists ks \<Rightarrow> reply = RespCodec_Integer (int (length (filter (\<lambda>(i, k). view_get (env_now env i) w k \<noteq> None) (enumerate 0 ks))))
      | Keys \<Rightarrow> \<exists>ks. scan_ok (env_now env) w ks \<and> reply = RespCodec_Array ks v
      | DbSize \<Rightarrow> \<exists>ks. scan_ok (env_now env) w ks \<and> reply = RespCodec_Integer (int (length ks))
      | FlushDb \<Rightarrow> reply = RespCodec_SimpleString ''OK''
      | Quit \<Rightarrow> reply = RespCodec_SimpleString ''OK'')"

definition spec_version :: "Request \<Rightarrow> RespVersion \<Rightarrow> RespVersion" where
  "spec_version r v = (case r of Hello v' \<Rightarrow> v' | _ \<Rightarrow> v)"

definition spec_close :: "Request \<Rightarrow> bool" where
  "spec_close r = (case r of Quit \<Rightarrow> True | _ \<Rightarrow> False)"

text \<open>What a request that throws may have done: a deletion stops at the key whose record could not be written.\<close>

definition spec_failed :: "Request \<Rightarrow> char list view \<Rightarrow> char list view \<Rightarrow> bool" where
  "spec_failed r w w' =
     (case r of Del ks \<Rightarrow> \<exists>n < length ks. w' = w |` (- set (take n ks)) | _ \<Rightarrow> w' = w)"

section \<open>From handlers to requests\<close>

definition ok_reply :: "'a result \<times> Database \<Rightarrow> ('a \<Rightarrow> string) \<Rightarrow> RespVersion \<Rightarrow> CommandResult result \<times> RespVersion \<times> Database" where
  "ok_reply call reply v = (case call of (Inl e, st) \<Rightarrow> (Inl e, v, st) | (Inr x, st) \<Rightarrow> (Inr (reply x, False), v, st))"

definition perform :: "Env \<Rightarrow> Request \<Rightarrow> RespVersion \<Rightarrow> Database \<Rightarrow> CommandResult result \<times> RespVersion \<times> Database" where
  "perform env r v st =
     (case r of
        Reject message \<Rightarrow> (Inr (RespCodec_Error message, False), v, st)
      | Hello v' \<Rightarrow> (Inr (RespCodec_Hello v', False), v', st)
      | Ping \<Rightarrow> (Inr (RespCodec_SimpleString ''PONG'', False), v, st)
      | Echo x \<Rightarrow> (Inr (RespCodec_BulkString (Some x) v, False), v, st)
      | Get k \<Rightarrow> (Inr (RespCodec_BulkString (RadishDB_Get (env_now env 0) (fst st) k) v, False), v, st)
      | Set k x \<Rightarrow> ok_reply (RadishDB_Create std_string (env_now env 0) (env_dev env 0) k x st)
                    (\<lambda>_. RespCodec_SimpleString ''OK'') v
      | Del ks \<Rightarrow> ok_reply (Delete_loop env 0 ks 0 st) RespCodec_Integer v
      | Rename a b \<Rightarrow> ok_reply (RadishDB_Rename std_string (env_now env 0) (env_dev env 0) a b st)
                       (\<lambda>renamed. if \<not> renamed then RespCodec_Error ''no such key'' else RespCodec_SimpleString ''OK'') v
      | Exists ks \<Rightarrow> (Inr (RespCodec_Integer (Exists_loop env 0 ks 0 (fst st)), False), v, st)
      | Keys \<Rightarrow> (Inr (RespCodec_Array (RadishDB_Scan (env_ord env) (env_now env) (fst st)) v, False), v, st)
      | DbSize \<Rightarrow> (Inr (RespCodec_Integer (int (RadishDB_Size (env_ord env) (env_now env) (fst st))), False), v, st)
      | FlushDb \<Rightarrow> ok_reply (RadishDB_Clear std_string (env_now env 0) (env_dev env 0) st)
                    (\<lambda>_. RespCodec_SimpleString ''OK'') v
      | Quit \<Rightarrow> (Inr (RespCodec_SimpleString ''OK'', True), v, st))"

lemma answer_unknown:
  assumes "umap_find CommandHandlers (Uppercase n) = None"
  shows "answer env (n # args) v st =
    (Inr (RespCodec_Error (''unknown command '' @ [CHR 0x27] @ Uppercase n @ [CHR 0x27]), False), v, st)"
  using assms by (simp add: answer_def Session_Dispatch_def)

lemma WrongArity_message: "WrongArity name = (RespCodec_Error (arity_message name), False)"
  by (simp add: WrongArity_def arity_message_def)

lemma short_cases:
  obtains (zero) "xs = []" | (one) a where "xs = [a]" | (two) a b where "xs = [a, b]" | (more) a b c ys where "xs = a # b # c # ys"
  by (metis list.exhaust)

lemmas request_eval = perform_def ok_reply_def WrongArity_message classify_known_def

lemma perform_handler:
  assumes "umap_find CommandHandlers name = Some h"
  shows "(case h env (n # rest) name (Session_new\<lparr>m_version := v\<rparr>, st) of (r, (s, st1)) \<Rightarrow> (r, m_version s, st1)) =
    perform env (classify_known name rest) v st"
proof -
  from assms have "(name, h) \<in> set CommandHandlers" by (auto simp: umap_find_def dest: map_of_SomeD)
  then consider "(name, h) = (''HELLO'', HandleHello)" | "(name, h) = (''PING'', HandlePing)"
    | "(name, h) = (''GET'', HandleGet)" | "(name, h) = (''SET'', HandleSet)"
    | "(name, h) = (''DEL'', HandleDelete)" | "(name, h) = (''RENAME'', HandleRename)"
    | "(name, h) = (''EXISTS'', HandleExists)" | "(name, h) = (''KEYS'', HandleKeys)"
    | "(name, h) = (''DBSIZE'', HandleDatabaseSize)" | "(name, h) = (''FLUSHDB'', HandleFlushDatabase)"
    | "(name, h) = (''QUIT'', HandleQuit)"
    unfolding CommandHandlers_def list.set insert_iff empty_iff by (elim disjE FalseE)
  then show ?thesis
  proof cases
    case 1
    then show ?thesis by (cases rest rule: short_cases) (simp_all add: HandleHello_def request_eval split: prod.split)
  next
    case 2
    then show ?thesis by (cases rest rule: short_cases) (simp_all add: HandlePing_def request_eval)
  next
    case 3
    then show ?thesis by (cases rest rule: short_cases) (simp_all add: HandleGet_def request_eval split: prod.split)
  next
    case 4
    then show ?thesis by (cases rest rule: short_cases) (simp_all add: HandleSet_def request_eval split: prod.split sum.split)
  next
    case 5
    then show ?thesis by (cases rest rule: short_cases) (simp_all add: HandleDelete_def request_eval split: prod.split sum.split)
  next
    case 6
    then show ?thesis by (cases rest rule: short_cases) (simp_all add: HandleRename_def request_eval split: prod.split sum.split)
  next
    case 7
    then show ?thesis by (cases rest rule: short_cases) (simp_all add: HandleExists_def request_eval split: prod.split)
  next
    case 8
    then show ?thesis by (cases rest rule: short_cases) (simp_all add: HandleKeys_def request_eval split: prod.split)
  next
    case 9
    then show ?thesis by (cases rest rule: short_cases) (simp_all add: HandleDatabaseSize_def request_eval split: prod.split)
  next
    case 10
    then show ?thesis by (cases rest rule: short_cases) (simp_all add: HandleFlushDatabase_def request_eval split: prod.split sum.split)
  next
    case 11
    then show ?thesis by (cases rest rule: short_cases) (simp_all add: HandleQuit_def request_eval)
  qed
qed

lemma classify_unknown:
  assumes "umap_find CommandHandlers name = None"
  shows "classify_known name rest = Reject (''unknown command '' @ [CHR 0x27] @ name @ [CHR 0x27])"
  using assms by (auto simp: CommandHandlers_def umap_find_def classify_known_def split: if_splits)

lemma answer_classify:
  assumes "args \<noteq> []"
  shows "answer env args v st = perform env (classify args) v st"
proof -
  obtain n rest where args: "args = n # rest" using assms by (cases args) auto
  show ?thesis
  proof (cases "umap_find CommandHandlers (Uppercase n)")
    case None
    then show ?thesis
      by (simp add: args answer_unknown classify_def classify_unknown perform_def)
  next
    case (Some h)
    then show ?thesis
      by (simp add: args answer_handler classify_def perform_handler)
  qed
qed

end
