(* ===== verification/Recovery.thy ===== *)
theory Recovery
  imports Durability
begin

text \<open>
  Databases with any time to live, and restarts. A run applies the public mutations of
  \<^verbatim>\<open>include/RadishDB.h\<close> at whatever the clock reads. Its store is always the replay of its log
  at the clock readings of the opening and the commits; a restart replays the same log at later
  readings.

  Shown here: a restart restores the store exactly, if the log holds no rename or the database
  has no time to live, and the two ways in which a restart can differ: a rename is refused
  because its source has expired meanwhile, and keys written without a time to live are expired
  when the log is opened with one. Without persistence nothing is ever written.
\<close>

text \<open>
  No log, or a log without an unfinished record, such as a run of the database, a restart or a compaction leaves.
\<close>

definition clean_log :: "TType \<Rightarrow> string \<Rightarrow> RadishEvent list \<Rightarrow> FileSystem \<Rightarrow> bool" where
  "clean_log ty filename es fs \<longleftrightarrow>
     fs (log_name filename) = None \<and> es = [] \<or>
     fs (log_name filename) = Some (log_bytes ty es) \<and> list_all (record_ok ty) es"

text \<open>
  A run, with the reading of the clock at which each event of the log was applied: by the opening, when
  it was there before, and else by its commit. Commits that apply no event leave no record and no reading.
  A mutation that throws may leave a part of its record, and the run goes on only if it did not; a compaction
  that throws does no harm. One that succeeds ends the run, because the store keeps expired
  keys that the new log has lost; the next run can open that log.
\<close>

inductive db_run :: "TType \<Rightarrow> string \<Rightarrow> Timestamp \<Rightarrow> Timestamp list \<Rightarrow> RadishDB \<times> FileSystem \<Rightarrow> bool"
  for ty :: TType and filename :: string and ttl :: Timestamp where
  opens: "clean_log ty filename es fs \<Longrightarrow> RadishDB_new_ttl ty filename ttl Flush dev clock fs = (Inr db, fs') \<Longrightarrow>
     db_run ty filename ttl (map clock [0..<length es]) (db, fs')"
| create: "db_run ty filename ttl ts st \<Longrightarrow> event_ok ty (create_event 0 key v) \<Longrightarrow>
     RadishDB_Create ty now dev key v st = (Inr u, st') \<Longrightarrow> db_run ty filename ttl (ts @ [now]) st'"
| rename: "db_run ty filename ttl ts st \<Longrightarrow> event_ok ty (rename_event a b) \<Longrightarrow>
     RadishDB_Rename ty now dev a b st = (Inr r, st') \<Longrightarrow> db_run ty filename ttl (if r then ts @ [now] else ts) st'"
| delete: "db_run ty filename ttl ts st \<Longrightarrow> event_ok ty (delete_event key) \<Longrightarrow>
     RadishDB_Delete ty now dev key st = (Inr r, st') \<Longrightarrow> db_run ty filename ttl (if r then ts @ [now] else ts) st'"
| clear: "db_run ty filename ttl ts st \<Longrightarrow> RadishDB_Clear ty now dev st = (Inr r, st') \<Longrightarrow>
     db_run ty filename ttl (if r then ts @ [now] else ts) st'"
| failed: "db_run ty filename ttl ts st \<Longrightarrow> RadishDB_Commit ty now dev e st = (Inl err, st') \<Longrightarrow>
     snd st' (log_name filename) = snd st (log_name filename) \<Longrightarrow> db_run ty filename ttl ts st'"
| failed_compaction: "db_run ty filename ttl ts st \<Longrightarrow>
     RadishDB_Compact ty dev ord clock1 clock2 st = (Inl err, st') \<Longrightarrow> db_run ty filename ttl ts st'"

text \<open>The events of the log, which replay to the store at the readings of the clock.\<close>

definition run_log :: "TType \<Rightarrow> string \<Rightarrow> Timestamp \<Rightarrow> RadishEvent list \<Rightarrow> (nat \<Rightarrow> Timestamp) \<Rightarrow> RadishDB \<times> FileSystem \<Rightarrow> bool" where
  "run_log ty filename ttl es clock st \<longleftrightarrow> opened filename (fst st) \<and>
     snd st (log_name filename) = Some (log_bytes ty es) \<and> list_all (record_ok ty) es \<and>
     LogWriter_Replay_loop clock 0 es (RadishStore_new ttl) = Inr (m_store (fst st))"

text \<open>Only the readings of the events matter.\<close>

lemma Replay_loop_cong:
  "(\<And>j. j < length es \<Longrightarrow> clock (i + j) = clock' (i + j)) \<Longrightarrow>
   LogWriter_Replay_loop clock i es s = LogWriter_Replay_loop clock' i es s"
proof (induction es arbitrary: i s)
  case (Cons e es)
  have "clock i = clock' i" using Cons.prems [of 0] by simp
  moreover have "LogWriter_Replay_loop clock (Suc i) es = LogWriter_Replay_loop clock' (Suc i) es"
    using Cons.prems [of "Suc _"] by (intro ext Cons.IH) simp
  ultimately show ?case by simp
qed simp

lemma run_log_clock:
  assumes "run_log ty filename ttl es clock st" and "\<And>j. j < length es \<Longrightarrow> clock j = clock' j"
  shows "run_log ty filename ttl es clock' st"
  using assms Replay_loop_cong [of es clock 0 clock' "RadishStore_new ttl"] by (simp add: run_log_def)

definition run_inv :: "TType \<Rightarrow> string \<Rightarrow> Timestamp \<Rightarrow> Timestamp list \<Rightarrow> RadishDB \<times> FileSystem \<Rightarrow> bool" where
  "run_inv ty filename ttl ts st \<longleftrightarrow> (\<exists>es. length es = length ts \<and> run_log ty filename ttl es ((!) ts) st)"

lemma run_log_ok: "run_log ty filename ttl es clock st \<Longrightarrow> store_ok (m_store (fst st))"
  unfolding run_log_def using jr.invar_replay [OF store_ok_new] by blast

lemma run_log_commit:
  assumes "run_log ty filename ttl es clock st" and "event_ok ty e" and "RadishDB_Commit ty now dev e st = (Inr b, st')"
  shows "LogWriter_ApplyEvent now (m_store (fst st)) e = Inr (b, m_store (fst st'))"
    and "run_log ty filename ttl (if b then es @ [e] else es) (if b then clock(length es := now) else clock) st'"
proof -
  obtain db fs where st: "st = (db, fs)" by (cases st)
  from assms(1) st have es: "fs (log_name filename) = Some (log_bytes ty es)" "list_all (record_ok ty) es"
      "LogWriter_Replay_loop clock 0 es (RadishStore_new ttl) = Inr (m_store db)"
    and db: "opened filename db"
    by (auto simp: run_log_def)
  let ?w = "m_writer (the (m_persistence db))"
  have w: "m_filename ?w = log_name filename" using db by (simp add: opened_def)
  have ok: "store_ok (m_store db)" using run_log_ok [OF assms(1)] st by simp
  obtain c s' where s': "LogWriter_ApplyEvent now (m_store db) e = Inr (c, s')"
    and commit: "RadishDB_Commit ty now dev e (db, fs) =
      (if \<not> c then (Inr False, (db, fs))
       else case LogWriter_Append ty ?w dev e fs of
              (Inl err, fs1) \<Rightarrow> (Inl err, (db, fs1))
            | (Inr _, fs1) \<Rightarrow> (Inr True, (db\<lparr>m_store := s'\<rparr>, fs1)))"
    using Commit_opened [OF db assms(2) ok, of now dev fs] by blast
  have "LogWriter_ApplyEvent now (m_store (fst st)) e = Inr (b, m_store (fst st')) \<and>
    run_log ty filename ttl (if b then es @ [e] else es) (if b then clock(length es := now) else clock) st'"
  proof (cases c)
    case False
    with s' have "s' = m_store db" using jr.refused [OF ok, of now e s'] by simp
    with False commit s' assms(1,3) st show ?thesis by auto
  next
    case True
    with commit assms(3) st obtain fs1 u where a: "LogWriter_Append ty ?w dev e fs = (Inr u, fs1)"
      and st': "st' = (db\<lparr>m_store := s'\<rparr>, fs1)" and b: "b"
      by (auto split: prod.splits sum.splits)
    from Append_Inr [OF _ assms(2) a, of es] es(1) w have
      "record_ok ty e" "fs1 (log_name filename) = Some (log_bytes ty (es @ [e]))" by auto
    with st' b True s' st es(2) db jr.replay_commit [OF es(3) s'] show ?thesis
      by (auto simp: run_log_def opened_def)
  qed
  then show "LogWriter_ApplyEvent now (m_store (fst st)) e = Inr (b, m_store (fst st'))"
    and "run_log ty filename ttl (if b then es @ [e] else es) (if b then clock(length es := now) else clock) st'"
    by blast+
qed

text \<open>A commit that throws leaves the store, and the log up to an unfinished record.\<close>

lemma run_log_failed:
  assumes "run_log ty filename ttl es clock st" and "event_ok ty e" and "RadishDB_Commit ty now dev e st = (Inl err, st')"
  shows "fst st' = fst st \<and> (\<exists>tail. snd st' (log_name filename) = Some (log_bytes ty es @ tail) \<and> torn_tail tail)"
proof -
  obtain db fs where st: "st = (db, fs)" by (cases st)
  from assms(1) st have es: "fs (log_name filename) = Some (log_bytes ty es)" and db: "opened filename db"
    by (auto simp: run_log_def)
  let ?w = "m_writer (the (m_persistence db))"
  have w: "m_filename ?w = log_name filename" using db by (simp add: opened_def)
  have ok: "store_ok (m_store db)" using run_log_ok [OF assms(1)] st by simp
  from Commit_opened [OF db assms(2) ok, of now dev fs] assms(3) st
  obtain fs' where st': "st' = (db, fs')" and a: "LogWriter_Append ty ?w dev e fs = (Inl err, fs')"
    by (auto split: if_splits prod.splits sum.splits)
  from Append_Inl [OF _ assms(2) a, of es] es st st' w show ?thesis by auto
qed

lemma run_inv_commit:
  assumes "run_inv ty filename ttl ts st" and "event_ok ty e" and "RadishDB_Commit ty now dev e st = (Inr b, st')"
  shows "run_inv ty filename ttl (if b then ts @ [now] else ts) st'"
proof -
  from assms(1) obtain es where es: "length es = length ts" "run_log ty filename ttl es ((!) ts) st" by (auto simp: run_inv_def)
  note log = run_log_commit(2) [OF es(2) assms(2,3)]
  show ?thesis
  proof (cases b)
    case True
    with log have "run_log ty filename ttl (es @ [e]) (((!) ts)(length es := now)) st'" by simp
    then have "run_log ty filename ttl (es @ [e]) ((!) (ts @ [now])) st'"
      by (rule run_log_clock) (auto simp: nth_append es(1) less_Suc_eq)
    with True es(1) show ?thesis unfolding run_inv_def by (intro exI [of _ "es @ [e]"]) simp
  next
    case False
    with log es(1) show ?thesis by (auto simp: run_inv_def)
  qed
qed

lemma event_ok_create_time: "event_ok ty (create_event t key v) \<longleftrightarrow> event_ok ty (create_event 0 key v)"
  by (simp add: event_ok_def)

lemma run_inv_opens:
  assumes "clean_log ty filename es fs"
    and "RadishDB_new_ttl ty filename ttl Flush dev clock fs = (Inr db, fs')"
  shows "run_inv ty filename ttl (map clock [0..<length es]) (db, fs')"
  using assms(1) unfolding clean_log_def
proof
  assume fresh: "fs (log_name filename) = None \<and> es = []"
  with open_new_file [where fs = fs and filename = filename, OF _ assms(2)] show ?thesis
    by (auto simp: run_inv_def run_log_def)
next
  assume log: "fs (log_name filename) = Some (log_bytes ty es) \<and> list_all (record_ok ty) es"
  then have 1: "fs (log_name filename) = Some (log_bytes ty es @ [])" and 2: "list_all (record_ok ty) es" by simp_all
  note open' = open_success [OF assms(2) 1 torn_tail_Nil 2]
  then have "run_log ty filename ttl es clock (db, fs')" using log by (simp add: run_log_def)
  then have "run_log ty filename ttl es ((!) (map clock [0..<length es])) (db, fs')" by (rule run_log_clock) simp
  then show ?thesis by (auto simp: run_inv_def)
qed

lemma run_inv_unchanged:
  assumes "run_inv ty filename ttl ts st" and "fst st' = fst st" and "snd st' (log_name filename) = snd st (log_name filename)"
  shows "run_inv ty filename ttl ts st'"
  using assms by (auto simp: run_inv_def run_log_def)

lemma run_inv_failed_compaction:
  assumes "run_inv ty filename ttl ts st" and "RadishDB_Compact ty dev ord clock1 clock2 st = (Inl err, st')"
  shows "run_inv ty filename ttl ts st'"
proof -
  define w where "w = \<lparr>m_filename = log_name filename, m_compactStrategies = LogWriter_InitializeCompactStrategies\<rparr>"
  have "opened filename (fst st)" using assms(1) by (auto simp: run_inv_def run_log_def)
  then obtain fs' where c: "LogWriter_Compact ty w dev ord clock1 clock2 (snd st) = (Inl err, fs')" and st': "st' = (fst st, fs')"
    using assms(2) by (cases st) (auto simp: RadishDB_Compact_def opened_def PersistenceLog_Compact_def w_def split: prod.splits)
  from Compact_error_keeps_log [OF c] have "fs' (log_name filename) = snd st (log_name filename)"
    by (simp add: w_def)
  with assms(1) st' show ?thesis by (intro run_inv_unchanged [OF assms(1)]) simp_all
qed

lemma db_run_inv: "db_run ty filename ttl ts st \<Longrightarrow> run_inv ty filename ttl ts st"
proof (induction rule: db_run.induct)
  case (create ts st key v now dev u st')
  then obtain t b where c: "RadishDB_Commit ty now dev (create_event t key v) st = (Inr b, st')"
    by (auto simp: RadishDB_Create_def sbind_eq_Inr)
  have e: "event_ok ty (create_event t key v)" using create(2) event_ok_create_time by blast
  from create(4) obtain es where "run_log ty filename ttl es ((!) ts) st" by (auto simp: run_inv_def)
  from run_log_commit(1) [OF this e c] ApplyEvent_create [of now "m_store (fst st)" t key v] have "b" by auto
  with run_inv_commit [OF create(4) e c] show ?case by simp
next
  case (rename ts st a b now dev r st')
  then show ?case using run_inv_commit unfolding RadishDB_Rename_def by blast
next
  case (delete ts st key now dev r st')
  then show ?case using run_inv_commit unfolding RadishDB_Delete_def by blast
next
  case (clear ts st now dev r st')
  have "event_ok ty clear_event" using record_ok_clear [of ty] by (simp add: record_ok_def)
  with clear show ?case using run_inv_commit unfolding RadishDB_Clear_def by blast
next
  case (failed ts st now dev e err st')
  from run_inv_unchanged [OF failed(4) Commit_Inl [OF failed(2)] failed(3)] show ?case .
next
  case (failed_compaction ts st dev ord clock1 clock2 err st')
  from run_inv_failed_compaction [OF failed_compaction(3,2)] show ?case .
qed (rule run_inv_opens)

section \<open>Restarts\<close>

lemma open_runs:
  assumes "readable dev" and "fs (log_name filename) = Some (log_bytes ty es)" and "list_all (record_ok ty) es"
  obtains db where "RadishDB_new_ttl ty filename ttl Flush dev clock fs = (Inr db, fs)" and "store_ok (m_store db)"
    and "LogWriter_Replay_loop clock 0 es (RadishStore_new ttl) = Inr (m_store db)"
    and "store_view (m_store db) = replay_view (ttl \<noteq> -1) clock 0 es Map.empty"
proof -
  from open_existing [where fs = fs and filename = filename and tail = "[]" and ttl = ttl and now = clock,
      OF assms(1) _ torn_tail_Nil assms(3)] assms(2)
  obtain db where db: "RadishDB_new_ttl ty filename ttl Flush dev clock fs = (Inr db, fs)"
    "LogWriter_Replay_loop clock 0 es (RadishStore_new ttl) = Inr (m_store db)" by auto
  with Replay_loop_view [OF record_ok_events [OF assms(3)] store_ok_new, of clock 0 ttl] that show thesis by auto
qed

text \<open>Only a rename in a store with a time to live looks at the clock.\<close>

lemma ApplyEvent_no_rename:
  "m_type e \<noteq> RENAME \<Longrightarrow> LogWriter_ApplyEvent t s e = LogWriter_ApplyEvent t' s e"
  by (simp add: LogWriter_ApplyEvent_def RadishStore_Create_def RadishStore_InsertTimestampForKey_def Let_def cong: if_cong)

lemma ApplyEvent_no_ttl:
  "\<not> RadishStore_HasTimeToLive s \<Longrightarrow> LogWriter_ApplyEvent t s e = LogWriter_ApplyEvent t' s e"
  by (simp add: LogWriter_ApplyEvent_def RadishStore_Create_def RadishStore_Rename_def IsExpired_no_ttl cong: option.case_cong)

lemma HasTTL_pairs:
  "RadishStore_Rename now a b s = (r, s') \<Longrightarrow> RadishStore_HasTimeToLive s' = RadishStore_HasTimeToLive s"
  "RadishStore_Delete k s = (r, s') \<Longrightarrow> RadishStore_HasTimeToLive s' = RadishStore_HasTimeToLive s"
  "RadishStore_Clear s = (r, s') \<Longrightarrow> RadishStore_HasTimeToLive s' = RadishStore_HasTimeToLive s"
  by (metis HasTTL_ops snd_conv)+

lemma HasTTL_ApplyEvent:
  assumes "LogWriter_ApplyEvent t s e = Inr (b, s')"
  shows "RadishStore_HasTimeToLive s' = RadishStore_HasTimeToLive s"
  using assms
  by (auto simp: LogWriter_ApplyEvent_def result_simps split: if_splits dest: HasTTL_create HasTTL_pairs)

lemma ApplyEvent_ttl: "LogWriter_ApplyEvent t s e = Inr (b, s') \<Longrightarrow> m_ttl s' = m_ttl s"
  by (auto simp: LogWriter_ApplyEvent_def store_defs Let_def result_simps split: if_splits option.splits)

lemma Replay_ttl: "LogWriter_Replay_loop clock i es s = Inr s' \<Longrightarrow> m_ttl s' = m_ttl s"
  by (induction es arbitrary: i s) (auto simp: result_simps dest: ApplyEvent_ttl)

lemma Replay_clock:
  assumes "ttl = -1 \<or> list_all (\<lambda>e. m_type e \<noteq> RENAME) es"
  shows "LogWriter_Replay_loop clock i es (RadishStore_new ttl) = LogWriter_Replay_loop clock' i es (RadishStore_new ttl)"
  using assms
proof
  assume "ttl = -1"
  then show ?thesis
    by (intro jr.replay_clock_cong [where P = "\<lambda>s. \<not> RadishStore_HasTimeToLive s"])
      (auto simp: HasTTL_ApplyEvent intro: ApplyEvent_no_ttl)
next
  assume "list_all (\<lambda>e. m_type e \<noteq> RENAME) es"
  then show ?thesis
    by (intro jr.replay_clock_cong [where P = "\<lambda>_. True"]) (auto simp: list_all_iff intro: ApplyEvent_no_rename)
qed


text \<open>The two copies of the dispatch on event types are the same function.\<close>

lemma ApplyEvent_same: "RadishDB_ApplyEvent = LogWriter_ApplyEvent"
  by (intro ext) (simp only: RadishDB_ApplyEvent_def LogWriter_ApplyEvent_def)

lemma Commit_volatile:
  assumes "m_persistence db = None" and "store_ok (m_store db)" and "LogWriter_ApplyEvent now (m_store db) e = Inr (b, s')"
  shows "RadishDB_Commit ty now dev e (db, fs) = (Inr b, (db\<lparr>m_store := s'\<rparr>, fs))"
proof (cases b)
  case True
  with assms(1,3) show ?thesis by (simp add: RadishDB_Commit_def ApplyEvent_same)
next
  case False
  with assms(3) have "s' = m_store db" using jr.refused [OF assms(2)] by simp
  with False assms(1,3) show ?thesis by (simp add: RadishDB_Commit_def ApplyEvent_same)
qed

text \<open>Entries of a store that was written without a time to live carry the timestamp -1.\<close>

definition all_minus_one :: "char list view \<Rightarrow> bool" where
  "all_minus_one w \<longleftrightarrow> (\<forall>k x. w k = Some x \<longrightarrow> snd x = Some (-1))"

lemma event_view_minus_one:
  assumes "event_ok ty e" and "no_expiry e" and "all_minus_one w"
  shows "all_minus_one (event_view True now e w)"
  using assms(1)
proof (cases rule: event_ok_cases)
  case (Create ts k p)
  with assms(2,3) show ?thesis
    by (auto simp: all_minus_one_def event_view_def no_expiry_def create_entry_def)
next
  case (Rename ts k r)
  with assms(3) show ?thesis
    by (auto simp: all_minus_one_def event_view_def view_move_def split: option.splits if_splits) metis+
qed (use assms(3) in \<open>auto simp: all_minus_one_def event_view_def view_delete_def\<close>)

lemma replay_view_minus_one:
  assumes "list_all (event_ok ty) es" and "list_all no_expiry es" and "all_minus_one w"
  shows "all_minus_one (replay_view True clock i es w)"
  using assms by (induction es arbitrary: i w) (auto intro: event_view_minus_one)

section \<open>Properties\<close>

text \<open>
  (C8) A database with any time to live is opened where there is no log or on a log without an unfinished record,
  such as an earlier run or a compaction left, and runs through mutations whose keys and values fit
  into a record, mutations that throw and leave the log as it was, and compactions that throw. In every state
  it reaches, the log on disk is clean and has one event for each mutation that was applied, and the
  store in memory is the replay of these events at exactly the readings of the clock at which they were
  applied, in the opening or in their commits: nothing is in memory that is not in the log, and nothing
  acknowledged is missing.
\<close>

theorem store_is_replay_of_log:
  assumes "db_run ty filename ttl ts (db, fs)" and "readable dev"
  shows "\<exists>es. length es = length ts \<and> LogReader_GetEvents ty (log_name filename) dev fs = Inr es \<and>
    fs (log_name filename) = Some (log_bytes ty es) \<and>
    LogWriter_Replay_loop (\<lambda>i. ts ! i) 0 es (RadishStore_new ttl) = Inr (m_store db)"
proof -
  from db_run_inv [OF assms(1)] obtain es where es: "fs (log_name filename) = Some (log_bytes ty es)"
    "list_all (record_ok ty) es" "LogWriter_Replay_loop (\<lambda>i. ts ! i) 0 es (RadishStore_new ttl) = Inr (m_store db)"
    "length es = length ts"
    by (auto simp: run_inv_def run_log_def)
  have "LogReader_GetEvents ty (log_name filename) dev fs = Inr es"
    by (rule GetEvents_clean [where fs = fs and filename = "log_name filename", OF assms(2) es(1,2)])
  with es show ?thesis by blast
qed

text \<open>An opening at time 5 of a log with one event, and a creation at time 7.\<close>

abbreviation demo_events :: "RadishEvent list" where
  "demo_events \<equiv> [create_event 60 ''k'' ''v'', create_event 57 ''j'' ''w'']"

lemma demo_events_ok: "list_all (record_ok std_string) demo_events"
  by (simp add: small_records)

lemma demo_run:
  obtains db fs where "db_run std_string ''db'' 50 [5, 7] (db, fs)" and "fs (log_name ''db'') = Some (log_bytes std_string demo_events)"
proof -
  let ?es = "[create_event 60 ''k'' ''v'']" and ?e = "create_event 57 ''j'' ''w''"
  let ?fs = "[log_name ''db'' \<mapsto> log_bytes std_string ?es]"
  have ok: "list_all (record_ok std_string) ?es" "record_ok std_string ?e" using demo_events_ok by simp_all
  then have ev: "event_ok std_string ?e" by (simp add: record_ok_def)
  have log: "?fs (log_name ''db'') = Some (log_bytes std_string ?es @ [])" by simp
  from open_existing [where fs = ?fs and filename = "''db''" and ttl = 50 and now = "\<lambda>_. 5", OF readable_healthy log torn_tail_Nil ok(1)]
  obtain db where
    db: "RadishDB_new_ttl std_string ''db'' 50 Flush healthy (\<lambda>_. 5) ?fs = (Inr db, ?fs)" "opened ''db'' db"
      "LogWriter_Replay_loop (\<lambda>_. 5) 0 ?es (RadishStore_new 50) = Inr (m_store db)" by blast
  have "clean_log std_string ''db'' ?es ?fs" using ok by (simp add: clean_log_def)
  from db_run.opens [OF this db(1)] have run: "db_run std_string ''db'' 50 [5] (db, ?fs)" by simp
  from Replay_loop_view [OF record_ok_events [OF ok(1)] store_ok_new, of "\<lambda>_. 5" 0 50] db(3)
  have st: "store_ok (m_store db)" by simp
  have "m_ttl (m_store db) = 50" using Replay_ttl [OF db(3)] by (simp add: RadishStore_new_def)
  then have add: "RadishStore_NewExpiryTimestamp 7 (m_store db) = Inr 57"
    by (simp add: RadishStore_NewExpiryTimestamp_def RadishStore_HasTimeToLive_def add_ll_def)
  let ?w = "m_writer (the (m_persistence db))"
  have w: "m_filename ?w = log_name ''db''" using db(2) by (simp add: opened_def)
  have "LogWriter_Append std_string ?w healthy ?e ?fs = (Inr (), ?fs(m_filename ?w \<mapsto> file_content ?fs (m_filename ?w) @ frame std_string ?e))"
    by (rule Append_ok [OF ok(2)]) (simp add: writable_def healthy_def)
  then obtain db' fs' where c: "RadishDB_Create std_string 7 healthy ''j'' ''w'' (db, ?fs) = (Inr (), (db', fs'))"
    and fs': "fs' (log_name ''db'') = Some (log_bytes std_string demo_events)"
    using Commit_opened [OF db(2) ev st, of 7 healthy ?fs] ApplyEvent_create [of 7 "m_store db" 57 "''j''" "''w''"] add
    by (auto simp: RadishDB_Create_def w file_content_def log_bytes_def split: if_splits)
  have "event_ok std_string (create_event 0 ''j'' ''w'')" using ev event_ok_create_time by blast
  from db_run.create [OF run this c] fs' that show thesis by simp
qed

theorem store_is_replay_of_log_witness:
  "\<exists>db fs es. db_run std_string ''db'' 50 [5, 7] (db, fs) \<and> length es = 2 \<and>
     LogReader_GetEvents std_string (log_name ''db'') healthy fs = Inr es \<and>
     LogWriter_Replay_loop (\<lambda>i. [5, 7] ! i) 0 es (RadishStore_new 50) = Inr (m_store db)"
proof -
  obtain db fs where r: "db_run std_string ''db'' 50 [5, 7] (db, fs)" by (rule demo_run)
  from store_is_replay_of_log [OF r readable_healthy] obtain es where "length es = length [5, 7 :: Timestamp]"
    "LogReader_GetEvents std_string (log_name ''db'') healthy fs = Inr es"
    "LogWriter_Replay_loop (\<lambda>i. [5, 7] ! i) 0 es (RadishStore_new 50) = Inr (m_store db)" by blast
  with r show ?thesis by (intro exI [of _ db] exI [of _ fs] exI [of _ es]) simp
qed

text \<open>
  (C23) Take a database in a state of such a run: opened on no log or on one without an unfinished record, not
  compacted since, and after no failure that left a part of a record. A restart with the same time to live
  restores its store exactly, whatever the clock reads then, if the database has no time to live or
  its log holds no rename.
\<close>

theorem restart_restores_store:
  assumes "db_run ty filename ttl ts (db, fs)" and "readable dev"
    and "LogReader_GetEvents ty (log_name filename) dev fs = Inr es"
    and "ttl = -1 \<or> list_all (\<lambda>e. m_type e \<noteq> RENAME) es"
  shows "\<exists>db'. RadishDB_new_ttl ty filename ttl Flush dev clock fs = (Inr db', fs) \<and> m_store db' = m_store db"
proof -
  from db_run_inv [OF assms(1)] obtain es0 where es: "fs (log_name filename) = Some (log_bytes ty es0)"
    "list_all (record_ok ty) es0" "LogWriter_Replay_loop ((!) ts) 0 es0 (RadishStore_new ttl) = Inr (m_store db)"
    by (auto simp: run_inv_def run_log_def)
  have "LogReader_GetEvents ty (log_name filename) dev fs = Inr es0"
    by (rule GetEvents_clean [where fs = fs and filename = "log_name filename", OF assms(2) es(1,2)])
  with assms(3) have same: "es0 = es" by simp
  obtain db' where "RadishDB_new_ttl ty filename ttl Flush dev clock fs = (Inr db', fs)"
    "LogWriter_Replay_loop clock 0 es0 (RadishStore_new ttl) = Inr (m_store db')"
    using open_runs [where fs = fs and filename = filename and ttl = ttl and clock = clock, OF assms(2) es(1,2)] by blast
  with es(3) same Replay_clock [OF assms(4), of clock 0 "(!) ts"] show ?thesis by auto
qed

theorem restart_restores_store_witness:
  "\<exists>db fs db'. db_run std_string ''db'' 50 [5, 7] (db, fs) \<and>
     RadishDB_new_ttl std_string ''db'' 50 Flush healthy (\<lambda>_. 1000) fs = (Inr db', fs) \<and> m_store db' = m_store db"
proof -
  obtain db fs where r: "db_run std_string ''db'' 50 [5, 7] (db, fs)"
    and log: "fs (log_name ''db'') = Some (log_bytes std_string demo_events)"
    by (rule demo_run)
  have "LogReader_GetEvents std_string (log_name ''db'') healthy fs = Inr demo_events"
    by (rule GetEvents_clean [where fs = fs, OF readable_healthy log demo_events_ok])
  from restart_restores_store [OF r(1) readable_healthy this, of "\<lambda>_. 1000"] r(1) show ?thesis by auto
qed

text \<open>
  (C39) With a time to live and a rename in the log a restart can bring an overwritten value back.
  A key \<open>a\<close> is renamed onto \<open>b\<close> while it is alive; after the expiry of \<open>a\<close> the running database
  has no \<open>b\<close>, but a restart refuses the rename, because its source has expired, and serves
  the value that \<open>b\<close> had before the rename.
\<close>

theorem restart_resurrects_overwritten_key:
  assumes "readable dev" and "ttl \<noteq> -1" and "a \<noteq> b"
    and "fs (log_name filename) = Some (log_bytes ty [create_event ta a v, create_event tb b w, rename_event a b])"
    and "record_ok ty (create_event ta a v)" and "record_ok ty (create_event tb b w)" and "record_ok ty (rename_event a b)"
    and "sint t0 < sint ta" and "sint ta \<le> sint t" and "sint t < sint tb"
  shows "\<exists>s db. LogWriter_Replay_loop (\<lambda>_. t0) 0 [create_event ta a v, create_event tb b w, rename_event a b]
      (RadishStore_new ttl) = Inr s \<and>
    RadishStore_Get t0 s b = Some v \<and> RadishStore_Get t s b = None \<and>
    RadishDB_new_ttl ty filename ttl Flush dev (\<lambda>_. t) fs = (Inr db, fs) \<and> RadishDB_Get t db b = Some w"
proof -
  let ?es = "[create_event ta a v, create_event tb b w, rename_event a b]"
  have ok: "list_all (record_ok ty) ?es" using assms(5-7) by simp
  obtain s where s: "LogWriter_Replay_loop (\<lambda>_. t0) 0 ?es (RadishStore_new ttl) = Inr s" "store_ok s"
    "store_view s = replay_view True (\<lambda>_. t0) 0 ?es Map.empty"
    using Replay_loop_view [OF record_ok_events [OF ok] store_ok_new, of "\<lambda>_. t0" 0 ttl] assms(2) by auto
  obtain db where db: "RadishDB_new_ttl ty filename ttl Flush dev (\<lambda>_. t) fs = (Inr db, fs)" "store_ok (m_store db)"
    "store_view (m_store db) = replay_view True (\<lambda>_. t) 0 ?es Map.empty"
    using open_runs [where fs = fs and filename = filename and ttl = ttl and clock = "\<lambda>_. t", OF assms(1,4) ok] assms(2) by auto
  have "RadishStore_Get t0 s b = Some v" "RadishStore_Get t s b = None"
    using s(2,3) assms(3,8,9) by (simp_all add: Get_view view_get_def event_view_def view_move_def create_entry_def)
  moreover have "RadishDB_Get t db b = Some w"
    using db(2,3) assms(3,9,10) by (simp add: RadishDB_Get_def Get_view view_get_def event_view_def create_entry_def)
  ultimately show ?thesis using s(1) db(1) by blast
qed

theorem restart_resurrects_overwritten_key_witness:
  "\<exists>s db. LogWriter_Replay_loop (\<lambda>_. 50) 0 [create_event 100 ''a'' ''new'', create_event 140 ''b'' ''old'', rename_event ''a'' ''b'']
      (RadishStore_new 100) = Inr s \<and>
    RadishStore_Get 50 s ''b'' = Some ''new'' \<and> RadishStore_Get 120 s ''b'' = None \<and>
    RadishDB_new_ttl std_string ''db'' 100 Flush healthy (\<lambda>_. 120)
      [log_name ''db'' \<mapsto> log_bytes std_string [create_event 100 ''a'' ''new'', create_event 140 ''b'' ''old'', rename_event ''a'' ''b'']] =
      (Inr db, [log_name ''db'' \<mapsto> log_bytes std_string [create_event 100 ''a'' ''new'', create_event 140 ''b'' ''old'', rename_event ''a'' ''b'']]) \<and>
    RadishDB_Get 120 db ''b'' = Some ''old''"
  by (rule restart_resurrects_overwritten_key) (simp_all add: small_records)

text \<open>
  Opening with a time to live a log that was written without one hides every key: the
  records carry the timestamp -1, which the store takes for an expiry in the past.
\<close>

lemma ttl_hides_keys_written_without:
  assumes "readable dev" and "ttl \<noteq> -1" and "fs (log_name filename) = Some (log_bytes ty es)"
    and "list_all (record_ok ty) es" and "list_all no_expiry es" and "0 \<le> sint now"
  shows "\<exists>db. RadishDB_new_ttl ty filename ttl Flush dev clock fs = (Inr db, fs) \<and> RadishDB_Get now db key = None"
proof -
  obtain db where db: "RadishDB_new_ttl ty filename ttl Flush dev clock fs = (Inr db, fs)" "store_ok (m_store db)"
    "store_view (m_store db) = replay_view True clock 0 es Map.empty"
    using open_runs [where fs = fs and filename = filename and ttl = ttl and clock = clock, OF assms(1,3,4)] assms(2) by auto
  have "all_minus_one (store_view (m_store db))"
    using replay_view_minus_one [OF record_ok_events [OF assms(4)] assms(5), of Map.empty clock 0] db(3)
    by (simp add: all_minus_one_def)
  then have "\<not> entry_live now x" if "store_view (m_store db) key = Some x" for x
    using that assms(6) by (cases x) (auto simp: all_minus_one_def dest!: spec)
  then have "RadishDB_Get now db key = None"
    using db(2) by (auto simp: RadishDB_Get_def Get_view view_get_def split: option.splits)
  with db(1) show ?thesis by blast
qed

lemma ttl_hides_keys_written_without_witness:
  "\<exists>db. RadishDB_new_ttl std_string ''db'' 60 Flush healthy (\<lambda>_. 0)
      [log_name ''db'' \<mapsto> log_bytes std_string [create_event (-1) ''k'' ''v'']] =
      (Inr db, [log_name ''db'' \<mapsto> log_bytes std_string [create_event (-1) ''k'' ''v'']]) \<and>
    RadishDB_Get 0 db ''k'' = None"
  by (rule ttl_hides_keys_written_without [where es = "[create_event (-1) ''k'' ''v'']"]) (simp_all add: small_records no_expiry_def)

text \<open>
  A database without persistence never touches the file system, and its mutations are those
  of the store: results and contents are what the store operation gives.
\<close>

lemma volatile_database_is_its_store:
  assumes "m_persistence db = None" and "store_ok (m_store db)"
  shows "RadishDB_Rename ty now dev a b (db, fs) =
      (Inr (fst (RadishStore_Rename now a b (m_store db))), (db\<lparr>m_store := snd (RadishStore_Rename now a b (m_store db))\<rparr>, fs)) \<and>
    RadishDB_Delete ty now dev key (db, fs) =
      (Inr (fst (RadishStore_Delete key (m_store db))), (db\<lparr>m_store := snd (RadishStore_Delete key (m_store db))\<rparr>, fs)) \<and>
    RadishDB_Clear ty now dev (db, fs) =
      (Inr (fst (RadishStore_Clear (m_store db))), (db\<lparr>m_store := snd (RadishStore_Clear (m_store db))\<rparr>, fs)) \<and>
    RadishDB_Compact ty dev ord clock1 clock2 (db, fs) = (Inr (), (db, fs)) \<and>
    (RadishStore_Create now key v None (m_store db) = Inr (t, s') \<longrightarrow>
      RadishDB_Create ty now dev key v (db, fs) = (Inr (), (db\<lparr>m_store := s'\<rparr>, fs)))"
proof (intro conjI impI)
  note volatile = Commit_volatile [OF assms]
  show "RadishDB_Rename ty now dev a b (db, fs) =
      (Inr (fst (RadishStore_Rename now a b (m_store db))), (db\<lparr>m_store := snd (RadishStore_Rename now a b (m_store db))\<rparr>, fs))"
    unfolding RadishDB_Rename_def by (rule volatile) (simp add: LogWriter_ApplyEvent_def)
  show "RadishDB_Delete ty now dev key (db, fs) =
      (Inr (fst (RadishStore_Delete key (m_store db))), (db\<lparr>m_store := snd (RadishStore_Delete key (m_store db))\<rparr>, fs))"
    unfolding RadishDB_Delete_def by (rule volatile) (simp add: LogWriter_ApplyEvent_def)
  show "RadishDB_Clear ty now dev (db, fs) =
      (Inr (fst (RadishStore_Clear (m_store db))), (db\<lparr>m_store := snd (RadishStore_Clear (m_store db))\<rparr>, fs))"
    unfolding RadishDB_Clear_def by (rule volatile) (simp add: LogWriter_ApplyEvent_def)
  show "RadishDB_Compact ty dev ord clock1 clock2 (db, fs) = (Inr (), (db, fs))"
    using assms(1) by (simp add: RadishDB_Compact_def)
  assume c: "RadishStore_Create now key v None (m_store db) = Inr (t, s')"
  then obtain ts where ts: "RadishStore_NewExpiryTimestamp now (m_store db) = Inr ts"
    and c': "RadishStore_Create now key v (Some ts) (m_store db) = Inr (t, s')"
    by (cases "RadishStore_HasTimeToLive (m_store db)")
      (auto simp: RadishStore_Create_def RadishStore_InsertTimestampForKey_def RadishStore_NewExpiryTimestamp_def Let_def result_simps
        RadishStore_HasTimeToLive_def)
  have "RadishDB_Commit ty now dev (create_event ts key v) (db, fs) = (Inr True, (db\<lparr>m_store := s'\<rparr>, fs))"
    by (rule volatile) (simp add: LogWriter_ApplyEvent_def c')
  with ts show "RadishDB_Create ty now dev key v (db, fs) = (Inr (), (db\<lparr>m_store := s'\<rparr>, fs))"
    by (simp add: RadishDB_Create_def)
qed

definition volatile_db :: RadishDB where
  "volatile_db = \<lparr>m_store = RadishStore_new 50, m_persistence = None\<rparr>"

end
