(* ===== verification/Kv_Service.thy ===== *)
theory Kv_Service
  imports Kv_Spec Recovery
begin

text \<open>
  What the sessions rely on from the database, as an interface: a database that holds a view
  answers its reads from it, a commit that returns applied its event to the view, and a commit
  that throws leaves the view recoverable. The interface has two providers in
  \<^verbatim>\<open>include/RadishDB.h\<close>: a database with a log, for which recoverable means that the log on disk
  replays to the view, and a database without persistence.

  Proved once for both: every request gets a reply that the specification allows and changes
  the view as the specification says, errors included.
\<close>

definition args_ok :: "string list \<Rightarrow> bool" where
  "args_ok args \<longleftrightarrow> args \<noteq> [] \<and> list_all (\<lambda>a. length a \<le> kMaxBulkLength) args"

definition request_ok :: "Request \<Rightarrow> bool" where
  "request_ok r \<longleftrightarrow>
     (case r of Set k x \<Rightarrow> length k \<le> kMaxBulkLength \<and> length x \<le> kMaxBulkLength
      | Del ks \<Rightarrow> list_all (\<lambda>k. length k \<le> kMaxBulkLength) ks
      | Rename a b \<Rightarrow> length a \<le> kMaxBulkLength \<and> length b \<le> kMaxBulkLength
      | _ \<Rightarrow> True)"

lemma classify_ok: "args_ok args \<Longrightarrow> request_ok (classify args)"
  by (cases args) (auto simp: args_ok_def classify_def classify_known_def request_ok_def split: list.splits)

lemma wire_events:
  "length k \<le> kMaxBulkLength \<Longrightarrow> length x \<le> kMaxBulkLength \<Longrightarrow> event_ok std_string (create_event t k x)"
  "length k \<le> kMaxBulkLength \<Longrightarrow> length x \<le> kMaxBulkLength \<Longrightarrow> event_ok std_string (rename_event k x)"
  "length k \<le> kMaxBulkLength \<Longrightarrow> event_ok std_string (delete_event k)"
  "event_ok std_string clear_event"
  using wire_records [of k x] wire_records(3) [of k "[]"] record_ok_clear by (simp_all add: record_ok_def)

lemma add_ll_word: "add_ll a b = Inr c \<Longrightarrow> c = a + b"
  by (auto simp: add_ll_def Let_def split: if_splits)

lemma Scan_loop_mem:
  "k \<in> set (RadishStore_Scan_loop now i s es) \<Longrightarrow> \<exists>j. \<not> RadishStore_IsExpired (now j) s k"
  "(\<forall>j. \<not> RadishStore_IsExpired (now j) s k) \<Longrightarrow> k \<in> fst ` set es \<Longrightarrow> k \<in> set (RadishStore_Scan_loop now i s es)"
  "distinct (map fst es) \<Longrightarrow> distinct (RadishStore_Scan_loop now i s es)"
proof -
  show "\<exists>j. \<not> RadishStore_IsExpired (now j) s k" if "k \<in> set (RadishStore_Scan_loop now i s es)"
    using that by (induction now i s es rule: RadishStore_Scan_loop.induct) (auto split: if_splits)
  show "k \<in> set (RadishStore_Scan_loop now i s es)"
    if "\<forall>j. \<not> RadishStore_IsExpired (now j) s k" "k \<in> fst ` set es"
    using that by (induction now i s es rule: RadishStore_Scan_loop.induct) auto
  show "distinct (RadishStore_Scan_loop now i s es)" if "distinct (map fst es)"
    using that
  proof (induction now i s es rule: RadishStore_Scan_loop.induct)
    case (2 now i s key x es)
    then show ?case using Scan_loop_subset [of now "Suc i" s es] by auto
  qed simp
qed

lemma scan_ok_Scan:
  assumes "store_ok s" and "iteration_order ord"
  shows "scan_ok now (store_view s) (RadishStore_Scan ord now s)"
proof -
  let ?es = "ord (m_data s)"
  have d: "distinct (map fst ?es)"
    using assms iteration_order_distinct_fst [OF assms(2), of "m_data s"] by (auto simp: store_ok_def umap_ok_def)
  have stored: "k \<in> fst ` set ?es \<longleftrightarrow> umap_contains (m_data s) k" for k
    using umap_find_eq_None [of "m_data s" k] assms(2) by (simp add: umap_contains_def)
  have live: "view_get t (store_view s) k \<noteq> None \<longleftrightarrow> k \<in> fst ` set ?es \<and> \<not> RadishStore_IsExpired t s k" for t k
    unfolding Get_view [OF assms(1), symmetric] Exists_Get [symmetric] stored by (simp add: RadishStore_Exists_def)
  have "\<exists>i. view_get (now i) (store_view s) k \<noteq> None" if "k \<in> set (RadishStore_Scan_loop now 0 s ?es)" for k
    using Scan_loop_mem(1) [OF that] Scan_loop_subset [of now 0 s ?es] that unfolding live by blast
  moreover have "k \<in> set (RadishStore_Scan_loop now 0 s ?es)" if "\<forall>i. view_get (now i) (store_view s) k \<noteq> None" for k
    using that unfolding live by (intro Scan_loop_mem(2)) blast+
  ultimately show ?thesis
    using Scan_loop_mem(3) [OF d, of now 0 s] unfolding scan_ok_def RadishStore_Scan_def by blast
qed

section \<open>The interface\<close>

text \<open>
  The flag of the invariant says that no key has been renamed onto itself: such renames are what
  compaction does not reproduce.
\<close>

definition self_rename :: "Request \<Rightarrow> bool" where
  "self_rename r = (case r of Rename a b \<Rightarrow> a = b | _ \<Rightarrow> False)"

locale kv_backend =
  fixes inv :: "bool \<Rightarrow> Database \<Rightarrow> char list view \<Rightarrow> bool"
    and recoverable :: "Database \<Rightarrow> char list view \<Rightarrow> bool"
    and ttl :: Timestamp
  assumes holds: "inv c st w \<Longrightarrow> store_ok (m_store (fst st)) \<and> m_ttl (m_store (fst st)) = ttl \<and> store_view (m_store (fst st)) = w"
    and stable: "inv c st w \<Longrightarrow> recoverable st w"
    and committed: "inv c st w \<Longrightarrow> event_ok std_string e \<Longrightarrow> (ttl = -1 \<Longrightarrow> no_expiry e) \<Longrightarrow>
      RadishDB_Commit std_string now dev e st = (Inr b, st') \<Longrightarrow>
      \<exists>s'. LogWriter_ApplyEvent now (m_store (fst st)) e = Inr (b, s') \<and> inv (c \<and> no_self_rename e) st' (store_view s')"
    and thrown: "inv c st w \<Longrightarrow> event_ok std_string e \<Longrightarrow> RadishDB_Commit std_string now dev e st = (Inl err, st') \<Longrightarrow>
      recoverable st' w"
begin

lemma reads:
  assumes "inv c st w"
  shows "RadishDB_Get now (fst st) k = view_get now w k" and "RadishDB_Exists now (fst st) k \<longleftrightarrow> view_get now w k \<noteq> None"
    and "iteration_order ord \<Longrightarrow> scan_ok clock w (RadishDB_Scan ord clock (fst st))"
    and "RadishDB_Size ord clock (fst st) = length (RadishDB_Scan ord clock (fst st))"
  using holds [OF assms] Get_view [of "m_store (fst st)"] scan_ok_Scan [of "m_store (fst st)" ord clock]
  by (auto simp: RadishDB_Get_def RadishDB_Exists_def Exists_Get RadishDB_Scan_def RadishDB_Size_def
      RadishStore_Size_def RadishStore_Scan_def Size_loop_length)

lemma create:
  assumes "inv c st w" and "length k \<le> kMaxBulkLength" and "length x \<le> kMaxBulkLength"
    and "RadishDB_Create std_string now dev k x st = (r, st')"
  shows "case r of Inr u \<Rightarrow> inv c st' (w(k \<mapsto> (x, expiry ttl now))) | Inl e \<Rightarrow> recoverable st' w"
proof (cases "RadishStore_NewExpiryTimestamp now (m_store (fst st))")
  case (Inl e)
  with assms(4) stable [OF assms(1)] show ?thesis by (auto simp: RadishDB_Create_def)
next
  case (Inr t)
  note h = holds [OF assms(1)]
  have t: "expiry ttl now = (if RadishStore_HasTimeToLive (m_store (fst st)) then Some t else None)"
    using Inr h add_ll_word [of now ttl]
    by (auto simp: RadishStore_NewExpiryTimestamp_def RadishStore_HasTimeToLive_def expiry_def split: if_splits)
  note ev = wire_events(1) [OF assms(2,3), of t]
  obtain b s1 where app: "LogWriter_ApplyEvent now (m_store (fst st)) (create_event t k x) = Inr (b, s1)"
    "store_view s1 = event_view (RadishStore_HasTimeToLive (m_store (fst st))) now (create_event t k x) w"
    using ApplyEvent_view [OF ev, of "m_store (fst st)" now] h by auto
  have "store_view s1 = w(k \<mapsto> (x, expiry ttl now))"
    by (simp add: app(2) event_view_def create_entry_def t)
  moreover have "ttl = -1 \<Longrightarrow> no_expiry (create_event t k x)"
    using Inr h by (auto simp: RadishStore_NewExpiryTimestamp_def RadishStore_HasTimeToLive_def)
  moreover obtain rc where "RadishDB_Commit std_string now dev (create_event t k x) st = (rc, st')"
    "r = (case rc of Inl e \<Rightarrow> Inl e | Inr _ \<Rightarrow> Inr ())"
    using Inr assms(4)
    by (cases "RadishDB_Commit std_string now dev (create_event t k x) st") (auto simp: RadishDB_Create_def sbind_def split: sum.splits)
  ultimately show ?thesis
    using committed [OF assms(1) ev _, of now dev _ st'] thrown [OF assms(1) ev, of now dev _ st'] app(1)
    by (fastforce split: sum.splits)
qed

lemma rename:
  assumes "inv c st w" and "length x \<le> kMaxBulkLength" and "length y \<le> kMaxBulkLength"
    and "RadishDB_Rename std_string now dev x y st = (r, st')"
  shows "case r of
      Inr renamed \<Rightarrow> (renamed \<longleftrightarrow> view_get now w x \<noteq> None) \<and>
        inv (c \<and> x \<noteq> y) st' (if view_get now w x = None then w else view_move x y w)
    | Inl e \<Rightarrow> recoverable st' w"
proof (cases r)
  case (Inr b)
  note ev = wire_events(2) [OF assms(2,3)]
  have "RadishDB_Commit std_string now dev (rename_event x y) st = (Inr b, st')"
    using assms(4) Inr by (simp add: RadishDB_Rename_def)
  from committed [OF assms(1) ev _ this] obtain s' where
    "RadishStore_Rename now x y (m_store (fst st)) = (b, s')" "inv (c \<and> x \<noteq> y) st' (store_view s')"
    by (auto simp: LogWriter_ApplyEvent_def)
  with view_of_rename_total [of "m_store (fst st)" now x y] holds [OF assms(1)] Inr show ?thesis
    by (auto split: if_splits)
qed (use assms thrown [OF assms(1) wire_events(2) [OF assms(2,3)]] in \<open>auto simp: RadishDB_Rename_def\<close>)

lemma delete:
  assumes "inv c st w" and "length k \<le> kMaxBulkLength" and "RadishDB_Delete std_string now dev k st = (r, st')"
  shows "case r of Inr b \<Rightarrow> (b \<longleftrightarrow> w k \<noteq> None) \<and> inv c st' (w(k := None)) | Inl e \<Rightarrow> recoverable st' w"
proof (cases r)
  case (Inr b)
  note ev = wire_events(3) [OF assms(2)]
  have "RadishDB_Commit std_string now dev (delete_event k) st = (Inr b, st')"
    using assms(3) Inr by (simp add: RadishDB_Delete_def)
  from committed [OF assms(1) ev _ this] obtain s' where
    "RadishStore_Delete k (m_store (fst st)) = (b, s')" "inv c st' (store_view s')"
    by (auto simp: LogWriter_ApplyEvent_def)
  with view_of_delete [of k "m_store (fst st)"] holds [OF assms(1)] Inr show ?thesis
    by (auto simp: view_delete_def)
qed (use assms thrown [OF assms(1) wire_events(3) [OF assms(2)]] in \<open>auto simp: RadishDB_Delete_def\<close>)

lemma clear:
  assumes "inv c st w" and "RadishDB_Clear std_string now dev st = (r, st')"
  shows "case r of Inr b \<Rightarrow> inv c st' Map.empty | Inl e \<Rightarrow> recoverable st' w"
proof (cases r)
  case (Inr b)
  have "RadishDB_Commit std_string now dev clear_event st = (Inr b, st')"
    using assms(2) Inr by (simp add: RadishDB_Clear_def)
  from committed [OF assms(1) wire_events(4) _ this] obtain s' where
    "RadishStore_Clear (m_store (fst st)) = (b, s')" "inv c st' (store_view s')"
    by (auto simp: LogWriter_ApplyEvent_def)
  with view_of_clear(2) [of "m_store (fst st)"] Inr show ?thesis by auto
qed (use assms thrown [OF assms(1) wire_events(4)] in \<open>auto simp: RadishDB_Clear_def\<close>)

lemma delete_loop:
  assumes "inv c st w" and "list_all (\<lambda>k. length k \<le> kMaxBulkLength) ks" and "Delete_loop env i ks d st = (r, st')"
  shows "case r of Inr n \<Rightarrow> n = d + int (card (set ks \<inter> dom w)) \<and> inv c st' (w |` (- set ks))
    | Inl e \<Rightarrow> \<exists>n < length ks. recoverable st' (w |` (- set (take n ks)))"
  using assms
proof (induction ks arbitrary: i d st w)
  case Nil
  then show ?case by (auto simp: restrict_map_def)
next
  case (Cons k ks)
  obtain rd st1 where del: "RadishDB_Delete std_string (env_now env i) (env_dev env i) k st = (rd, st1)"
    by (cases "RadishDB_Delete std_string (env_now env i) (env_dev env i) k st")
  have step: "case rd of Inr b \<Rightarrow> (b \<longleftrightarrow> w k \<noteq> None) \<and> inv c st1 (w(k := None)) | Inl e \<Rightarrow> recoverable st1 w"
    using delete [OF Cons.prems(1) _ del] Cons.prems(2) by simp
  show ?case
  proof (cases rd)
    case (Inl e)
    with Cons.prems(3) del step show ?thesis by (auto simp: restrict_map_def intro!: exI [of _ 0])
  next
    case (Inr b)
    with step have b: "b \<longleftrightarrow> k \<in> dom w" and inv1: "inv c st1 (w(k := None))" by auto
    have loop: "Delete_loop env (Suc i) ks (d + (if b then 1 else 0)) st1 = (r, st')"
      using Cons.prems(3) del Inr by simp
    have rest: "(w(k := None)) |` (- A) = w |` (- insert k A)" for A
      by (auto simp: restrict_map_def fun_eq_iff)
    have "insert k (set ks) \<inter> dom w = (if b then {k} else {}) \<union> (set ks \<inter> dom (w(k := None)))" using b by auto
    then have card: "int (card (insert k (set ks) \<inter> dom w)) = (if b then 1 else 0) + int (card (set ks \<inter> dom (w(k := None))))"
      by (cases b) simp_all
    have ih: "case r of Inr n \<Rightarrow> n = d + (if b then 1 else 0) + int (card (set ks \<inter> dom (w(k := None)))) \<and> inv c st' (w |` (- insert k (set ks)))
      | Inl e \<Rightarrow> \<exists>n < length ks. recoverable st' (w |` (- insert k (set (take n ks))))"
      using Cons.IH [OF inv1 _ loop] Cons.prems(2) unfolding rest by simp
    show ?thesis
    proof (cases r)
      case (Inl e)
      with ih obtain n where "n < length ks" "recoverable st' (w |` (- insert k (set (take n ks))))" by auto
      with Inl show ?thesis by (auto intro!: exI [of _ "Suc n"])
    qed (use ih card in auto)
  qed
qed

lemma exists_loop:
  assumes "inv c st w"
  shows "Exists_loop env i ks n (fst st) =
    n + int (length (filter (\<lambda>(j, k). view_get (env_now env j) w k \<noteq> None) (enumerate i ks)))"
  by (induction ks arbitrary: i n) (auto simp: reads(2) [OF assms])

theorem perform_refines:
  assumes "inv c st w" and "request_ok r" and "iteration_order (env_ord env)" and "perform env r v st = (x, v', st')"
  shows "case x of
      Inr (reply, close) \<Rightarrow> spec_reply env r v w reply \<and> close = spec_close r \<and> v' = spec_version r v \<and>
        inv (c \<and> \<not> self_rename r) st' (spec_next ttl env r w)
    | Inl e \<Rightarrow> \<exists>w'. spec_failed r w w' \<and> recoverable st' w'"
proof -
  note spec = self_rename_def perform_def ok_reply_def spec_reply_def spec_close_def spec_version_def spec_next_def spec_failed_def request_ok_def
  show ?thesis
  proof (cases r)
    case (Set k y)
    with assms(2,4) create [OF assms(1), of k y "env_now env 0" "env_dev env 0"] show ?thesis
      by (auto simp: spec split: prod.splits sum.splits)
  next
    case (Del ks)
    with assms(2,4) delete_loop [OF assms(1), of ks env 0 0] show ?thesis
      by (auto simp: spec split: prod.splits sum.splits)
  next
    case (Rename a b)
    with assms(2,4) rename [OF assms(1), of a b "env_now env 0" "env_dev env 0"] show ?thesis
      by (auto simp: spec split: prod.splits sum.splits if_splits)
  next
    case Keys
    with assms(1,4) reads(3) [OF assms(1,3), of "env_now env"] show ?thesis by (auto simp: spec)
  next
    case DbSize
    with assms(1,4) reads(3) [OF assms(1,3), of "env_now env"] reads(4) [OF assms(1)] show ?thesis by (auto simp: spec)
  next
    case FlushDb
    with assms(4) clear [OF assms(1), of "env_now env 0" "env_dev env 0"] show ?thesis
      by (auto simp: spec split: prod.splits sum.splits)
  qed (use assms(1,4) reads(1,2) [OF assms(1)] exists_loop [OF assms(1), of env 0 _ 0] in \<open>auto simp: spec\<close>)
qed

end

section \<open>The two databases\<close>

definition durable :: "string \<Rightarrow> Timestamp \<Rightarrow> bool \<Rightarrow> Database \<Rightarrow> char list view \<Rightarrow> bool" where
  "durable filename ttl c st w \<longleftrightarrow> store_view (m_store (fst st)) = w \<and>
     (\<exists>es clock. run_log std_string filename ttl es clock st \<and> (ttl = -1 \<longrightarrow> list_all no_expiry es) \<and>
        (c \<longrightarrow> list_all no_self_rename es))"

text \<open>The log on disk, up to an unfinished last record, replays to the view at the clock readings of the commits.\<close>

definition logged :: "string \<Rightarrow> Timestamp \<Rightarrow> Database \<Rightarrow> char list view \<Rightarrow> bool" where
  "logged filename ttl st w \<longleftrightarrow>
     (\<exists>es tail clock s. snd st (log_name filename) = Some (log_bytes std_string es @ tail) \<and> torn_tail tail \<and>
        list_all (record_ok std_string) es \<and> LogWriter_Replay_loop clock 0 es (RadishStore_new ttl) = Inr s \<and> store_view s = w)"

definition volatile :: "Timestamp \<Rightarrow> bool \<Rightarrow> Database \<Rightarrow> char list view \<Rightarrow> bool" where
  "volatile ttl c st w \<longleftrightarrow> m_persistence (fst st) = None \<and> store_ok (m_store (fst st)) \<and> m_ttl (m_store (fst st)) = ttl \<and>
     store_view (m_store (fst st)) = w"

lemma durable_commit:
  assumes "durable filename ttl c st w" and "event_ok std_string e" and "ttl = -1 \<Longrightarrow> no_expiry e"
    and "RadishDB_Commit std_string now dev e st = (Inr b, st')"
  shows "LogWriter_ApplyEvent now (m_store (fst st)) e = Inr (b, m_store (fst st')) \<and>
    durable filename ttl (c \<and> no_self_rename e) st' (store_view (m_store (fst st')))"
proof -
  from assms(1) obtain es clock where run: "run_log std_string filename ttl es clock st"
    and cl: "ttl = -1 \<longrightarrow> list_all no_expiry es" "c \<longrightarrow> list_all no_self_rename es"
    by (auto simp: durable_def)
  note step = run_log_commit [OF run assms(2,4)]
  let ?es = "if b then es @ [e] else es"
  have "ttl = -1 \<longrightarrow> list_all no_expiry ?es" "c \<and> no_self_rename e \<longrightarrow> list_all no_self_rename ?es"
    using cl assms(3) by auto
  with step show ?thesis unfolding durable_def by blast
qed

lemma durable_logged:
  assumes "durable filename ttl c st w"
  shows "logged filename ttl st w"
  using assms torn_tail_Nil unfolding durable_def logged_def run_log_def by (metis append_Nil2)

interpretation durable_db: kv_backend "durable filename ttl" "logged filename ttl" ttl for filename ttl
proof
  fix c st w e now dev
  assume d: "durable filename ttl c st w"
  then obtain es clock where run: "run_log std_string filename ttl es clock st" and w: "store_view (m_store (fst st)) = w"
    by (auto simp: durable_def)
  then have replay: "LogWriter_Replay_loop clock 0 es (RadishStore_new ttl) = Inr (m_store (fst st))"
    by (simp add: run_log_def)
  show "store_ok (m_store (fst st)) \<and> m_ttl (m_store (fst st)) = ttl \<and> store_view (m_store (fst st)) = w"
    using run_log_ok [OF run] w Replay_ttl [OF replay] by (simp add: RadishStore_new_def)
  show "logged filename ttl st w" by (rule durable_logged [OF d])
  assume e: "event_ok std_string e"
  show "\<exists>s'. LogWriter_ApplyEvent now (m_store (fst st)) e = Inr (b, s') \<and>
      durable filename ttl (c \<and> no_self_rename e) st' (store_view s')"
    if "ttl = -1 \<Longrightarrow> no_expiry e" "RadishDB_Commit std_string now dev e st = (Inr b, st')" for b st'
    using durable_commit [OF d e that] by blast
  show "logged filename ttl st' w" if "RadishDB_Commit std_string now dev e st = (Inl err, st')" for err st'
    using run_log_failed [OF run e that] w replay run unfolding logged_def run_log_def by blast
qed

interpretation volatile_db: kv_backend "volatile ttl" "volatile ttl True" ttl for ttl
proof
  fix c st w e now dev
  assume v: "volatile ttl c st w"
  then show "store_ok (m_store (fst st)) \<and> m_ttl (m_store (fst st)) = ttl \<and> store_view (m_store (fst st)) = w"
    "volatile ttl True st w"
    by (simp_all add: volatile_def)
  assume e: "event_ok std_string e"
  obtain db fs where st: "st = (db, fs)" by (cases st)
  with v have db: "m_persistence db = None" "store_ok (m_store db)" by (auto simp: volatile_def)
  from ApplyEvent_view [OF e db(2), of now] obtain b s1 where
    app: "LogWriter_ApplyEvent now (m_store db) e = Inr (b, s1)" "store_ok s1" by blast
  note commit = Commit_volatile [OF db app(1), of std_string dev fs]
  show "\<exists>s'. LogWriter_ApplyEvent now (m_store (fst st)) e = Inr (b', s') \<and> volatile ttl (c \<and> no_self_rename e) st' (store_view s')"
    if "RadishDB_Commit std_string now dev e st = (Inr b', st')" for b' st'
    using that commit st app ApplyEvent_ttl [OF app(1)] v by (auto simp: volatile_def)
  show "volatile ttl True st' w" if "RadishDB_Commit std_string now dev e st = (Inl err, st')" for err st'
    using that commit st by simp
qed

end
