(* ===== verification/Server_World.thy ===== *)
theory Server_World
  imports Kv_Service
begin

text \<open>
  The whole server of \<^verbatim>\<open>src/network/TcpServer.cpp\<close>: an acceptor and any number of sessions that
  share one database, driven by the event loop. The event loop belongs to the socket library; what
  is modelled is that it runs the completion handlers one after the other, in the order in which
  the operations complete, only for operations that are outstanding, until it is stopped or a
  handler throws. The order, the outcome of every operation and what the disk and the clock do
  meanwhile are the list of completions, over which every statement quantifies.

  Shown here: whatever the order of completions, there is one sequence of the requests that were
  executed, in which the requests of each session are in the order in which they were sent, such
  that every reply and the contents of the database are those of executing the requests one after
  the other (the sessions are linearizable).
\<close>

section \<open>Sequential executions of the specification\<close>

text \<open>One executed request: whose it was, what it met, its arguments and the reply it got.\<close>

record Op =
  op_session :: nat
  op_env :: Env
  op_args :: "string list"
  op_reply :: string

fun spec_run :: "Timestamp \<Rightarrow> Op list \<Rightarrow> (nat \<Rightarrow> RespVersion) \<Rightarrow> char list view \<Rightarrow>
    ((nat \<Rightarrow> RespVersion) \<times> char list view) option" where
  "spec_run ttl [] vs w = Some (vs, w)"
| "spec_run ttl (op # ops) vs w =
     (let i = op_session op; r = classify (op_args op)
      in if spec_reply (op_env op) r (vs i) w (op_reply op)
         then spec_run ttl ops (vs(i := spec_version r (vs i))) (spec_next ttl (op_env op) r w)
         else None)"

lemma spec_run_append:
  "spec_run ttl (a @ b) vs w = (case spec_run ttl a vs w of None \<Rightarrow> None | Some (vs', w') \<Rightarrow> spec_run ttl b vs' w')"
  by (induction a arbitrary: vs w) (simp_all add: Let_def)

text \<open>No request of the history renamed a key onto itself.\<close>

definition clean :: "Op list \<Rightarrow> bool" where
  "clean ops \<longleftrightarrow> list_all (\<lambda>op. \<not> self_rename (classify (op_args op))) ops"

lemma clean_simps [simp]:
  "clean []" "clean (op # ops) \<longleftrightarrow> \<not> self_rename (classify (op_args op)) \<and> clean ops"
  "clean (a @ b) \<longleftrightarrow> clean a \<and> clean b"
  by (simp_all add: clean_def)

text \<open>The requests in the bytes that arrived at a session.\<close>

definition wire_requests :: "string \<Rightarrow> string list list" where
  "wire_requests bytes = fst (rc.drain bytes)"

section \<open>One session\<close>

lemma parsed_args_ok: "ParseCommand x = Inr r \<Longrightarrow> rp_status r = Complete \<Longrightarrow> args_ok (rp_arguments r)"
  using ParseCommand_total [of x] by (auto simp: args_ok_def list_all_iff)

lemma outcome_args_ok: "command_outcome x = Done c n \<Longrightarrow> args_ok c"
  using parsed_args_ok by (auto simp: outcome_Complete)

lemma extends_version: "extends s (s\<lparr>m_input := x, m_version := v\<rparr>) []"
  by (simp add: extends_def)

text \<open>What a session adds to its replies besides: at most one report of an error in the protocol.\<close>

definition protocol_error :: "string list \<Rightarrow> bool" where
  "protocol_error errs \<longleftrightarrow> errs = [] \<or> (\<exists>message. errs = [RespCodec_Error message])"

lemma protocol_error_simps [simp]: "protocol_error []" "protocol_error [RespCodec_Error message]"
  by (auto simp: protocol_error_def)

text \<open>
  What processing the buffer of session \<open>i\<close> did: the requests it executed, the replies and the
  protocol error it queued, and, when a request threw, which one.
\<close>

definition processed :: "nat \<Rightarrow> Timestamp \<Rightarrow> (bool \<Rightarrow> Database \<Rightarrow> char list view \<Rightarrow> bool) \<Rightarrow>
    (Database \<Rightarrow> char list view \<Rightarrow> bool) \<Rightarrow> bool \<Rightarrow> (nat \<Rightarrow> RespVersion) \<Rightarrow> char list view \<Rightarrow> Session \<Rightarrow> 'a result \<Rightarrow> Session \<Rightarrow> Database \<Rightarrow> Op list \<Rightarrow> bool" where
  "processed i ttl I R c0 vs w s x s' db' ops \<longleftrightarrow>
     (\<exists>vs' w' pend err rest errs.
        (\<forall>op \<in> set ops. op_session op = i) \<and> spec_run ttl ops vs w = Some (vs', w') \<and>
        rc.drain (m_input s) = (map op_args ops @ pend, err, rest) \<and>
        extends s s' (map op_reply ops @ errs) \<and> protocol_error errs \<and>
        (case x of
           Inr n \<Rightarrow> I (c0 \<and> clean ops) db' w' \<and> vs' = vs(i := m_version s') \<and>
             (\<not> m_closeAfterWrite s' \<longrightarrow> pend = [] \<and> err = None \<and> rest = m_input s' \<and> errs = [])
         | Inl e \<Rightarrow> errs = [] \<and> (\<exists>c pend' w''. pend = c # pend' \<and> spec_failed (classify c) w' w'' \<and> R db' w'')))"

lemma processedI:
  assumes "\<forall>op \<in> set ops. op_session op = i" and "spec_run ttl ops vs w = Some (vs', w')"
    and "rc.drain (m_input s) = (map op_args ops @ pend, err, rest)"
    and "extends s s' (map op_reply ops @ errs)" and "protocol_error errs"
    and "case x of
           Inr n \<Rightarrow> I (c0 \<and> clean ops) db' w' \<and> vs' = vs(i := m_version s') \<and>
             (\<not> m_closeAfterWrite s' \<longrightarrow> pend = [] \<and> err = None \<and> rest = m_input s' \<and> errs = [])
         | Inl e \<Rightarrow> errs = [] \<and> (\<exists>c pend' w''. pend = c # pend' \<and> spec_failed (classify c) w' w'' \<and> R db' w'')"
  shows "processed i ttl I R c0 vs w s x s' db' ops"
  using assms unfolding processed_def by blast

lemma processed_cons:
  assumes "command_outcome (m_input s) = Done c n"
    and "spec_reply env (classify c) (vs i) w response"
    and "processed i ttl I R (c0 \<and> \<not> self_rename (classify c)) (vs(i := spec_version (classify c) (vs i))) (spec_next ttl env (classify c) w)
      (Session_Queue response close (s\<lparr>m_input := drop n (m_input s), m_version := v\<rparr>)) x s' db' ops"
  shows "processed i ttl I R c0 vs w s x s' db'
    (\<lparr>op_session = i, op_env = env, op_args = c, op_reply = response\<rparr> # ops)"
proof -
  let ?s = "Session_Queue response close (s\<lparr>m_input := drop n (m_input s), m_version := v\<rparr>)"
  from assms(3) obtain vs' w' pend err rest errs where p: "\<forall>op \<in> set ops. op_session op = i"
    "spec_run ttl ops (vs(i := spec_version (classify c) (vs i))) (spec_next ttl env (classify c) w) = Some (vs', w')"
    "rc.drain (drop n (m_input s)) = (map op_args ops @ pend, err, rest)"
    "extends ?s s' (map op_reply ops @ errs)" "protocol_error errs"
    "case x of
       Inr n \<Rightarrow> I ((c0 \<and> \<not> self_rename (classify c)) \<and> clean ops) db' w' \<and> vs' = (vs(i := spec_version (classify c) (vs i)))(i := m_version s') \<and>
         (\<not> m_closeAfterWrite s' \<longrightarrow> pend = [] \<and> err = None \<and> rest = m_input s' \<and> errs = [])
     | Inl e \<Rightarrow> errs = [] \<and> (\<exists>c pend' w''. pend = c # pend' \<and> spec_failed (classify c) w' w'' \<and> R db' w'')"
    unfolding processed_def by auto
  have "extends s s' (response # map op_reply ops @ errs)"
    using extends_trans [OF extends_queue p(4)] by simp
  moreover have "rc.drain (m_input s) = (c # map op_args ops @ pend, err, rest)"
    using rc.drain_Done [OF assms(1) p(3)] .
  ultimately show ?thesis
    using p(1,2,5,6) assms(2)
    by (intro processedI [where vs' = vs' and w' = w' and pend = pend and err = err and rest = rest and errs = errs]) (simp_all add: conj_assoc split: sum.splits)
qed

section \<open>The event loop\<close>

text \<open>
  \<open>w_received\<close> collects what arrived on the socket of each session, as \<open>sk_sent\<close> collects
  what left it.
\<close>

record World =
  w_server :: TcpServer
  w_sessions :: "Session list"
  w_db :: Database
  w_received :: "nat \<Rightarrow> string"

text \<open>
  An accept completes with a socket or an error; setting the option on a fresh socket may throw.
  A read completes with at least one byte and at most the size of the buffer, or with an error.
\<close>

datatype Completion =
    Accepted "error option"
  | AcceptFailed
  | ReadDone nat "nat \<Rightarrow> Env" "string option"
  | WriteDone nat "nat option"
  | Signal

definition kReadBuffer :: nat where
  "kReadBuffer = 8192"

text \<open>The server was constructed and started.\<close>

definition World_start :: "Database \<Rightarrow> World" where
  "World_start db = \<lparr>w_server = TcpServer_Start TcpServer_new, w_sessions = [], w_db = db, w_received = \<lambda>_. ''''\<rparr>"

definition enabled :: "Completion \<Rightarrow> World \<Rightarrow> bool" where
  "enabled c w =
     (case c of
        Accepted _ \<Rightarrow> ac_accepting (w_server w)
      | AcceptFailed \<Rightarrow> ac_accepting (w_server w)
      | ReadDone i envs received \<Rightarrow>
          i < length (w_sessions w) \<and> sk_reading (w_sessions w ! i) \<and> sk_open (w_sessions w ! i) \<and>
          (case received of Some bytes \<Rightarrow> 0 < length bytes \<and> length bytes \<le> kReadBuffer | None \<Rightarrow> True)
      | WriteDone i _ \<Rightarrow> i < length (w_sessions w) \<and> sk_writing (w_sessions w ! i)
      | Signal \<Rightarrow> True)"

text \<open>The handler of a completion; \<open>True\<close> says that it stopped the event loop.\<close>

definition handle :: "Completion \<Rightarrow> World \<Rightarrow> bool result \<times> World" where
  "handle c w =
     (case c of
        Accepted (Some e) \<Rightarrow> (Inl e, w\<lparr>w_server := (w_server w)\<lparr>ac_accepting := False\<rparr>\<rparr>)
      | Accepted None \<Rightarrow>
          (Inr False, w\<lparr>w_server := TcpServer_AcceptDone False (w_server w),
             w_sessions := w_sessions w @ [Session_Start Session_new]\<rparr>)
      | AcceptFailed \<Rightarrow> (Inr False, w\<lparr>w_server := TcpServer_AcceptDone True (w_server w)\<rparr>)
      | ReadDone i envs received \<Rightarrow>
          (case Session_ReadDone envs received (w_sessions w ! i, w_db w) of
             (r, (s, db)) \<Rightarrow>
               (map_sum id (\<lambda>_. False) r,
                w\<lparr>w_sessions := (w_sessions w)[i := s], w_db := db,
                  w_received := (w_received w)(i := w_received w i @ (case received of Some bytes \<Rightarrow> bytes | None \<Rightarrow> []))\<rparr>))
      | WriteDone i failed \<Rightarrow>
          (Inr False, w\<lparr>w_sessions := (w_sessions w)[i := Session_WriteDone failed (w_sessions w ! i)]\<rparr>)
      | Signal \<Rightarrow> (Inr True, w\<lparr>w_server := TcpServer_Stop (w_server w)\<rparr>))"

text \<open>
  The result is \<open>None\<close> while the loop waits for the next completion, and otherwise what it
  returned or threw. A completion of an operation that is not outstanding does not happen.
\<close>

fun io_run :: "Completion list \<Rightarrow> World \<Rightarrow> unit result option \<times> World" where
  "io_run [] w = (None, w)"
| "io_run (c # cs) w =
     (if \<not> enabled c w then io_run cs w
      else (case handle c w of
              (Inl e, w1) \<Rightarrow> (Some (Inl e), w1)
            | (Inr stopped, w1) \<Rightarrow> if stopped then (Some (Inr ()), w1) else io_run cs w1))"

text \<open>What is known of the environment of a completion: hash tables are iterated in some order.\<close>

definition completion_ok :: "Completion \<Rightarrow> bool" where
  "completion_ok c = (case c of ReadDone i envs received \<Rightarrow> \<forall>j. iteration_order (env_ord (envs j)) | _ \<Rightarrow> True)"

section \<open>Traces of sessions\<close>

text \<open>
  A session executed the first of the requests that arrived and its replies, perhaps followed by
  one protocol error, are what it sent or still has to send, in this order.
\<close>

definition session_done :: "string \<Rightarrow> Op list \<Rightarrow> Session \<Rightarrow> bool" where
  "session_done received ops s \<longleftrightarrow>
     (\<exists>pend err rest errs failed. rc.drain received = (map op_args ops @ pend, err, rest) \<and> protocol_error errs \<and>
        session_inv s (map op_reply ops @ errs) failed)"

text \<open>As long as the session is not closing it executed all of them.\<close>

definition session_trace :: "string \<Rightarrow> Op list \<Rightarrow> Session \<Rightarrow> bool" where
  "session_trace received ops s \<longleftrightarrow> session_done received ops s \<and>
     (\<not> m_closeAfterWrite s \<longrightarrow> rc.drain received = (map op_args ops, None, m_input s) \<and>
        (\<exists>failed. session_inv s (map op_reply ops) failed))"

lemma session_traceI:
  assumes "rc.drain received = (map op_args ops @ pend, err, rest)" and "protocol_error errs"
    and "session_inv s (map op_reply ops @ errs) failed"
    and "\<not> m_closeAfterWrite s \<Longrightarrow> pend = [] \<and> err = None \<and> rest = m_input s \<and> errs = []"
  shows "session_trace received ops s"
  using assms unfolding session_trace_def session_done_def by (metis append_Nil2)

lemma session_trace_new: "session_trace [] [] (Session_Start Session_new)"
proof -
  have "session_inv (Session_Start Session_new) [] False"
    by (simp add: session_inv_def Session_Start_def Session_new_def)
  moreover have "rc.drain [] = ([], None, [])" by (simp add: rc.drain_More rc.parse_Nil)
  ultimately show ?thesis
    by (intro session_traceI [where pend = "[]" and errs = "[]"]) (auto simp: Session_Start_def Session_new_def)
qed

lemma WriteDone_fields:
  "m_input (Session_WriteDone f s) = m_input s" "m_version (Session_WriteDone f s) = m_version s"
  "m_closeAfterWrite (Session_WriteDone f s) = m_closeAfterWrite s"
  by (auto simp: Session_WriteDone_def Session_Write_def Let_def split: option.split)

lemma session_trace_written:
  assumes "session_trace received ops s" and "sk_writing s"
  shows "session_trace received ops (Session_WriteDone f s)"
proof -
  have step: "\<exists>b'. session_inv (Session_WriteDone f s) replies b'" if "session_inv s replies b" for replies b
    using session_inv_written [OF that assms(2)] session_inv_broken [OF that assms(2)] by (cases f) blast+
  from assms(1) step show ?thesis
    unfolding session_trace_def session_done_def WriteDone_fields by metis
qed

abbreviation of_session :: "nat \<Rightarrow> Op list \<Rightarrow> Op list" where
  "of_session i h \<equiv> filter (\<lambda>op. op_session op = i) h"

text \<open>
  A history of executed requests is one of this world when for each session it holds a first part
  of the requests that arrived there, with the replies that it sent or still has to send.
\<close>

definition served :: "World \<Rightarrow> Op list \<Rightarrow> bool" where
  "served W h \<longleftrightarrow> (\<forall>op \<in> set h. op_session op < length (w_sessions W)) \<and>
     (\<forall>i < length (w_sessions W). session_done (w_received W i) (of_session i h) (w_sessions W ! i))"

text \<open>A request of some session threw after the others were executed.\<close>

definition threw :: "World \<Rightarrow> Op list \<Rightarrow> char list view \<Rightarrow> char list view \<Rightarrow> bool" where
  "threw W h w w' \<longleftrightarrow> (\<exists>i c pend. i < length (w_sessions W) \<and> wire_requests (w_received W i) = map op_args (of_session i h) @ c # pend \<and>
     spec_failed (classify c) w w')"

definition world_ok :: "(bool \<Rightarrow> Database \<Rightarrow> char list view \<Rightarrow> bool) \<Rightarrow> Timestamp \<Rightarrow> bool \<Rightarrow> char list view \<Rightarrow> World \<Rightarrow> Op list \<Rightarrow>
    (nat \<Rightarrow> RespVersion) \<Rightarrow> char list view \<Rightarrow> bool" where
  "world_ok I ttl c0 w0 W h vs w \<longleftrightarrow>
     spec_run ttl h (\<lambda>_. Resp2) w0 = Some (vs, w) \<and> I (c0 \<and> clean h) (w_db W) w \<and>
     (\<forall>op \<in> set h. op_session op < length (w_sessions W)) \<and>
     (\<forall>i < length (w_sessions W). vs i = m_version (w_sessions W ! i) \<and>
        session_trace (w_received W i) (of_session i h) (w_sessions W ! i)) \<and>
     (\<forall>i \<ge> length (w_sessions W). w_received W i = [] \<and> vs i = Resp2)"

lemma world_ok_served: "world_ok I ttl c0 w0 W h vs w \<Longrightarrow> served W h"
  by (auto simp: world_ok_def served_def session_trace_def)

lemma world_ok_start: "I c0 db w0 \<Longrightarrow> world_ok I ttl c0 w0 (World_start db) [] (\<lambda>_. Resp2) w0"
  by (simp add: world_ok_def World_start_def)

lemma of_session_fresh: "\<forall>op \<in> set h. op_session op < n \<Longrightarrow> of_session n h = []"
  by (auto simp: filter_empty_conv)

lemma of_session_same: "\<forall>op \<in> set new. op_session op = i \<Longrightarrow> of_session j new = (if j = i then new else [])"
  by (auto simp: filter_empty_conv filter_id_conv)

lemma world_ok_accept:
  assumes "world_ok I ttl c0 w0 W h vs w"
  shows "world_ok I ttl c0 w0 (W\<lparr>w_server := sv, w_sessions := w_sessions W @ [Session_Start Session_new]\<rparr>) h vs w"
proof -
  let ?n = "length (w_sessions W)"
  have "session_trace (w_received W ?n) (of_session ?n h) (Session_Start Session_new)" "vs ?n = Resp2"
    using assms session_trace_new of_session_fresh [of h ?n] by (auto simp: world_ok_def)
  moreover have "m_version (Session_Start Session_new) = Resp2" by (simp add: Session_Start_def Session_new_def)
  ultimately show ?thesis using assms by (auto simp: world_ok_def nth_append less_Suc_eq)
qed

lemma world_ok_write:
  assumes "world_ok I ttl c0 w0 W h vs w" and "i < length (w_sessions W)" and "sk_writing (w_sessions W ! i)"
  shows "world_ok I ttl c0 w0 (W\<lparr>w_sessions := (w_sessions W)[i := Session_WriteDone f (w_sessions W ! i)]\<rparr>) h vs w"
  using assms session_trace_written [OF _ assms(3)] by (auto simp: world_ok_def nth_list_update WriteDone_fields)

lemma world_ok_server: "world_ok I ttl c0 w0 W h vs w \<Longrightarrow> world_ok I ttl c0 w0 (W\<lparr>w_server := sv\<rparr>) h vs w"
  by (simp add: world_ok_def)

context kv_backend
begin

lemma answer_refines:
  assumes "inv c0 st w" and "args_ok args" and "iteration_order (env_ord env)" and "answer env args v st = (x, v', st')"
  shows "case x of
      Inr (reply, close) \<Rightarrow> spec_reply env (classify args) v w reply \<and> close = spec_close (classify args) \<and>
        v' = spec_version (classify args) v \<and> inv (c0 \<and> \<not> self_rename (classify args)) st' (spec_next ttl env (classify args) w)
    | Inl e \<Rightarrow> \<exists>w'. spec_failed (classify args) w w' \<and> recoverable st' w'"
proof (rule perform_refines [OF assms(1) classify_ok [OF assms(2)] assms(3)])
  show "perform env (classify args) v st = (x, v', st')"
    using assms(2,4) answer_classify [of args env v st] by (simp add: args_ok_def)
qed

lemma process_refines:
  assumes "Session_Process envs j (s, db) = (x, (s', db'))" and "inv c0 db w"
    and "\<forall>j. iteration_order (env_ord (envs j))" and "vs i = m_version s"
  shows "\<exists>ops. processed i ttl inv recoverable c0 vs w s x s' db' ops"
  using assms(1,2,4)
proof (induction arbitrary: w vs c0 rule: Process_induct)
  case (idle j s db)
  obtain cmds err rest where "rc.drain (m_input s) = (cmds, err, rest)" by (cases "rc.drain (m_input s)")
  with idle rc.drain_More [of "m_input s"] show ?case
    by (intro exI [of _ "[]"] processedI [where vs' = vs and w' = w and pend = cmds and err = err and rest = rest and errs = "[]"])
      (auto simp: extends_refl fun_upd_idem_iff)
next
  case (bad j s db e)
  have "extends s (Session_Queue (RespCodec_Error e) True s) [RespCodec_Error e]" by (simp add: extends_def)
  with bad rc.drain_Bad [OF bad(2)] show ?case
    by (intro exI [of _ "[]"] processedI [where vs' = vs and w' = w and pend = "[]" and err = "Some e" and rest = "m_input s"
        and errs = "[RespCodec_Error e]"]) (auto simp: fun_upd_idem_iff)
next
  case (threw j s db c n e v db1)
  obtain cs er re where "rc.drain (drop n (m_input s)) = (cs, er, re)" by (cases "rc.drain (drop n (m_input s))")
  note d = rc.drain_Done [OF threw(2) this]
  from answer_refines [OF threw(4) outcome_args_ok [OF threw(2)] _ threw(3)] assms(3) d show ?case
    by (intro exI [of _ "[]"] processedI [where vs' = vs and w' = w and pend = "c # cs" and err = er and rest = re and errs = "[]"])
      (auto simp: extends_version)
next
  case (step j s db c n response close v db1 x s' db')
  have ref: "spec_reply (envs j) (classify c) (vs i) w response" "v = spec_version (classify c) (vs i)"
    "inv (c0 \<and> \<not> self_rename (classify c)) db1 (spec_next ttl (envs j) (classify c) w)"
    using answer_refines [OF step(6) outcome_args_ok [OF step(2)] _ step(3)] assms(3) step(7) by auto
  have "\<exists>ops. processed i ttl inv recoverable (c0 \<and> \<not> self_rename (classify c)) (vs(i := spec_version (classify c) (vs i))) (spec_next ttl (envs j) (classify c) w)
      (Session_Queue response close (s\<lparr>m_input := drop n (m_input s), m_version := v\<rparr>)) x s' db' ops"
    by (rule step(5) [OF ref(3)]) (simp add: ref(2))
  then show ?case using processed_cons [where vs = vs and i = i, OF step(2) ref(1)] by blast
qed

lemma read_refines:
  assumes "inv c0 db w" and "\<forall>j. iteration_order (env_ord (envs j))" and "vs i = m_version s"
    and "session_trace received ops s" and "sk_reading s" and "sk_open s"
    and "Session_ReadDone envs bytes (s, db) = (x, (s', db'))"
    and "received' = received @ (case bytes of Some b \<Rightarrow> b | None \<Rightarrow> [])"
  shows "\<exists>new vs' w'. (\<forall>op \<in> set new. op_session op = i) \<and> spec_run ttl new vs w = Some (vs', w') \<and>
    session_done received' (ops @ new) s' \<and>
    (case x of
       Inr n \<Rightarrow> inv (c0 \<and> clean new) db' w' \<and> vs' = vs(i := m_version s') \<and> session_trace received' (ops @ new) s'
     | Inl e \<Rightarrow> \<exists>c pend err rest w''. rc.drain received' = (map op_args (ops @ new) @ c # pend, err, rest) \<and>
         spec_failed (classify c) w' w'' \<and> recoverable db' w'')"
proof -
  from assms(4,5) have open': "\<not> m_closeAfterWrite s" by (auto simp: session_trace_def session_done_def session_inv_def)
  with assms(4) obtain failed where d: "rc.drain received = (map op_args ops, None, m_input s)"
    and si: "session_inv s (map op_reply ops) failed" by (auto simp: session_trace_def)
  have inv': "session_inv s1 (map op_reply ops @ new) failed"
    if "extends s0 s2 new" "s0 = s\<lparr>sk_reading := False, m_input := y\<rparr>"
      "s1 = s2 \<or> s1 = s2\<lparr>sk_reading := True\<rparr> \<and> \<not> m_closeAfterWrite s2" for s0 s1 s2 new y
  proof -
    have "extends s (s2\<lparr>sk_reading := sk_reading s\<rparr>) new" using that(1,2) by (auto simp: extends_def)
    moreover have "\<not> sk_reading s2" using that(1,2) by (simp add: extends_def)
    then have "s2 = (s2\<lparr>sk_reading := sk_reading s\<rparr>)\<lparr>sk_reading := False\<rparr>" by simp
    with that(3) have "s1 = (s2\<lparr>sk_reading := sk_reading s\<rparr>)\<lparr>sk_reading := False\<rparr> \<or>
        s1 = (s2\<lparr>sk_reading := sk_reading s\<rparr>)\<lparr>sk_reading := True\<rparr> \<and> \<not> m_closeAfterWrite (s2\<lparr>sk_reading := sk_reading s\<rparr>)"
      by auto
    ultimately show ?thesis by (rule session_inv_extends [OF si assms(6)])
  qed
  show ?thesis
  proof (cases bytes)
    case None
    with assms(7,8) have s': "s' = s\<lparr>sk_reading := False\<rparr>" "db' = db" "x = Inr 0" "received' = received"
      by (simp_all add: Session_ReadDone_def)
    have "session_inv s' (map op_reply ops @ []) failed"
      using inv' [of _ "s\<lparr>sk_reading := False, m_input := m_input s\<rparr>" "[]" "m_input s"] s'(1) by (simp add: extends_refl)
    then have t: "session_trace received' ops s'"
      using d s' by (intro session_traceI [where pend = "[]" and errs = "[]" and failed = failed]) auto
    with assms(1,3) s' show ?thesis
      by (intro exI [of _ "[]"] exI [of _ vs] exI [of _ w]) (auto simp: session_trace_def fun_upd_idem_iff)
  next
    case (Some b)
    let ?s = "s\<lparr>sk_reading := False, m_input := m_input s @ b\<rparr>"
    have r': "received' = received @ b" using Some assms(8) by simp
    show ?thesis
    proof (cases "length (m_input s @ b) > kMaxBufferedInput")
      case True
      let ?err = "RespCodec_Error ''Protocol error: input buffer limit exceeded''"
      have s': "s' = Session_Queue ?err True ?s" "db' = db" "x = Inr 0"
        using True assms(7) Some by (simp_all add: Session_ReadDone_def)
      have "extends ?s s' [?err]" by (simp add: s'(1) extends_def)
      then have "session_inv s' (map op_reply ops @ [?err]) failed" using inv' by blast
      moreover obtain cs er re where "rc.drain (m_input s @ b) = (cs, er, re)" by (cases "rc.drain (m_input s @ b)")
      ultimately have t: "session_trace received' ops s'"
        unfolding r' by (intro session_traceI [OF rc.drain_append [OF d], where errs = "[?err]" and failed = failed]) (auto simp: s'(1))
      with assms(1,3) s' show ?thesis
        by (intro exI [of _ "[]"] exI [of _ vs] exI [of _ w]) (auto simp: session_trace_def fun_upd_idem_iff)
    next
      case False
      obtain y s2 db2 where p: "Session_Process envs 0 (?s, db) = (y, (s2, db2))" by (rule prod_cases3)
      have vs: "vs i = m_version ?s" using assms(3) by simp
      from process_refines [where vs = vs and i = i, OF p assms(1,2) vs] obtain new vs' w' pend err rest errs where
        n: "\<forall>op \<in> set new. op_session op = i" "spec_run ttl new vs w = Some (vs', w')"
          "rc.drain (m_input s @ b) = (map op_args new @ pend, err, rest)"
          "extends ?s s2 (map op_reply new @ errs)" "protocol_error errs"
        and y: "case y of
           Inr n \<Rightarrow> inv (c0 \<and> clean new) db2 w' \<and> vs' = vs(i := m_version s2) \<and>
             (\<not> m_closeAfterWrite s2 \<longrightarrow> pend = [] \<and> err = None \<and> rest = m_input s2 \<and> errs = [])
         | Inl e \<Rightarrow> errs = [] \<and> (\<exists>c pend' w''. pend = c # pend' \<and> spec_failed (classify c) w' w'' \<and> recoverable db2 w'')"
        unfolding processed_def by auto
      have drain: "rc.drain received' = (map op_args (ops @ new) @ pend, err, rest)"
        using rc.drain_append [OF d n(3)] r' by simp
      have res: "db' = db2" "y = Inl e \<Longrightarrow> x = Inl e \<and> s' = s2"
        "y = Inr k \<Longrightarrow> x = Inr k \<and> s' = (if m_closeAfterWrite s2 then s2 else s2\<lparr>sk_reading := True\<rparr>)" for e k
        using assms(7) Some False p by (auto simp: Session_ReadDone_def Let_def split: sum.splits)
      have si': "session_inv s' (map op_reply (ops @ new) @ errs) failed"
        using inv' [OF n(4) refl, of s'] res(2,3) by (cases y) auto
      then have done': "session_done received' (ops @ new) s'"
        unfolding session_done_def using drain n(5) by blast
      show ?thesis
      proof (cases y)
        case (Inl e)
        with res y drain done' n(1,2) show ?thesis
          by (intro exI [of _ new] exI [of _ vs'] exI [of _ w']) auto
      next
        case (Inr k)
        have "session_trace received' (ops @ new) s'"
          using y Inr res(3) [OF Inr] by (intro session_traceI [OF drain n(5) si']) (auto split: if_splits)
        with Inr res y done' n(1,2) show ?thesis
          by (intro exI [of _ new] exI [of _ vs'] exI [of _ w']) auto
      qed
    qed
  qed
qed

text \<open>The outcome of a handler, or of the whole loop.\<close>

definition outcome_ok :: "bool \<Rightarrow> char list view \<Rightarrow> Op list \<Rightarrow> 'a result \<Rightarrow> World \<Rightarrow> bool" where
  "outcome_ok c0 w0 h0 x W \<longleftrightarrow> (\<exists>new vs w.
     (case x of
        Inr b \<Rightarrow> world_ok inv ttl c0 w0 W (h0 @ new) vs w
      | Inl e \<Rightarrow> served W (h0 @ new) \<and> spec_run ttl (h0 @ new) (\<lambda>_. Resp2) w0 = Some (vs, w) \<and>
          (\<exists>w'. (w' = w \<or> threw W (h0 @ new) w w') \<and> recoverable (w_db W) w')))"

lemma outcome_okI: "world_ok inv ttl c0 w0 W h vs w \<Longrightarrow> outcome_ok c0 w0 h (Inr b) W"
  unfolding outcome_ok_def by (auto intro!: exI [of _ "[]"] exI [of _ vs] exI [of _ w])

lemma outcome_ok_prefix: "outcome_ok c0 w0 (h @ new) x W \<Longrightarrow> outcome_ok c0 w0 h x W"
  unfolding outcome_ok_def append_assoc by blast

lemma outcome_ok_Inl: "outcome_ok c0 w0 h (Inl e :: 'a result) W \<Longrightarrow> outcome_ok c0 w0 h (Inl e :: 'b result) W"
  unfolding outcome_ok_def by simp

lemma handle_read:
  assumes "world_ok inv ttl c0 w0 W h vs w" and "enabled (ReadDone i envs bytes) W" and "completion_ok (ReadDone i envs bytes)"
    and "handle (ReadDone i envs bytes) W = (x, W')"
  shows "outcome_ok c0 w0 h x W'"
proof -
  let ?s = "w_sessions W ! i" and ?ops = "of_session i h"
  obtain y s' db' where r: "Session_ReadDone envs bytes (?s, w_db W) = (y, (s', db'))" by (rule prod_cases3)
  define received' where "received' = w_received W i @ (case bytes of Some b \<Rightarrow> b | None \<Rightarrow> [])"
  have W': "x = map_sum id (\<lambda>_. False) y" "W' = W\<lparr>w_sessions := (w_sessions W)[i := s'], w_db := db',
      w_received := (w_received W)(i := received')\<rparr>"
    using assms(4) r by (simp_all add: handle_def received'_def)
  have i: "i < length (w_sessions W)" "sk_reading ?s" "sk_open ?s" using assms(2) by (auto simp: enabled_def)
  have ok: "spec_run ttl h (\<lambda>_. Resp2) w0 = Some (vs, w)" "inv (c0 \<and> clean h) (w_db W) w" "vs i = m_version ?s"
    "session_trace (w_received W i) ?ops ?s" "\<forall>op \<in> set h. op_session op < length (w_sessions W)"
    using assms(1) i(1) by (auto simp: world_ok_def)
  have "\<forall>j. iteration_order (env_ord (envs j))" using assms(3) by (simp add: completion_ok_def)
  from read_refines [where vs = vs and i = i, OF ok(2) this ok(3,4) i(2,3) r received'_def]
  obtain new vs' w' where new: "\<forall>op \<in> set new. op_session op = i" "spec_run ttl new vs w = Some (vs', w')"
    "session_done received' (?ops @ new) s'"
    and y: "case y of
       Inr n \<Rightarrow> inv ((c0 \<and> clean h) \<and> clean new) db' w' \<and> vs' = vs(i := m_version s') \<and> session_trace received' (?ops @ new) s'
     | Inl e \<Rightarrow> \<exists>c pend err rest w''. rc.drain received' = (map op_args (?ops @ new) @ c # pend, err, rest) \<and>
         spec_failed (classify c) w' w'' \<and> recoverable db' w''"
    by blast
  note mine = of_session_same [OF new(1)]
  have run: "spec_run ttl (h @ new) (\<lambda>_. Resp2) w0 = Some (vs', w')" by (simp add: spec_run_append ok(1) new(2))
  have served': "served W' (h @ new)"
    using world_ok_served [OF assms(1)] new(1,3) i(1) W'(2) by (auto simp: served_def nth_list_update mine)
  show ?thesis
  proof (cases y)
    case (Inr n)
    with y have "world_ok inv ttl c0 w0 W' (h @ new) vs' w'"
      using assms(1) new(1) run i(1) W'(2) by (auto simp: world_ok_def nth_list_update mine)
    with Inr W'(1) show ?thesis unfolding outcome_ok_def by auto
  next
    case (Inl e)
    with y obtain c pend err rest w'' where "rc.drain received' = (map op_args (?ops @ new) @ c # pend, err, rest)"
      "spec_failed (classify c) w' w''" "recoverable db' w''" by auto
    then have "threw W' (h @ new) w' w''" "recoverable (w_db W') w''"
      using W'(2) i(1) by (auto simp: threw_def wire_requests_def mine intro!: exI [of _ i])
    with Inl W'(1) served' run show ?thesis unfolding outcome_ok_def by auto
  qed
qed

lemma handle_refines:
  assumes "world_ok inv ttl c0 w0 W h vs w" and "enabled c W" and "completion_ok c" and "handle c W = (x, W')"
  shows "outcome_ok c0 w0 h x W'"
proof (cases c)
  case (Accepted e)
  show ?thesis
  proof (cases e)
    case None
    with assms(4) Accepted outcome_okI [OF world_ok_accept [OF assms(1)]] show ?thesis by (auto simp: handle_def)
  next
    case (Some err)
    then have W': "x = Inl err" "W' = W\<lparr>w_server := (w_server W)\<lparr>ac_accepting := False\<rparr>\<rparr>"
      using assms(4) Accepted by (simp_all add: handle_def)
    have "world_ok inv ttl c0 w0 W' h vs w" unfolding W'(2) by (rule world_ok_server [OF assms(1)])
    then have "served W' h" "spec_run ttl h (\<lambda>_. Resp2) w0 = Some (vs, w)" "inv (c0 \<and> clean h) (w_db W') w"
      using world_ok_served by (blast, simp_all add: world_ok_def)
    with stable [of "c0 \<and> clean h" "w_db W'" w] show ?thesis unfolding outcome_ok_def W'(1) by (auto intro!: exI [of _ "[]"])
  qed
next
  case (WriteDone i f)
  with assms(2,4) outcome_okI [OF world_ok_write [OF assms(1)]] show ?thesis by (auto simp: handle_def enabled_def)
next
  case (ReadDone i envs bytes)
  with assms handle_read [OF assms(1)] show ?thesis by blast
qed (use assms(4) outcome_okI [OF world_ok_server [OF assms(1)]] in \<open>auto simp: handle_def\<close>)

theorem io_run_refines:
  assumes "world_ok inv ttl c0 w0 W h vs w" and "\<forall>c \<in> set cs. completion_ok c" and "io_run cs W = (r, W')"
  shows "outcome_ok c0 w0 h (case r of Some x \<Rightarrow> x | None \<Rightarrow> Inr ()) W'"
  using assms
proof (induction cs arbitrary: W h vs w)
  case Nil
  then show ?case using outcome_okI by auto
next
  case (Cons c cs)
  show ?case
  proof (cases "enabled c W")
    case True
    obtain x W1 where hd: "handle c W = (x, W1)" by (cases "handle c W")
    have o: "outcome_ok c0 w0 h x W1" using handle_refines [OF Cons.prems(1) True _ hd] Cons.prems(2) by simp
    show ?thesis
    proof (cases x)
      case (Inl e)
      with outcome_ok_Inl o Cons.prems(3) hd True show ?thesis by auto
    next
      case (Inr stop)
      with o obtain new vs1 w1 where w1: "world_ok inv ttl c0 w0 W1 (h @ new) vs1 w1" unfolding outcome_ok_def by auto
      show ?thesis
        using Cons.prems(2,3) hd True Inr outcome_ok_prefix [OF outcome_okI [OF w1]] outcome_ok_prefix [OF Cons.IH [OF w1]]
        by (cases stop) auto
    qed
  qed (use Cons in auto)
qed

end

section \<open>Properties\<close>

lemma world_ok_requests:
  assumes "world_ok I ttl c0 w0 W h vs w" and "i < length (w_sessions W)" and "\<not> m_closeAfterWrite (w_sessions W ! i)"
  shows "map op_args (of_session i h) = wire_requests (w_received W i)"
  using assms by (auto simp: world_ok_def session_trace_def wire_requests_def)

context kv_backend
begin

lemma server_refines:
  assumes "inv c0 db w0" and "\<forall>c \<in> set (cs1 @ cs2). completion_ok c"
    and "io_run cs1 (World_start db) = (None, W1)" and "io_run cs2 W1 = (r, W)"
  shows "\<exists>h1 h2 vs w. served W1 h1 \<and> served W (h1 @ h2) \<and> spec_run ttl (h1 @ h2) (\<lambda>_. Resp2) w0 = Some (vs, w) \<and>
    (case r of
       Some (Inl e) \<Rightarrow> \<exists>w'. (w' = w \<or> threw W (h1 @ h2) w w') \<and> recoverable (w_db W) w'
     | _ \<Rightarrow> inv (c0 \<and> clean (h1 @ h2)) (w_db W) w \<and> (\<forall>i < length (w_sessions W). \<not> m_closeAfterWrite (w_sessions W ! i) \<longrightarrow>
              map op_args (of_session i (h1 @ h2)) = wire_requests (w_received W i)))"
proof -
  have ok: "\<forall>c \<in> set cs1. completion_ok c" "\<forall>c \<in> set cs2. completion_ok c" using assms(2) by auto
  from io_run_refines [OF world_ok_start [where I = inv, OF assms(1)] ok(1) assms(3)] obtain h1 vs1 w1 where
    w1: "world_ok inv ttl c0 w0 W1 h1 vs1 w1" unfolding outcome_ok_def by auto
  note out = io_run_refines [OF w1 ok(2) assms(4)]
  have fine: ?thesis if "r = None \<or> r = Some (Inr ())"
  proof -
    from that out obtain h2 vs w where w2: "world_ok inv ttl c0 w0 W (h1 @ h2) vs w" unfolding outcome_ok_def by auto
    then have "inv (c0 \<and> clean (h1 @ h2)) (w_db W) w" "spec_run ttl (h1 @ h2) (\<lambda>_. Resp2) w0 = Some (vs, w)" by (simp_all add: world_ok_def)
    moreover have "\<forall>i < length (w_sessions W). \<not> m_closeAfterWrite (w_sessions W ! i) \<longrightarrow>
        map op_args (of_session i (h1 @ h2)) = wire_requests (w_received W i)"
      using world_ok_requests [OF w2] by blast
    ultimately show ?thesis
      using that world_ok_served [OF w1] world_ok_served [OF w2]
      by (intro exI [of _ h1] exI [of _ h2] exI [of _ vs] exI [of _ w]) (elim disjE, simp_all del: filter_append)
  qed
  show ?thesis
  proof (cases r)
    case (Some x)
    show ?thesis
    proof (cases x)
      case (Inl e)
      from out [unfolded Some Inl option.case outcome_ok_def sum.case] obtain h2 vs w where
        "served W (h1 @ h2)" "spec_run ttl (h1 @ h2) (\<lambda>_. Resp2) w0 = Some (vs, w)"
        "\<exists>w'. (w' = w \<or> threw W (h1 @ h2) w w') \<and> recoverable (w_db W) w'"
        by (elim exE conjE) blast
      with world_ok_served [OF w1] Some Inl show ?thesis
        by (intro exI [of _ h1] exI [of _ h2] exI [of _ vs] exI [of _ w]) simp
    qed (use fine Some in simp)
  qed (use fine in simp)
qed

lemma server_recoverable:
  assumes "inv c0 db w0" and "\<forall>c \<in> set cs. completion_ok c" and "io_run cs (World_start db) = (r, W)"
  obtains h vs w w' where "served W h" and "spec_run ttl h (\<lambda>_. Resp2) w0 = Some (vs, w)"
    and "w' = w \<or> (\<exists>e. r = Some (Inl e)) \<and> threw W h w w'" and "recoverable (w_db W) w'"
    and "(\<exists>e. r = Some (Inl e)) \<or> (\<forall>i < length (w_sessions W). \<not> m_closeAfterWrite (w_sessions W ! i) \<longrightarrow>
      map op_args (of_session i h) = wire_requests (w_received W i))"
proof -
  note out = io_run_refines [OF world_ok_start [where I = inv, OF assms(1)] assms(2,3)] and result = that
  have fine: thesis if "r = None \<or> r = Some (Inr ())"
  proof -
    from that out obtain h vs w where w: "world_ok inv ttl c0 w0 W h vs w" unfolding outcome_ok_def by auto
    have "spec_run ttl h (\<lambda>_. Resp2) w0 = Some (vs, w)" "inv (c0 \<and> clean h) (w_db W) w"
      using w by (simp_all add: world_ok_def)
    with result [of h vs w w] world_ok_served [OF w] stable [of "c0 \<and> clean h" "w_db W" w] world_ok_requests [OF w]
    show thesis by blast
  qed
  show thesis
  proof (cases r)
    case (Some x)
    show thesis
    proof (cases x)
      case (Inl e)
      with out [unfolded Some Inl option.case outcome_ok_def sum.case append_Nil] Some that show thesis by blast
    qed (use fine Some in simp)
  qed (use fine in simp)
qed

end

text \<open>
  (C1) The server is linearizable. Let any number of sessions be served from a database with a log
  without an unfinished record, with any time to live, in any order of completed reads, writes and accepts, with any failures of
  sockets, disk and device. Then there is one sequence of the executed requests such that executing
  them one after the other on the contents gives exactly the replies that were queued and the
  contents that the database has; for each session it holds the requests that arrived there in their
  order, all of them as long as the session is not closing, and its replies are what the session
  sent or still has to send; what was executed earlier is a first part of it. When a handler throws,
  the log on disk still replays to the contents after the executed requests, of which the request
  that threw can only have deleted some of its keys.
\<close>

theorem server_is_linearizable:
  assumes "durable filename ttl c0 db w0" and "\<forall>c \<in> set (cs1 @ cs2). completion_ok c"
    and "io_run cs1 (World_start db) = (None, W1)" and "io_run cs2 W1 = (r, W)"
  shows "\<exists>h1 h2 vs w. served W1 h1 \<and> served W (h1 @ h2) \<and> spec_run ttl (h1 @ h2) (\<lambda>_. Resp2) w0 = Some (vs, w) \<and>
    (case r of
       Some (Inl e) \<Rightarrow> \<exists>w'. (w' = w \<or> threw W (h1 @ h2) w w') \<and> logged filename ttl (w_db W) w'
     | _ \<Rightarrow> durable filename ttl (c0 \<and> clean (h1 @ h2)) (w_db W) w \<and> (\<forall>i < length (w_sessions W). \<not> m_closeAfterWrite (w_sessions W ! i) \<longrightarrow>
              map op_args (of_session i (h1 @ h2)) = wire_requests (w_received W i)))"
  by (rule durable_db.server_refines [OF assms])

text \<open>Two clients: the first writes a key, the second reads it.\<close>

definition two_clients :: "Completion list" where
  "two_clients = [Accepted None, Accepted None,
     ReadDone 0 (\<lambda>_. demo_env) (Some (EncodeCommand [''SET'', ''k'', ''v''])),
     ReadDone 1 (\<lambda>_. demo_env) (Some (EncodeCommand [''GET'', ''k'']))]"

lemma two_clients_ok: "\<forall>c \<in> set ([] @ two_clients). completion_ok c"
  by (simp add: two_clients_def completion_ok_def demo_env_def iteration_order_id)

lemma fresh_durable:
  obtains db fs where "durable ''db'' ttl True (db, fs) Map.empty"
proof -
  obtain db where db: "RadishDB_new_ttl std_string ''db'' ttl Flush healthy (\<lambda>_. 0) Map.empty =
      (Inr db, [log_name ''db'' \<mapsto> log_bytes std_string []])" "m_store db = RadishStore_new ttl"
    using open_fresh [OF readable_healthy, of Map.empty "''db''" std_string ttl "\<lambda>_. 0"]
    by (auto simp: writable_def healthy_def)
  from open_new_file [OF _ db(1)] have "durable ''db'' ttl True (db, [log_name ''db'' \<mapsto> log_bytes std_string []]) Map.empty"
    by (auto simp: durable_def run_log_def fun_eq_iff store_view_def RadishStore_new_def umap_find_def intro!: exI [of _ "[]"])
  with that show thesis .
qed

theorem server_is_linearizable_witness:
  "\<exists>db r W h vs w. durable ''db'' 50 True db Map.empty \<and> io_run two_clients (World_start db) = (r, W) \<and> served W h \<and>
     spec_run 50 h (\<lambda>_. Resp2) Map.empty = Some (vs, w)"
proof -
  obtain db fs where d: "durable ''db'' 50 True (db, fs) Map.empty" by (rule fresh_durable)
  obtain r W where run: "io_run two_clients (World_start (db, fs)) = (r, W)" by (cases "io_run two_clients (World_start (db, fs))")
  from server_is_linearizable [OF d two_clients_ok _ run] obtain h1 h2 vs w where
    "served W (h1 @ h2)" "spec_run 50 (h1 @ h2) (\<lambda>_. Resp2) Map.empty = Some (vs, w)" by auto
  with d run show ?thesis by blast
qed

text \<open>
  (C35) The same holds without persistence: the server then never fails on a write to the log, and
  the contents are those of the executed requests, whatever the order of completions.
\<close>

theorem volatile_server_is_linearizable:
  assumes "volatile ttl c0 db w0" and "\<forall>c \<in> set (cs1 @ cs2). completion_ok c"
    and "io_run cs1 (World_start db) = (None, W1)" and "io_run cs2 W1 = (r, W)"
  shows "\<exists>h1 h2 vs w. served W1 h1 \<and> served W (h1 @ h2) \<and> spec_run ttl (h1 @ h2) (\<lambda>_. Resp2) w0 = Some (vs, w) \<and>
    (case r of
       Some (Inl e) \<Rightarrow> \<exists>w'. (w' = w \<or> threw W (h1 @ h2) w w') \<and> volatile ttl True (w_db W) w'
     | _ \<Rightarrow> volatile ttl (c0 \<and> clean (h1 @ h2)) (w_db W) w \<and> (\<forall>i < length (w_sessions W). \<not> m_closeAfterWrite (w_sessions W ! i) \<longrightarrow>
              map op_args (of_session i (h1 @ h2)) = wire_requests (w_received W i)))"
  by (rule volatile_db.server_refines [OF assms])

theorem volatile_server_is_linearizable_witness:
  "\<exists>r W h vs w. io_run two_clients (World_start empty_database) = (r, W) \<and> served W h \<and>
     spec_run (-1) h (\<lambda>_. Resp2) Map.empty = Some (vs, w)"
proof -
  have d: "volatile (-1) True empty_database Map.empty"
    by (simp add: volatile_def empty_database_def RadishStore_new_def store_ok_def umap_ok_def
        RadishStore_HasTimeToLive_def fun_eq_iff store_view_def umap_find_def)
  obtain r W where run: "io_run two_clients (World_start empty_database) = (r, W)"
    by (cases "io_run two_clients (World_start empty_database)")
  from volatile_server_is_linearizable [OF d two_clients_ok _ run] obtain h1 h2 vs w where
    "served W (h1 @ h2)" "spec_run (-1) (h1 @ h2) (\<lambda>_. Resp2) Map.empty = Some (vs, w)" by auto
  with run show ?thesis by blast
qed

end
