(* ===== verification/Session_Bounds.thy ===== *)
theory Session_Bounds
  imports Server_World
begin

text \<open>
  How much a client can make the server do and hold (\<^verbatim>\<open>src/network/TcpServer.cpp\<close>): the loop over
  the buffered requests runs at most once per ten buffered bytes, because no request is shorter,
  and the buffer of a session never grows past the limit by more than one read.
\<close>

section \<open>The size of a request\<close>

definition request_size :: "string list \<Rightarrow> nat" where
  "request_size args = 4 + sum_list (map (\<lambda>a. 6 + length a) args)"

lemma ParseNumber_size:
  assumes "ParseNumber s pos = Inr (NumberComplete v nxt)"
  shows "pos + 3 \<le> nxt"
proof (cases "sv_find_crlf s pos")
  case (Some t)
  with assms sv_find_bound [OF Some] show ?thesis
    by (auto simp: ParseNumber_def sv_substr_def split: prod.splits option.splits if_splits)
qed (use assms in \<open>simp add: ParseNumber_def\<close>)

lemma parse_argument_size:
  assumes "parse_argument input offset = Argument a nxt"
  shows "offset + 6 + length a \<le> nxt"
  using assms ParseNumber_size [of input "Suc offset"]
  by (auto simp: parse_argument_def split: if_splits sum.splits NumberStatus.splits)

lemma loop_size:
  assumes "ParseCommand_loop input remaining offset args = Inr r" and "rp_status r = Complete" and "offset \<le> length input"
  shows "offset + sum_list (map (\<lambda>a. 6 + length a) (drop (length args) (rp_arguments r))) \<le> rp_consumed r \<and>
    take (length args) (rp_arguments r) = args"
  using assms
proof (induction remaining arbitrary: offset args)
  case 0
  then show ?case by auto
next
  case (Suc remaining)
  show ?case
  proof (cases "parse_argument input offset")
    case (Argument a nxt)
    then have loop: "ParseCommand_loop input remaining nxt (args @ [a]) = Inr r"
      using Suc.prems(1,3) by (simp add: loop_Suc)
    have nxt: "nxt \<le> length input" using parse_argument_bound [OF Argument] by simp
    note ih = Suc.IH [OF loop Suc.prems(2) nxt]
    then have t: "take (Suc (length args)) (rp_arguments r) = args @ [a]" by simp
    then have len: "length args < length (rp_arguments r)"
      by (metis length_append_singleton length_take lessI min_less_iff_conj)
    have ti: "take (length args) (rp_arguments r) @ [rp_arguments r ! length args] = args @ [a]"
      using t take_Suc_conv_app_nth [OF len] by simp
    then have "drop (length args) (rp_arguments r) = a # drop (Suc (length args)) (rp_arguments r)"
      using Cons_nth_drop_Suc [OF len] by simp
    with ih ti parse_argument_size [OF Argument] show ?thesis by simp
  next
    case (Stop q)
    with Suc.prems parse_argument_Stop [OF Stop] show ?thesis
      by (auto simp: loop_Suc parse_more_def parse_error_def)
  qed
qed

lemma ParseCommand_size:
  assumes "ParseCommand input = Inr r" and "rp_status r = Complete"
  shows "request_size (rp_arguments r) \<le> rp_consumed r"
proof -
  obtain status where st: "ParseNumber input 1 = Inr status" using ParseNumber_total by blast
  have "input \<noteq> []" using assms by (auto simp: ParseCommand_def parse_more_def)
  with assms st obtain cnt offset where n: "ParseNumber input 1 = Inr (NumberComplete cnt offset)"
    and loop: "ParseCommand_loop input (nat cnt) offset [] = Inr r"
    by (cases status) (auto simp: ParseCommand_def sv_at_def parse_more_def parse_error_def split: if_splits)
  have "4 \<le> offset" "offset \<le> length input" using ParseNumber_size [OF n] ParseNumber_bound [OF n] by simp_all
  with loop_size [OF loop assms(2)] show ?thesis by (simp add: request_size_def)
qed

lemma request_size_ge: "args \<noteq> [] \<Longrightarrow> 10 \<le> request_size args"
  by (cases args) (simp_all add: request_size_def)

lemma outcome_size:
  assumes "command_outcome x = Done c n"
  shows "request_size c \<le> n \<and> 10 \<le> n \<and> n \<le> length x"
proof -
  from assms obtain r where r: "ParseCommand x = Inr r" "rp_status r = Complete" "rp_arguments r = c" "rp_consumed r = n"
    by (auto simp: outcome_Complete)
  with ParseCommand_size [OF r(1,2)] parsed_args_ok [OF r(1,2)] request_size_ge [of c] rc.done_consumes [OF assms] show ?thesis
    by (auto simp: args_ok_def)
qed

section \<open>The work of one read\<close>

lemma Process_input: "Session_Process envs i (s, db) = (r, (s', db')) \<Longrightarrow> length (m_input s') \<le> length (m_input s)"
  by (induction rule: Process_induct) auto

text \<open>
  What the loop has added to the output when it took \<open>n\<close> requests from the input \<open>bytes\<close> of the session
  \<open>s\<close>: one reply for each, and at most one protocol error, after which the session closes. If it goes on,
  there was no other complete request.
\<close>

definition replied :: "string \<Rightarrow> Session \<Rightarrow> nat \<Rightarrow> Session \<Rightarrow> bool" where
  "replied bytes s n s' \<longleftrightarrow>
     (\<exists>replies errors. m_output s' = m_output s @ replies @ errors \<and> length replies = n \<and>
        (errors = [] \<or> (\<exists>message. errors = [RespCodec_Error message]) \<and> m_closeAfterWrite s')) \<and>
     n \<le> length (wire_requests bytes) \<and> (m_closeAfterWrite s' \<or> n = length (wire_requests bytes))"

lemma wire_requests_Done: "command_outcome x = Done c n \<Longrightarrow> wire_requests x = c # wire_requests (drop n x)"
  by (cases "rc.drain (drop n x)") (simp add: wire_requests_def rc.drain_Done)

lemma Process_work:
  assumes "Session_Process envs i (s, db) = (r, (s', db'))" and "r = Inr n"
  shows "i \<le> n \<and> 10 * (n - i) + length (m_input s') \<le> length (m_input s) \<and> replied (m_input s) s (n - i) s'"
  using assms
proof (induction rule: Process_induct)
  case (idle i s db)
  then show ?case by (auto simp: replied_def wire_requests_def rc.drain_More)
next
  case (bad i s db e)
  then show ?case by (auto simp: replied_def)
next
  case (step i s db c k response close v db1 r s' db')
  from step(5) [OF step(6)] have ih: "Suc i \<le> n" "10 * (n - Suc i) + length (m_input s') \<le> length (m_input s) - k"
    and replied: "replied (drop k (m_input s)) (Session_Queue response close (s\<lparr>m_input := drop k (m_input s), m_version := v\<rparr>)) (n - Suc i) s'"
    by simp_all
  from replied obtain replies errors where "m_output s' = m_output s @ (response # replies) @ errors"
    "length replies = n - Suc i" "errors = [] \<or> (\<exists>message. errors = [RespCodec_Error message]) \<and> m_closeAfterWrite s'"
    unfolding replied_def by (elim conjE exE) simp
  moreover from this(2) ih(1) have "length (response # replies) = n - i" by simp
  moreover have "n - i \<le> length (wire_requests (m_input s)) \<and> (m_closeAfterWrite s' \<or> n - i = length (wire_requests (m_input s)))"
    using replied ih(1) by (auto simp: replied_def wire_requests_Done [OF step(2)])
  ultimately have "replied (m_input s) s (n - i) s'" unfolding replied_def by blast
  moreover have "10 * (n - i) + length (m_input s') \<le> length (m_input s)"
    using ih outcome_size [OF step(2)] by linarith
  ultimately show ?case using ih(1) by simp
qed simp

section \<open>The buffers\<close>

definition buffer_ok :: "Session \<Rightarrow> bool" where
  "buffer_ok s \<longleftrightarrow> length (m_input s) \<le> kMaxBufferedInput + kReadBuffer \<and>
     (sk_reading s \<longrightarrow> length (m_input s) \<le> kMaxBufferedInput)"

lemma ReadDone_buffer:
  assumes "Session_ReadDone envs received (s, db) = (r, (s', db'))" and "buffer_ok s" and "sk_reading s"
    and "case received of Some bytes \<Rightarrow> length bytes \<le> kReadBuffer | None \<Rightarrow> True"
  shows "buffer_ok s'"
proof (cases received)
  case None
  with assms show ?thesis by (auto simp: Session_ReadDone_def buffer_ok_def)
next
  case (Some bytes)
  let ?s = "s\<lparr>sk_reading := False, m_input := m_input s @ bytes\<rparr>"
  show ?thesis
  proof (cases "length (m_input s @ bytes) > kMaxBufferedInput")
    case True
    with assms Some show ?thesis by (auto simp: Session_ReadDone_def buffer_ok_def)
  next
    case False
    obtain y s2 db2 where p: "Session_Process envs 0 (?s, db) = (y, (s2, db2))" by (rule prod_cases3)
    have "length (m_input s2) \<le> kMaxBufferedInput" using Process_input [OF p] False by simp
    with assms(1) Some False p show ?thesis
      by (auto simp: Session_ReadDone_def buffer_ok_def split: sum.splits if_splits)
  qed
qed

lemma handle_buffers:
  assumes "\<forall>s \<in> set (w_sessions W). buffer_ok s" and "enabled c W" and "handle c W = (x, W')"
  shows "\<forall>s \<in> set (w_sessions W'). buffer_ok s"
proof (cases c)
  case (Accepted e)
  with assms show ?thesis
    by (cases e) (auto simp: handle_def buffer_ok_def Session_Start_def Session_new_def)
next
  case (ReadDone i envs received)
  obtain y s' db' where r: "Session_ReadDone envs received (w_sessions W ! i, w_db W) = (y, (s', db'))" by (rule prod_cases3)
  have "buffer_ok s'"
    using assms(1,2) ReadDone by (intro ReadDone_buffer [OF r]) (auto simp: enabled_def split: option.splits)
  with assms(1,3) ReadDone r show ?thesis
    by (auto simp: handle_def dest!: subsetD [OF set_update_subset_insert])
next
  case (WriteDone i f)
  have "buffer_ok (Session_WriteDone f (w_sessions W ! i))"
    using assms(1,2) WriteDone
    by (auto simp: enabled_def buffer_ok_def Session_WriteDone_def Session_Write_def Let_def split: option.split)
  with assms(1,3) WriteDone show ?thesis
    by (auto simp: handle_def dest!: subsetD [OF set_update_subset_insert])
qed (use assms in \<open>auto simp: handle_def\<close>)

lemma io_run_buffers:
  assumes "\<forall>s \<in> set (w_sessions W). buffer_ok s" and "io_run cs W = (r, W')"
  shows "\<forall>s \<in> set (w_sessions W'). buffer_ok s"
  using assms
proof (induction cs arbitrary: W)
  case (Cons c cs)
  obtain x W1 where h: "handle c W = (x, W1)" by (cases "handle c W")
  show ?case
    using Cons.prems(2) Cons.IH [of W] Cons.IH [of W1] Cons.prems(1) handle_buffers [OF Cons.prems(1) _ h] h
    by (auto split: if_splits sum.splits)
qed simp

section \<open>Properties\<close>

text \<open>
  (C30) Handling one read terminates after at most one request per ten buffered bytes: whatever the
  client sends, a request takes at least ten bytes out of the buffer, so that no more than
  838860 requests are executed before the next session gets its turn. Unless a handler throws, the output
  grows by exactly one reply for each executed request, followed by at most one protocol error, after which
  the session closes; and unless the session is closing, every complete request of the buffer was
  executed.
\<close>

theorem work_of_one_read_is_bounded:
  assumes "Session_ReadDone envs (Some bytes) (s, db) = (Inr n, (s', db'))"
  shows "10 * n + length (m_input s') \<le> length (m_input s) + length bytes \<and> n \<le> 838860 \<and>
    replied (m_input s @ bytes) s n s'"
proof (cases "length (m_input s @ bytes) > kMaxBufferedInput")
  case True
  with assms show ?thesis by (auto simp: Session_ReadDone_def replied_def)
next
  case False
  let ?s = "s\<lparr>sk_reading := False, m_input := m_input s @ bytes\<rparr>"
  obtain y s2 db2 where p: "Session_Process envs 0 (?s, db) = (y, (s2, db2))" by (rule prod_cases3)
  with assms False have y: "y = Inr n" "m_input s' = m_input s2" "m_output s' = m_output s2" "m_closeAfterWrite s' = m_closeAfterWrite s2"
    by (auto simp: Session_ReadDone_def split: sum.splits if_splits)
  with Process_work [OF p y(1)] False show ?thesis by (simp add: kMaxBufferedInput_def replied_def)
qed

theorem work_of_one_read_is_bounded_witness:
  "\<exists>n s' db'. Session_ReadDone (\<lambda>_. demo_env) (Some (EncodeCommand [''PING''])) (Session_Start Session_new, empty_database) =
     (Inr n, (s', db')) \<and> n \<le> 1 \<and> replied (EncodeCommand [''PING'']) (Session_Start Session_new) n s'"
proof -
  have d: "rc.drain (EncodeCommand [''PING'']) = ([[''PING'']], None, [])"
    using drain_encoded [of "[[''PING'']]" "[]"] rc.parse_Nil by (simp add: command_ok_def kMaxArguments_def kMaxBulkLength_def)
  have "Uppercase ''PING'' = ''PING''" by (simp add: Uppercase_def toupper_def)
  then have "answer demo_env [''PING''] Resp2 empty_database = (Inr (RespCodec_SimpleString ''PONG'', False), Resp2, empty_database)"
    by (subst answer_handler [where h = HandlePing]) (simp_all add: find_handlers HandlePing_def)
  then have sv: "serve (\<lambda>_. demo_env) 0 [[''PING'']] (m_version (Session_Start Session_new)) empty_database =
      Inr ([RespCodec_SimpleString ''PONG''], False, Resp2, empty_database)"
    by (simp add: Session_new_def Session_Start_def)
  have s: "m_input (Session_Start Session_new) = []" "\<not> m_closeAfterWrite (Session_Start Session_new)"
    by (simp_all add: Session_Start_def Session_new_def)
  have len: "length (EncodeCommand [''PING'']) = 14" by (simp add: EncodeCommand_def to_string_nat.simps)
  then have "length (EncodeCommand [''PING'']) \<le> kMaxBufferedInput" by (simp add: kMaxBufferedInput_def)
  from ReadDone_serve [OF s d this sv] obtain n s' where
    r: "Session_ReadDone (\<lambda>_. demo_env) (Some (EncodeCommand [''PING''])) (Session_Start Session_new, empty_database) =
      (Inr n, (s', empty_database))" by blast
  from work_of_one_read_is_bounded [OF r] len s(1)
  have "n \<le> 1" "replied (EncodeCommand [''PING'']) (Session_Start Session_new) n s'" by simp_all
  with r show ?thesis by blast
qed

text \<open>
  (C31) However the sessions are driven, the input buffer of a session holds at most the limit of
  8 MiB and one read more, and at most the limit while the session goes on reading.
\<close>

theorem buffers_stay_bounded:
  assumes "io_run cs (World_start db) = (r, W)"
  shows "list_all (\<lambda>s. length (m_input s) \<le> kMaxBufferedInput + kReadBuffer \<and>
    (if sk_reading s then length (m_input s) \<le> kMaxBufferedInput else True)) (w_sessions W)"
  using io_run_buffers [OF _ assms] by (auto simp: World_start_def list_all_iff buffer_ok_def)

theorem buffers_stay_bounded_witness:
  "\<exists>r W. io_run two_clients (World_start empty_database) = (r, W) \<and>
     list_all (\<lambda>s. length (m_input s) \<le> kMaxBufferedInput + kReadBuffer) (w_sessions W)"
proof -
  obtain r W where run: "io_run two_clients (World_start empty_database) = (r, W)"
    by (cases "io_run two_clients (World_start empty_database)")
  from buffers_stay_bounded [OF run] run show ?thesis by (auto simp: list_all_iff)
qed

end
