(* ===== verification/System_Clock.thy ===== *)
theory System_Clock
  imports Radish_Store "HOL-Library.Signed_Division"
begin

text \<open>
  \<^verbatim>\<open>include/helpers/SystemClock.h\<close>: the time of the system clock in milliseconds. The clock of
  the C++ library counts nanoseconds since the epoch in a signed 64-bit integer, and
  \<^verbatim>\<open>duration_cast\<close> to milliseconds is the division of integers, which rounds towards zero. What
  the operating system delivers is the argument of \<open>SystemClock_Now\<close>.
\<close>

definition SystemClock_Now :: "64 word \<Rightarrow> Timestamp" where
  "SystemClock_Now nanoseconds = word_of_int (sint nanoseconds sdiv 1000000)"

lemma sint_range64: "- (2 ^ 63) \<le> sint (x :: 64 word) \<and> sint x < 2 ^ 63"
  using sint_ge [of x] sint_lt [of x] by simp

lemma sdiv_million: "(a :: int) sdiv 1000000 = (if 0 \<le> a then a div 1000000 else - (- a div 1000000))"
  by (auto simp: signed_divide_int_def sgn_if)

lemma sint_Now: "sint (SystemClock_Now ns) = sint ns sdiv 1000000"
proof -
  have "- (2 ^ 63) \<le> sint ns sdiv 1000000 \<and> sint ns sdiv 1000000 < 2 ^ 63"
    using sint_range64 [of ns] unfolding sdiv_million by (auto; presburger)
  then show ?thesis
    unfolding SystemClock_Now_def sint_sbintrunc' by (intro signed_take_bit_int_eq_self) simp_all
qed

lemma Now_range: "\<bar>sint (SystemClock_Now ns)\<bar> \<le> 9223372036854"
proof -
  have "sint ns div 1000000 \<le> 9223372036854" "0 \<le> sint ns \<Longrightarrow> 0 \<le> sint ns div 1000000"
    "- sint ns div 1000000 \<le> 9223372036854" "sint ns < 0 \<Longrightarrow> 0 \<le> - sint ns div 1000000"
    using sint_range64 [of ns] by auto
  then show ?thesis unfolding sint_Now sdiv_million by auto
qed

text \<open>A clock that is not set back stays so after rounding.\<close>

lemma Now_mono: "sint a \<le> sint b \<Longrightarrow> sint (SystemClock_Now a) \<le> sint (SystemClock_Now b)"
proof -
  assume le: "sint a \<le> sint b"
  then have "sint a div 1000000 \<le> sint b div 1000000" "- sint b div 1000000 \<le> - sint a div 1000000"
    by (simp_all add: zdiv_mono1)
  moreover have "sint a < 0 \<Longrightarrow> 0 \<le> - sint a div 1000000" by simp
  moreover have "0 \<le> sint b \<Longrightarrow> 0 \<le> sint b div 1000000" by simp
  ultimately show ?thesis unfolding sint_Now sdiv_million using le by auto
qed

section \<open>Properties\<close>

text \<open>
  (C36) With the system clock, the expiry of a new key is its time of creation plus the time to live,
  without overflow, for every time to live up to 292 million years, whatever the clock delivers; the
  largest time to live that the command line accepts overflows at every time after the first
  millisecond since the epoch.
\<close>

theorem expiry_overflows_only_for_absurd_ttl:
  assumes "RadishStore_HasTimeToLive s"
  shows "(0 \<le> sint (m_ttl s) \<and> sint (m_ttl s) < 2 ^ 63 - 9223372036854 \<longrightarrow>
      (\<exists>t. RadishStore_NewExpiryTimestamp (SystemClock_Now ns) s = Inr t \<and>
        sint t = sint (SystemClock_Now ns) + sint (m_ttl s))) \<and>
    (m_ttl s = 9223372036854775807 \<and> 1000000 \<le> sint ns \<longrightarrow>
      RadishStore_NewExpiryTimestamp (SystemClock_Now ns) s = Inl (UndefinedBehaviour ''signed overflow''))"
proof (intro conjI impI)
  assume ttl: "0 \<le> sint (m_ttl s) \<and> sint (m_ttl s) < 2 ^ 63 - 9223372036854"
  then have "- (2 ^ 63) \<le> sint (SystemClock_Now ns) + sint (m_ttl s)" "sint (SystemClock_Now ns) + sint (m_ttl s) < 2 ^ 63"
    using Now_range [of ns] by auto
  then have a: "add_ll (SystemClock_Now ns) (m_ttl s) = Inr (word_of_int (sint (SystemClock_Now ns) + sint (m_ttl s)))"
    by (simp add: add_ll_def)
  with add_ll_Inr [OF a] assms show "\<exists>t. RadishStore_NewExpiryTimestamp (SystemClock_Now ns) s = Inr t \<and>
      sint t = sint (SystemClock_Now ns) + sint (m_ttl s)"
    by (simp add: RadishStore_NewExpiryTimestamp_def)
next
  assume ttl: "m_ttl s = 9223372036854775807 \<and> 1000000 \<le> sint ns"
  then have "1 \<le> sint (SystemClock_Now ns)" unfolding sint_Now sdiv_million by auto
  moreover have "sint (m_ttl s) = 9223372036854775807" using ttl by simp
  ultimately show "RadishStore_NewExpiryTimestamp (SystemClock_Now ns) s = Inl (UndefinedBehaviour ''signed overflow'')"
    using assms by (simp add: RadishStore_NewExpiryTimestamp_def add_ll_def)
qed

theorem expiry_overflows_only_for_absurd_ttl_witness:
  "RadishStore_NewExpiryTimestamp (SystemClock_Now 1700000000000000000) (RadishStore_new 9223372036854775807 :: string RadishStore) =
     Inl (UndefinedBehaviour ''signed overflow'')"
proof -
  let ?s = "RadishStore_new 9223372036854775807 :: string RadishStore"
  have "RadishStore_HasTimeToLive ?s" by (simp add: RadishStore_HasTimeToLive_def RadishStore_new_def)
  from expiry_overflows_only_for_absurd_ttl [OF this, of 1700000000000000000] show ?thesis by (simp add: RadishStore_new_def)
qed

end
