(* ===== verification/Expiring_Log.thy ===== *)
theory Expiring_Log
  imports Recovery System_Clock
begin

text \<open>
  Logs of a database with a time to live, read as histories of a map from keys to values with the
  instant at which they expire (\<open>log_map\<close>). A log is \<open>ordered\<close> when nothing in it is
  overwritten by something that expires earlier.

  The store that replays such a log, and the log that compaction makes of it, answer from the instant of
  the replay or compaction on as this map does, although replaying skips renames of keys that have
  expired meanwhile and compaction skips creations that have. Expired entries may disappear from the
  log, from memory and from the map at different times, so all of them are compared by what they
  answer from an instant on.
\<close>

section \<open>Views that answer alike from an instant on\<close>

definition agree :: "int \<Rightarrow> char list view \<Rightarrow> char list view \<Rightarrow> bool" where
  "agree t v w \<longleftrightarrow> (\<forall>k now. t \<le> sint now \<longrightarrow> view_get now v k = view_get now w k)"

lemma agree_refl [simp]: "agree t v v"
  by (simp add: agree_def)

lemma view_get_upd: "view_get now (w(k := x)) k' = (if k' = k then view_get now (\<lambda>_. x) k else view_get now w k')"
  by (simp add: view_get_def)

lemma agree_upd: "agree t v w \<Longrightarrow> agree t (v(k := x)) (w(k := x))"
  unfolding agree_def view_get_upd by simp

text \<open>An entry that has expired can be dropped, and one that has not been there can come expired.\<close>

lemma agree_expired:
  assumes "agree t v w" and "sint ts \<le> t" and "\<And>p x. v k = Some (p, x) \<Longrightarrow> \<exists>ts'. x = Some ts' \<and> sint ts' \<le> t"
  shows "agree t v (w(k \<mapsto> (p, Some ts)))"
  unfolding agree_def
proof (intro allI impI)
  fix k' and now :: Timestamp assume t: "t \<le> sint now"
  show "view_get now v k' = view_get now (w(k \<mapsto> (p, Some ts))) k'"
  proof (cases "k' = k")
    case True
    have "view_get now v k = None"
      using assms(3) t by (cases "v k") (fastforce simp: view_get_def)+
    with True t assms(2) show ?thesis by (simp add: view_get_def)
  next
    case False
    with assms(1) t show ?thesis by (simp add: agree_def view_get_upd)
  qed
qed

section \<open>Maps of expiring entries\<close>

type_synonym expiring_map = "string \<Rightarrow> (char list \<times> int) option"

definition expiring_get :: "Timestamp \<Rightarrow> expiring_map \<Rightarrow> string \<Rightarrow> char list option" where
  "expiring_get now m k = (case m k of Some (v, x) \<Rightarrow> if sint now < x then Some v else None | None \<Rightarrow> None)"

definition matches :: "int \<Rightarrow> char list view \<Rightarrow> expiring_map \<Rightarrow> bool" where
  "matches n w m \<longleftrightarrow> (\<forall>k now. n \<le> sint now \<longrightarrow> view_get now w k = expiring_get now m k)"

lemma matches_agree: "matches n w m \<Longrightarrow> agree n v w \<Longrightarrow> matches n v m"
  by (simp add: matches_def agree_def)

lemma matches_later: "matches n w m \<Longrightarrow> n \<le> t \<Longrightarrow> matches t w m"
  by (simp add: matches_def)

lemma matches_events:
  "matches n w m \<Longrightarrow> matches n (w(k \<mapsto> (v, Some t))) (m(k \<mapsto> (v, sint t)))"
  "matches n w m \<Longrightarrow> matches n (w(k := None)) (m(k := None))"
  "matches n Map.empty Map.empty"
  by (simp_all add: matches_def view_get_upd view_get_def expiring_get_def)

definition same_from :: "int \<Rightarrow> expiring_map \<Rightarrow> expiring_map \<Rightarrow> bool" where
  "same_from n m m' \<longleftrightarrow> (\<forall>k now. n \<le> sint now \<longrightarrow> expiring_get now m k = expiring_get now m' k)"

lemma same_from_refl [simp]: "same_from n m m"
  by (simp add: same_from_def)

lemma same_from_trans: "same_from n m m1 \<Longrightarrow> same_from n m1 m2 \<Longrightarrow> same_from n m m2"
  by (simp add: same_from_def)

lemma same_from_later: "same_from n m m' \<Longrightarrow> n \<le> t \<Longrightarrow> same_from t m m'"
  by (simp add: same_from_def)

lemma same_both: "matches n w m \<Longrightarrow> matches n w m' \<Longrightarrow> same_from n m m'"
  by (simp add: matches_def same_from_def)

lemma expiring_get_upd: "expiring_get now (m(k := x)) k' = (if k' = k then expiring_get now (\<lambda>_. x) k else expiring_get now m k')"
  by (simp add: expiring_get_def)

lemma same_from_upd: "same_from n m m' \<Longrightarrow> same_from n (m(k := x)) (m'(k := x))"
  unfolding same_from_def expiring_get_upd by simp

text \<open>An entry that is not readable from \<open>t\<close> on.\<close>

definition dead :: "int \<Rightarrow> (char list \<times> int) option \<Rightarrow> bool" where
  "dead t x \<longleftrightarrow> (case x of None \<Rightarrow> True | Some (v, y) \<Rightarrow> y \<le> t)"

lemma dead_get: "dead t (m k) \<Longrightarrow> t \<le> sint now \<Longrightarrow> expiring_get now m k = None"
  by (auto simp: dead_def expiring_get_def split: option.splits)

text \<open>No entry of \<open>k\<close> expires later than \<open>x\<close>.\<close>

definition ends_by :: "expiring_map \<Rightarrow> string \<Rightarrow> int \<Rightarrow> bool" where
  "ends_by m k x \<longleftrightarrow> (\<forall>v y. m k = Some (v, y) \<longrightarrow> y \<le> x)"

section \<open>Logs as histories\<close>

definition spec_event :: "RadishEvent \<Rightarrow> expiring_map \<Rightarrow> expiring_map" where
  "spec_event e m =
     (case m_key e of
        None \<Rightarrow> Map.empty
      | Some a \<Rightarrow>
          if m_type e = CREATE then m(a \<mapsto> (case m_payload e of Some p \<Rightarrow> p | None \<Rightarrow> [], sint (m_timestamp e)))
          else if m_type e = RENAME then (m(case m_renameKey e of Some b \<Rightarrow> b | None \<Rightarrow> [] := m a))(a := None)
          else m(a := None))"

definition in_order :: "RadishEvent \<Rightarrow> expiring_map \<Rightarrow> bool" where
  "in_order e m \<longleftrightarrow>
     (case m_key e of
        None \<Rightarrow> True
      | Some a \<Rightarrow>
          if m_type e = CREATE then ends_by m a (sint (m_timestamp e))
          else if m_type e = RENAME
          then m_renameKey e \<noteq> Some a \<and>
            (\<exists>v x. m a = Some (v, x) \<and> ends_by m (case m_renameKey e of Some b \<Rightarrow> b | None \<Rightarrow> []) x)
          else True)"

fun log_map :: "RadishEvent list \<Rightarrow> expiring_map \<Rightarrow> expiring_map" where
  "log_map [] m = m"
| "log_map (e # es) m = log_map es (spec_event e m)"

fun ordered :: "RadishEvent list \<Rightarrow> expiring_map \<Rightarrow> bool" where
  "ordered [] m \<longleftrightarrow> True"
| "ordered (e # es) m \<longleftrightarrow> in_order e m \<and> ordered es (spec_event e m)"

lemma log_map_append [simp]: "log_map (es @ es') m = log_map es' (log_map es m)"
  by (induction es arbitrary: m) simp_all

lemma ordered_append [simp]: "ordered (es @ es') m \<longleftrightarrow> ordered es m \<and> ordered es' (log_map es m)"
  by (induction es arbitrary: m) simp_all

lemma spec_event_simps [simp]:
  "spec_event (create_event ts k p) m = m(k \<mapsto> (p, sint ts))"
  "spec_event (rename_event a b) m = (m(b := m a))(a := None)"
  "spec_event (delete_event k) m = m(k := None)"
  "spec_event clear_event m = Map.empty"
  by (simp_all add: spec_event_def)

section \<open>Replaying an ordered log\<close>

lemma matches_dead:
  assumes "matches n w m" and "dead n (m k)" and "n \<le> sint now"
  shows "view_get now w k = None"
  using assms dead_get [of n m k now] by (simp add: matches_def)

text \<open>
  Moving an entry that has not expired, and what is left when the entry has expired: then it makes no
  difference whether it is moved.
\<close>

lemma matches_move:
  assumes "matches t w m"
  shows "matches t (view_move a b w) ((m(b := m a))(a := None))"
  using assms by (auto simp: matches_def view_move_def view_get_def expiring_get_def)

lemma matches_no_move:
  assumes "matches t w m" and "dead t (m a)" and "dead t (m b)"
  shows "matches t w ((m(b := m a))(a := None))"
  unfolding matches_def
proof (intro allI impI)
  fix k and now :: Timestamp assume t: "t \<le> sint now"
  from matches_dead [of t w m, OF assms(1,2) t] matches_dead [of t w m, OF assms(1,3) t] dead_get [of t m a, OF assms(2) t] assms(1) t
  show "view_get now w k = expiring_get now ((m(b := m a))(a := None)) k"
    by (auto simp: matches_def expiring_get_def)
qed

lemma matches_beyond: "2 ^ 63 \<le> t \<Longrightarrow> matches t w m"
  using sint_range64 unfolding matches_def by (meson leD order_trans)

lemma view_get_earlier: "view_get now w k = Some v \<Longrightarrow> sint r \<le> sint now \<Longrightarrow> view_get r w k = Some v"
  by (auto simp: view_get_def split: option.splits if_splits dest: entry_live_antimono)

lemma ends_by_dead: "ends_by m k x \<Longrightarrow> x \<le> t \<Longrightarrow> dead t (m k)"
  by (auto simp: ends_by_def dead_def split: option.splits)

text \<open>What expires after \<open>t\<close> is there, and live at every reading up to \<open>t\<close>.\<close>

lemma matches_present:
  assumes "m a = Some (v, x)" and "\<not> x \<le> t" and "matches t w m" and "t < 2 ^ 63" and "sint r \<le> t"
  shows "view_get r w a = Some v"
proof -
  have "- (2 ^ 63) \<le> sint r" using sint_range64 [of r] by simp
  with assms(4,5) have T: "sint (word_of_int t :: Timestamp) = t"
    by (simp add: sint_sbintrunc' signed_take_bit_int_eq_self)
  with assms(1,2) have "expiring_get (word_of_int t) m a = Some v" by (simp add: expiring_get_def)
  with assms(3) T have "view_get (word_of_int t) w a = Some v" by (simp add: matches_def)
  with T assms(5) show ?thesis using view_get_earlier [of "word_of_int t" w a v r] by simp
qed

lemma matches_event:
  assumes "event_ok ty e" and "in_order e m" and "matches t w m" and "sint r \<le> t"
  shows "matches t (event_view True r e w) (spec_event e m)"
  using assms(1)
proof (cases rule: event_ok_cases)
  case (Create ts k p)
  with matches_events(1) [OF assms(3), of k p ts] show ?thesis by (simp add: event_view_def spec_event_def create_entry_def)
next
  case (Rename ts a b)
  with assms(2) obtain v x where a: "m a = Some (v, x)" and b: "ends_by m b x" by (auto simp: in_order_def)
  let ?m = "(m(b := m a))(a := None)"
  have goal: "event_view True r e w = (if view_get r w a = None then w else view_move a b w)" "spec_event e m = ?m"
    using Rename by (auto simp: event_view_def spec_event_def view_get_def split: option.splits if_splits)
  show ?thesis
  proof (cases "x \<le> t")
    case True
    have "dead t (m a)" using True a by (simp add: dead_def)
    from matches_no_move [OF assms(3) this ends_by_dead [OF b True]] matches_move [OF assms(3)] show ?thesis
      by (simp add: goal)
  next
    case False
    show ?thesis
    proof (cases "t < 2 ^ 63")
      case True
      from matches_present [OF a False assms(3) True assms(4)] matches_move [OF assms(3)] show ?thesis by (simp add: goal)
    next
      case False
      then show ?thesis by (simp add: matches_beyond)
    qed
  qed
next
  case (Delete ts k)
  with matches_events(2) [OF assms(3), of k] show ?thesis by (simp add: event_view_def spec_event_def view_delete_def)
next
  case (Clear ts)
  then show ?thesis by (simp add: event_view_def spec_event_def matches_events)
qed

lemma matches_replay:
  assumes "list_all (event_ok ty) es" and "ordered es m" and "matches t w m" and "\<forall>j. sint (r j) \<le> t"
  shows "matches t (replay_view True r i es w) (log_map es m)"
  using assms
proof (induction es arbitrary: i w m)
  case (Cons e es)
  have "matches t (event_view True (r i) e w) (spec_event e m)"
    by (rule matches_event [where ty = ty]) (use Cons.prems in simp_all)
  with Cons show ?case by simp
qed simp

section \<open>Compacting an ordered log\<close>

lemma matches_skipped:
  assumes "matches t w m" and "ends_by m k x" and "x \<le> t"
  shows "matches t w (m(k \<mapsto> (p, x)))"
  unfolding matches_def
proof (intro allI impI)
  fix k' and now :: Timestamp assume t: "t \<le> sint now"
  have "dead t (m k)" by (rule ends_by_dead [OF assms(2,3)])
  from matches_dead [of t w m, OF assms(1) this t] assms(1,3) t
  show "view_get now w k' = expiring_get now (m(k \<mapsto> (p, x))) k'"
    by (auto simp: matches_def expiring_get_def)
qed

lemma matches_compact_step:
  assumes "event_ok ty e" and "in_order e m" and "events_ok ty M" and "matches t (map_view True M) m" and "sint (r :: Timestamp) \<le> t"
  shows "\<exists>M'. compact_step e M = Inr M' \<and> events_ok ty M' \<and> matches t (map_view True M') (spec_event e m)"
proof -
  from compact_step_view [OF assms(1,3), of True] obtain M' where M': "compact_step e M = Inr M'" "events_ok ty M'"
    and v: "map_view True M' =
      (case m_key e of
         None \<Rightarrow> Map.empty
       | Some a \<Rightarrow>
           if m_type e = CREATE then (map_view True M)(a \<mapsto> create_entry True e)
           else if m_type e = RENAME
           then (if map_view True M a = None then map_view True M
                 else ((map_view True M)(a := None))((case m_renameKey e of Some b \<Rightarrow> b | None \<Rightarrow> []) := map_view True M a))
           else (map_view True M)(a := None))" by blast
  have "matches t (map_view True M') (spec_event e m)"
    using assms(1)
  proof (cases rule: event_ok_cases)
    case (Create ts k p)
    with matches_events(1) [OF assms(4), of k p ts] show ?thesis by (simp add: v spec_event_def create_entry_def)
  next
    case (Rename ts a b)
    with assms(2) obtain u x where a: "m a = Some (u, x)" and b: "ends_by m b x" and ab: "a \<noteq> b" by (auto simp: in_order_def)
    have v': "map_view True M' = (if map_view True M a = None then map_view True M else view_move a b (map_view True M))"
      "spec_event e m = (m(b := m a))(a := None)"
      using Rename ab by (simp_all add: v spec_event_def view_move_def fun_upd_twist)
    show ?thesis
    proof (cases "x \<le> t")
      case True
      have "dead t (m a)" using True a by (simp add: dead_def)
      from matches_no_move [OF assms(4) this ends_by_dead [OF b True]] matches_move [OF assms(4)] show ?thesis by (simp add: v')
    next
      case False
      from matches_present [OF a False assms(4) _ assms(5)] have "t < 2 ^ 63 \<Longrightarrow> map_view True M a \<noteq> None"
        by (cases "map_view True M a") (simp_all add: view_get_def)
      with matches_move [OF assms(4)] matches_beyond [of t] show ?thesis by (cases "t < 2 ^ 63") (auto simp: v')
    qed
  next
    case (Delete ts k)
    with matches_events(2) [OF assms(4), of k] show ?thesis by (simp add: v spec_event_def)
  next
    case (Clear ts)
    then show ?thesis by (simp add: v spec_event_def matches_events)
  qed
  with M' show ?thesis by blast
qed

lemma matches_compact_loop:
  assumes "default_writer w0" and "list_all (event_ok ty) es" and "ordered es m" and "events_ok ty M"
    and "matches t (map_view True M) m" and "\<forall>j. sint (now j) \<le> t"
  shows "\<exists>M'. LogWriter_Compact_loop w0 now i es M = Inr M' \<and> events_ok ty M' \<and> matches t (map_view True M') (log_map es m)"
  using assms
proof (induction es arbitrary: i M m)
  case (Cons e es)
  have e: "event_ok ty e" "in_order e m" using Cons.prems(2,3) by simp_all
  note loop = Compact_loop_Cons [OF Cons.prems(1) e(1), of now i es M]
  show ?case
  proof (cases "skipped (now i) e")
    case True
    from e(1) True obtain ts k p where ev: "e = create_event ts k p"
      by (cases rule: event_ok_cases) (auto simp: skipped_def)
    have "sint ts \<le> t" using True ev Cons.prems(6) by (auto simp: skipped_def intro: order_trans [OF less_imp_le])
    moreover have "ends_by m k (sint ts)" using e(2) ev by (simp add: in_order_def)
    ultimately have "matches t (map_view True M) (spec_event e m)"
      using matches_skipped [OF Cons.prems(5)] by (simp add: ev)
    from Cons.IH [OF Cons.prems(1) _ _ Cons.prems(4) this Cons.prems(6)] Cons.prems(2,3) True loop show ?thesis by simp
  next
    case False
    have "sint (now i) \<le> t" using Cons.prems(6) by blast
    from matches_compact_step [OF e Cons.prems(4,5) this] obtain M1 where M1: "compact_step e M = Inr M1" "events_ok ty M1"
      "matches t (map_view True M1) (spec_event e m)" by blast
    from Cons.IH [OF Cons.prems(1) _ _ M1(2,3) Cons.prems(6)] Cons.prems(2,3) False loop M1(1) show ?thesis by simp
  qed
qed simp

lemma Compact_loop_entries:
  assumes "default_writer w0" and "list_all (event_ok ty) es" and "entries_satisfy T M"
    and "\<forall>e \<in> set es. m_type e = CREATE \<longrightarrow> T (m_timestamp e)" and "LogWriter_Compact_loop w0 now i es M = Inr M'"
  shows "entries_satisfy T M'"
  using assms
proof (induction es arbitrary: i M)
  case (Cons e es)
  note loop = Compact_loop_Cons [OF Cons.prems(1), of ty e now i es M]
  show ?case
  proof (cases "skipped (now i) e")
    case True
    with loop Cons show ?thesis by simp
  next
    case False
    with loop Cons.prems(2,5) obtain M1 where "compact_step e M = Inr M1" "LogWriter_Compact_loop w0 now (Suc i) es M1 = Inr M'"
      by (auto simp: result_simps)
    with Cons compact_step_entries [of e M M1 T] show ?thesis by auto
  qed
qed simp

lemma rewrite_kept_subset: "set (rewrite_kept now i xs) \<subseteq> snd ` set xs"
  by (induction xs arbitrary: i) auto

lemma rewrite_kept_distinct:
  "distinct (map m_key (map snd xs)) \<Longrightarrow> distinct (map m_key (rewrite_kept now i xs))"
proof (induction xs arbitrary: i)
  case (Cons x xs)
  then show ?case using rewrite_kept_subset [of now "Suc i" xs] by auto
qed simp

lemma rewrite_kept_agree:
  assumes "\<forall>x \<in> set xs. m_type (snd x) = CREATE \<and> m_key (snd x) = Some (fst x)" and "distinct (map fst xs)"
    and "\<forall>x \<in> set xs. w (fst x) = None" and "agree t w w'" and "\<forall>j. sint (now j) \<le> t"
  shows "agree t (replay_view True r i (rewrite_kept now j xs) w) (replay_view True r' i' (map snd xs) w')"
  using assms
proof (induction xs arbitrary: i i' j w w')
  case (Cons x xs)
  obtain k e where x: "x = (k, e)" by (cases x)
  have e: "m_type e = CREATE" "m_key e = Some k" using Cons.prems(1) x by auto
  let ?w' = "event_view True (r' i') e w'"
  have w': "?w' = w'(k \<mapsto> (case m_payload e of Some p \<Rightarrow> p | None \<Rightarrow> [], Some (m_timestamp e)))"
    using e by (simp add: event_view_def create_entry_def)
  show ?case
  proof (cases "m_timestamp e \<noteq> -1 \<and> sint (m_timestamp e) < sint (now j)")
    case True
    have "sint (m_timestamp e) \<le> t" using True Cons.prems(5) by (meson less_imp_le order_trans)
    then have "agree t w ?w'"
      unfolding w' using Cons.prems(3) x by (intro agree_expired [OF Cons.prems(4)]) auto
    with Cons.IH [of w ?w' i "Suc j" "Suc i'"] Cons.prems True x show ?thesis by auto
  next
    case False
    have "agree t (event_view True (r i) e w) ?w'"
      unfolding w' using e agree_upd [OF Cons.prems(4)] by (simp add: event_view_def create_entry_def)
    moreover have "\<forall>y \<in> set xs. event_view True (r i) e w (fst y) = None"
      using Cons.prems(2,3) e x by (auto simp: event_view_def image_iff)
    ultimately show ?thesis
      using Cons.IH [of "event_view True (r i) e w" ?w' "Suc i" "Suc j" "Suc i'"] Cons.prems False x by auto
  qed
qed simp

text \<open>One creation for each key is an ordered log.\<close>

lemma ordered_creates:
  assumes "\<forall>e \<in> set es. m_type e = CREATE" and "distinct (map m_key es)" and "\<forall>e \<in> set es. \<exists>k. m_key e = Some k \<and> m k = None"
  shows "ordered es m"
  using assms
proof (induction es arbitrary: m)
  case (Cons e es)
  then obtain k where k: "m_key e = Some k" "m k = None" by auto
  have "\<exists>k'. m_key e' = Some k' \<and> spec_event e m k' = None" if "e' \<in> set es" for e'
  proof -
    from Cons.prems(3) that obtain k' where k': "m_key e' = Some k'" "m k' = None" by auto
    moreover have "m_key e' \<noteq> m_key e" using Cons.prems(2) that by (metis distinct.simps(2) image_eqI list.map(2) set_map)
    ultimately have "m_key e' = Some k'" "m k' = None" "m_key e' \<noteq> m_key e" by blast+
    with k Cons.prems(1) show ?thesis by (simp add: spec_event_def)
  qed
  with Cons k show ?case by (simp add: in_order_def ends_by_def)
qed simp

text \<open>
  What compaction makes of an ordered log, with the clock going on meanwhile up to \<open>t\<close>: an ordered log
  of creations that reads the same from then on.
\<close>

lemma Compact_ordered:
  assumes "default_writer w" and "iteration_order ord" and "LogReader_GetEvents ty (m_filename w) dev fs = Inr es"
    and "list_all (event_ok ty) es" and "ordered es Map.empty"
    and "\<forall>e \<in> set es. m_type e = CREATE \<longrightarrow> sint (m_timestamp e) \<le> b"
    and "\<forall>j. sint (now1 j) \<le> t \<and> sint (now2 j) \<le> t"
    and "LogWriter_Compact ty w dev ord now1 now2 fs = (Inr (), fs')"
  shows "\<exists>es'. fs' (m_filename w) = Some (log_bytes ty es') \<and> list_all (record_ok ty) es' \<and> ordered es' Map.empty \<and>
    (\<forall>e \<in> set es'. m_type e = CREATE \<longrightarrow> sint (m_timestamp e) \<le> b) \<and>
    same_from t (log_map es' Map.empty) (log_map es Map.empty)"
proof -
  have clocks: "\<forall>j. sint (now1 j) \<le> t" "\<forall>j. sint (now2 j) \<le> t" using assms(7) by blast+
  obtain M where M: "LogWriter_Compact_loop w now1 0 es [] = Inr M" "events_ok ty M"
    and M3: "matches t (map_view True M) (log_map es Map.empty)"
    using matches_compact_loop [OF assms(1,4,5) _ _ clocks(1), of "[]" 0]
    by (auto simp: matches_events events_ok_def umap_simps map_view_def fun_eq_iff [symmetric] umap_ok_def)
  note entry = ord_entries [OF M(2) assms(2)]
  let ?es = "rewrite_kept now2 0 (ord M)"
  have key: "\<forall>x \<in> set (ord M). m_type (snd x) = CREATE \<and> m_key (snd x) = Some (fst x)"
    using entry(1,3) M(2) by (auto simp: events_ok_def)
  have d: "distinct (map fst (ord M))"
    using M(2) assms(2) by (simp add: iteration_order_distinct_fst events_ok_def umap_ok_def)
  have kept: "e \<in> snd ` set (ord M)" if "e \<in> set ?es" for e using that rewrite_kept_subset [of now2 0 "ord M"] by blast
  have "agree t (replay_view True now2 0 ?es Map.empty) (replay_view True now2 0 (map snd (ord M)) Map.empty)"
    by (rule rewrite_kept_agree [OF key d _ _ clocks(2)]) simp_all
  then have "agree t (replay_view True now2 0 ?es Map.empty) (map_view True M)"
    unfolding replay_map_entries [OF M(2) assms(2)] .
  with M3 have new: "matches t (replay_view True now2 0 ?es Map.empty) (log_map es Map.empty)" by (rule matches_agree)
  have ord': "ordered ?es Map.empty"
    by (rule ordered_creates)
      (use kept key rewrite_kept_distinct [OF ord_keys_distinct [OF M(2) assms(2)]] in \<open>fastforce+\<close>)
  have "list_all (event_ok ty) ?es" using kept entry(2) by (fastforce simp: list_all_iff)
  from matches_replay [OF this ord' matches_events(3) clocks(2)] new
  have "same_from t (log_map ?es Map.empty) (log_map es Map.empty)" by (rule same_both)
  moreover have "entries_satisfy (\<lambda>x. sint x \<le> b) M"
    using Compact_loop_entries [OF assms(1,4) _ _ M(1)] assms(6) by simp
  then have "\<forall>e \<in> set ?es. m_type e = CREATE \<longrightarrow> sint (m_timestamp e) \<le> b"
    using kept entry(1) unfolding entries_satisfy_def by fastforce
  ultimately show ?thesis
    using Compact_Inr [OF assms(8,3) M(1,2) assms(2)] ord' by (intro exI [of _ ?es]) simp
qed

end
