(* ===== verification/Expiry.thy ===== *)
theory Expiry
  imports Expiring_Log
begin

text \<open>
  Databases with a time to live, against their specification: a map from keys to values with the
  instant at which they expire. A run interleaves creations, renames, deletions, clearings,
  compactions and restarts while the clock goes on.

  A rename moves the value with its expiry. Replaying one depends on the clock
  (\<open>restart_resurrects_overwritten_key\<close>), but only when it overwrote something that expires later
  than what it moved. So renames are part of a run unless they do that, or move a key onto itself. With
  this the log is ordered, and \<open>Expiring_Log\<close> says that restarts and compactions, in any
  number, do not change what can be read.
\<close>

section \<open>Runs beside the specification\<close>

definition expiring_rename :: "Timestamp \<Rightarrow> string \<Rightarrow> string \<Rightarrow> expiring_map \<Rightarrow> expiring_map" where
  "expiring_rename now a b m = (if expiring_get now m a = None then m else (m(b := m a))(a := None))"

text \<open>What may be renamed: \<open>b\<close> does not hold a value that expires later than that of \<open>a\<close>.\<close>

definition rename_ok :: "string \<Rightarrow> string \<Rightarrow> expiring_map \<Rightarrow> bool" where
  "rename_ok a b m \<longleftrightarrow> a \<noteq> b \<and> (\<forall>v x. m a = Some (v, x) \<longrightarrow> ends_by m b x)"

text \<open>
  The third index is the last reading of the clock, the last one the specification. The clock is read
  by creations, renames, compactions and restarts and is not set back between them; compactions and
  restarts read it many times, up to \<open>t\<close>. A run begins without a log, and goes on after a mutation that
  threw when that left the log as it was.
\<close>

inductive ttl_reach :: "TType \<Rightarrow> string \<Rightarrow> Timestamp \<Rightarrow> int \<Rightarrow> RadishDB \<times> FileSystem \<Rightarrow> expiring_map \<Rightarrow> bool"
  for ty :: TType and filename :: string and ttl :: Timestamp where
  start: "ttl \<noteq> -1 \<Longrightarrow> fs (log_name filename) = None \<Longrightarrow>
     RadishDB_new_ttl ty filename ttl Flush dev clock fs = (Inr db, fs') \<Longrightarrow> ttl_reach ty filename ttl n (db, fs') Map.empty"
| create: "ttl_reach ty filename ttl n st m \<Longrightarrow> event_ok ty (create_event 0 key v) \<Longrightarrow> n \<le> sint now \<Longrightarrow>
     RadishDB_Create ty now dev key v st = (Inr u, st') \<Longrightarrow>
     ttl_reach ty filename ttl (sint now) st' (m(key \<mapsto> (v, sint now + sint ttl)))"
| rename: "ttl_reach ty filename ttl n st m \<Longrightarrow> event_ok ty (rename_event a b) \<Longrightarrow> n \<le> sint now \<Longrightarrow> rename_ok a b m \<Longrightarrow>
     RadishDB_Rename ty now dev a b st = (Inr r, st') \<Longrightarrow> ttl_reach ty filename ttl (sint now) st' (expiring_rename now a b m)"
| delete: "ttl_reach ty filename ttl n st m \<Longrightarrow> event_ok ty (delete_event key) \<Longrightarrow>
     RadishDB_Delete ty now dev key st = (Inr r, st') \<Longrightarrow> ttl_reach ty filename ttl n st' (m(key := None))"
| clear: "ttl_reach ty filename ttl n st m \<Longrightarrow> RadishDB_Clear ty now dev st = (Inr r, st') \<Longrightarrow>
     ttl_reach ty filename ttl n st' Map.empty"
| compact: "ttl_reach ty filename ttl n st m \<Longrightarrow> iteration_order ord \<Longrightarrow> n \<le> t \<Longrightarrow>
     \<forall>j. sint (clock1 j) \<le> t \<and> sint (clock2 j) \<le> t \<Longrightarrow>
     RadishDB_Compact ty dev ord clock1 clock2 st = (r', st') \<Longrightarrow> ttl_reach ty filename ttl t st' m"
| failed: "ttl_reach ty filename ttl n st m \<Longrightarrow> RadishDB_Commit ty now dev e st = (Inl err, st') \<Longrightarrow>
     snd st' (log_name filename) = snd st (log_name filename) \<Longrightarrow> ttl_reach ty filename ttl n st' m"
| restart: "ttl_reach ty filename ttl n st m \<Longrightarrow> n \<le> t \<Longrightarrow> \<forall>j. sint (clock j) \<le> t \<Longrightarrow>
     RadishDB_new_ttl ty filename ttl Flush dev clock (snd st) = (Inr db, fs') \<Longrightarrow> ttl_reach ty filename ttl t (db, fs') m"

text \<open>
  The log is ordered, the store and the specification read as the map of the log. Expiries lie at most
  one time to live after the last reading.
\<close>

definition ttl_log :: "TType \<Rightarrow> string \<Rightarrow> Timestamp \<Rightarrow> int \<Rightarrow> RadishEvent list \<Rightarrow> FileSystem \<Rightarrow> bool" where
  "ttl_log ty filename ttl n es fs \<longleftrightarrow>
     fs (log_name filename) = Some (log_bytes ty es) \<and> list_all (record_ok ty) es \<and> ordered es Map.empty \<and>
     (\<forall>e \<in> set es. m_type e = CREATE \<longrightarrow> sint (m_timestamp e) \<le> n + sint ttl)"

definition ttl_store :: "string \<Rightarrow> Timestamp \<Rightarrow> int \<Rightarrow> expiring_map \<Rightarrow> RadishDB \<Rightarrow> bool" where
  "ttl_store filename ttl n m db \<longleftrightarrow> ttl \<noteq> -1 \<and> opened filename db \<and> store_ok (m_store db) \<and> m_ttl (m_store db) = ttl \<and>
     matches n (store_view (m_store db)) m"

definition ttl_inv :: "TType \<Rightarrow> string \<Rightarrow> Timestamp \<Rightarrow> int \<Rightarrow> RadishDB \<times> FileSystem \<Rightarrow> expiring_map \<Rightarrow> bool" where
  "ttl_inv ty filename ttl n st m \<longleftrightarrow>
     (\<exists>es. ttl_log ty filename ttl n es (snd st) \<and> ttl_store filename ttl n (log_map es Map.empty) (fst st) \<and>
        same_from n (log_map es Map.empty) m)"

lemma ttl_store_later: "ttl_store filename ttl n m db \<Longrightarrow> n \<le> t \<Longrightarrow> ttl_store filename ttl t m db"
  using matches_later by (auto simp: ttl_store_def)

lemma ttl_log_later: "ttl_log ty filename ttl n es fs \<Longrightarrow> n \<le> t \<Longrightarrow> ttl_log ty filename ttl t es fs"
  by (force simp: ttl_log_def)

section \<open>Expiries in a log\<close>

definition bounded :: "int \<Rightarrow> expiring_map \<Rightarrow> bool" where
  "bounded b m \<longleftrightarrow> (\<forall>k. ends_by m k b)"

lemma bounded_event:
  assumes "bounded b m" and "m_type e = CREATE \<longrightarrow> sint (m_timestamp e) \<le> b"
  shows "bounded b (spec_event e m)"
  using assms by (auto simp: bounded_def ends_by_def spec_event_def split: option.splits)

lemma bounded_log:
  assumes "\<forall>e \<in> set es. m_type e = CREATE \<longrightarrow> sint (m_timestamp e) \<le> b" and "bounded b m"
  shows "bounded b (log_map es m)"
  using assms bounded_event by (induction es arbitrary: m) auto

lemma bounded_empty: "bounded b Map.empty"
  by (simp add: bounded_def ends_by_def)

lemma ttl_log_bounded: "ttl_log ty filename ttl n es fs \<Longrightarrow> bounded (n + sint ttl) (log_map es Map.empty)"
  using bounded_log bounded_empty by (auto simp: ttl_log_def)

text \<open>Every expiry in a log is a timestamp.\<close>

lemma log_map_range: "log_map es Map.empty k = Some (v, x) \<Longrightarrow> x < 2 ^ 63"
proof -
  have "sint (x :: Timestamp) \<le> 2 ^ 63 - 1" for x using sint_range64 [of x] by linarith
  then have "bounded (2 ^ 63 - 1) (log_map es Map.empty)" using bounded_log [OF _ bounded_empty] by blast
  moreover assume "log_map es Map.empty k = Some (v, x)"
  ultimately show ?thesis unfolding bounded_def ends_by_def by fastforce
qed

text \<open>
  The side condition on renames is stated for the specification; where the source is live it carries
  over to any map that reads the same.
\<close>

lemma ends_by_transfer:
  assumes "same_from n l m" and "n \<le> sint (now :: Timestamp)" and "l a = Some (v, x)" and "sint now < x" and "x < 2 ^ 63"
    and "\<And>v x. m a = Some (v, x) \<Longrightarrow> ends_by m b x"
  shows "ends_by l b x"
  unfolding ends_by_def
proof (intro allI impI, rule ccontr)
  fix u y assume y: "l b = Some (u, y)" "\<not> y \<le> x"
  have get: "expiring_get t l k = expiring_get t m k" if "n \<le> sint t" for t k
    using assms(1) that by (simp add: same_from_def)
  have X: "sint (word_of_int x :: Timestamp) = x"
    using assms(4,5) sint_range64 [of now] by (simp add: sint_sbintrunc' signed_take_bit_int_eq_self)
  then have n: "n \<le> sint (word_of_int x :: Timestamp)" using assms(2,4) by simp
  from get [OF n, of b] y X obtain z where z: "m b = Some (u, z)" "x < z"
    by (auto simp: expiring_get_def split: option.splits if_splits)
  from get [OF assms(2), of a] assms(3,4) obtain w where w: "m a = Some (v, w)"
    by (auto simp: expiring_get_def split: option.splits if_splits)
  from get [OF n, of a] assms(3) w X have "w \<le> x" by (auto simp: expiring_get_def split: if_splits)
  with assms(6) [OF w] z show False by (auto simp: ends_by_def)
qed

section \<open>Operations\<close>

lemma Commit_answer:
  assumes "opened filename db" and "event_ok ty e" and "store_ok (m_store db)" and "RadishDB_Commit ty now dev e (db, fs) = (Inr b, st')"
  shows "\<exists>s. LogWriter_ApplyEvent now (m_store db) e = Inr (b, s)"
  using Commit_opened [OF assms(1-3), of now dev fs] assms(4) by (auto split: if_splits prod.splits sum.splits)

lemma ttl_inv_commit:
  assumes "ttl_log ty filename ttl n es (snd st)" and "ttl_store filename ttl n (log_map es Map.empty) (fst st)"
    and "event_ok ty e" and "n \<le> n'" and "m_type e = CREATE \<Longrightarrow> sint (m_timestamp e) \<le> n' + sint ttl"
    and "m_type e = RENAME \<Longrightarrow> sint now \<le> n'"
    and "RadishDB_Commit ty now dev e st = (Inr b, st')"
    and "b \<Longrightarrow> in_order e (log_map es Map.empty)"
  shows "\<exists>es'. ttl_log ty filename ttl n' es' (snd st') \<and> ttl_store filename ttl n' (log_map es' Map.empty) (fst st') \<and>
    es' = (if b then es @ [e] else es) \<and>
    (\<exists>s. LogWriter_ApplyEvent now (m_store (fst st)) e = Inr (b, s) \<and> (\<not> b \<longrightarrow> s = m_store (fst st)) \<and>
       store_view s = event_view True now e (store_view (m_store (fst st))))"
proof -
  obtain db fs where st: "st = (db, fs)" by (cases st)
  let ?l = "log_map es Map.empty"
  from assms(2) st have db: "ttl \<noteq> -1" "opened filename db" "store_ok (m_store db)" "m_ttl (m_store db) = ttl"
      "matches n (store_view (m_store db)) ?l" by (simp_all add: ttl_store_def)
  from assms(1) st have es: "fs (log_name filename) = Some (log_bytes ty es)" by (simp add: ttl_log_def)
  have ttl: "RadishStore_HasTimeToLive (m_store db)" using db(1,4) by (simp add: RadishStore_HasTimeToLive_def)
  let ?w = "m_writer (the (m_persistence db))"
  have w: "m_filename ?w = log_name filename" using db(2) by (simp add: opened_def)
  obtain c s' where s': "LogWriter_ApplyEvent now (m_store db) e = Inr (c, s')" "store_ok s'"
    "store_view s' = event_view True now e (store_view (m_store db))"
    and commit: "RadishDB_Commit ty now dev e (db, fs) =
      (if \<not> c then (Inr False, (db, fs))
       else case LogWriter_Append ty ?w dev e fs of
              (Inl err, fs1) \<Rightarrow> (Inl err, (db, fs1))
            | (Inr _, fs1) \<Rightarrow> (Inr True, (db\<lparr>m_store := s'\<rparr>, fs1)))"
    using Commit_opened [OF db(2) assms(3) db(3), of now dev fs] ttl by auto
  show ?thesis
  proof (cases c)
    case False
    with commit assms(7) st have "\<not> b" "st' = st" by auto
    with ttl_log_later [OF assms(1,4)] ttl_store_later [OF assms(2,4)] s' False st jr.refused [OF db(3), of now e s']
    show ?thesis by auto
  next
    case True
    with commit assms(7) st obtain fs1 u where a: "LogWriter_Append ty ?w dev e fs = (Inr u, fs1)"
      and st': "st' = (db\<lparr>m_store := s'\<rparr>, fs1)" and b: "b"
      by (auto split: prod.splits sum.splits)
    from Append_Inr [OF _ assms(3) a, of es] es w have
      "record_ok ty e" "fs1 (log_name filename) = Some (log_bytes ty (es @ [e]))" by auto
    with assms(5,8) b ttl_log_later [OF assms(1,4)] have log: "ttl_log ty filename ttl n' (es @ [e]) fs1"
      by (auto simp: ttl_log_def)
    have "matches n' (store_view s') (spec_event e ?l)"
    proof (cases "m_type e = RENAME")
      case True
      with s'(3) matches_event [OF assms(3) assms(8) [OF b] matches_later [OF db(5) assms(4)] assms(6)] show ?thesis by simp
    next
      case False
      have "event_view True now e w = event_view True r e w" for r w
        using False by (simp add: event_view_def split: option.split)
      then show ?thesis
        using s'(3) matches_later [OF db(5) assms(4)] assms(3) False
        by (cases rule: event_ok_cases [OF assms(3)])
          (auto simp: event_view_def spec_event_def view_delete_def create_entry_def intro: matches_events)
    qed
    moreover have "m_ttl s' = ttl" using ApplyEvent_ttl [OF s'(1)] db(4) by simp
    moreover have "opened filename (db\<lparr>m_store := s'\<rparr>)" using db(2) by (simp add: opened_def)
    ultimately have "ttl_store filename ttl n' (log_map (es @ [e]) Map.empty) (db\<lparr>m_store := s'\<rparr>)"
      using db(1) s'(2) by (simp add: ttl_store_def)
    with log b st st' True s' show ?thesis by auto
  qed
qed


text \<open>Deletions and clearings read no clock and are in any order.\<close>

lemma ttl_inv_remove:
  assumes "ttl_inv ty filename ttl n st m" and "event_ok ty e" and "m_type e \<noteq> CREATE" "m_type e \<noteq> RENAME"
    and "RadishDB_Commit ty now dev e st = (Inr b, st')"
    and "\<And>w l. matches n w l \<Longrightarrow> matches n (event_view True now e w) (spec_event e l)"
    and "\<And>l. same_from n l m \<Longrightarrow> same_from n (spec_event e l) m'"
  shows "ttl_inv ty filename ttl n st' m'"
proof -
  from assms(1) obtain es where es: "ttl_log ty filename ttl n es (snd st)" "ttl_store filename ttl n (log_map es Map.empty) (fst st)"
    "same_from n (log_map es Map.empty) m" by (auto simp: ttl_inv_def)
  have "in_order e l" for l using assms(3,4) by (simp add: in_order_def split: option.split)
  then obtain es' s where es': "ttl_log ty filename ttl n es' (snd st')" "ttl_store filename ttl n (log_map es' Map.empty) (fst st')"
    "es' = (if b then es @ [e] else es)" "\<not> b \<longrightarrow> s = m_store (fst st)"
    "store_view s = event_view True now e (store_view (m_store (fst st)))"
    using ttl_inv_commit [OF es(1,2) assms(2) _ _ _ assms(5)] assms(3,4) by blast
  have spec: "same_from n (spec_event e (log_map es Map.empty)) m'" by (rule assms(7) [OF es(3)])
  have "matches n (store_view (m_store (fst st))) (log_map es Map.empty)" using es(2) by (simp add: ttl_store_def)
  from same_both [OF this] assms(6) [OF this] es'(4,5)
  have "same_from n (log_map es' Map.empty) (spec_event e (log_map es Map.empty))" by (cases b) (simp_all add: es'(3))
  with spec es'(1,2) show ?thesis unfolding ttl_inv_def by (blast intro: same_from_trans)
qed

lemma ttl_inv_create:
  assumes "ttl_inv ty filename ttl n st m" and "event_ok ty (create_event 0 key v)" and "n \<le> sint now"
    and "RadishDB_Create ty now dev key v st = (Inr u, st')"
  shows "ttl_inv ty filename ttl (sint now) st' (m(key \<mapsto> (v, sint now + sint ttl)))"
proof -
  from assms(1) obtain es where es: "ttl_log ty filename ttl n es (snd st)" "ttl_store filename ttl n (log_map es Map.empty) (fst st)"
    "same_from n (log_map es Map.empty) m" by (auto simp: ttl_inv_def)
  have ttl: "RadishStore_HasTimeToLive (m_store (fst st))" "m_ttl (m_store (fst st)) = ttl"
    using es(2) by (auto simp: ttl_store_def RadishStore_HasTimeToLive_def)
  with assms(4) obtain t b where t: "add_ll now ttl = Inr t"
    and c: "RadishDB_Commit ty now dev (create_event t key v) st = (Inr b, st')"
    by (auto simp: RadishDB_Create_def sbind_eq_Inr RadishStore_NewExpiryTimestamp_def)
  have sum: "sint t = sint now + sint ttl" by (rule add_ll_Inr [OF t])
  have ok: "event_ok ty (create_event t key v)" using assms(2) event_ok_create_time by blast
  have "in_order (create_event t key v) (log_map es Map.empty)"
    using ttl_log_bounded [OF es(1)] assms(3) by (fastforce simp: in_order_def bounded_def ends_by_def sum)
  with ttl_inv_commit [OF es(1,2) ok assms(3) _ _ c] obtain es' s where
    es': "ttl_log ty filename ttl (sint now) es' (snd st')" "ttl_store filename ttl (sint now) (log_map es' Map.empty) (fst st')"
    "es' = (if b then es @ [create_event t key v] else es)" "LogWriter_ApplyEvent now (m_store (fst st)) (create_event t key v) = Inr (b, s)"
    by (auto simp: sum)
  have "b" using es'(4) ApplyEvent_create [of now "m_store (fst st)" t key v] by auto
  with same_from_upd [OF same_from_later [OF es(3) assms(3)], of key "Some (v, sint t)"]
  have "same_from (sint now) (log_map es' Map.empty) (m(key \<mapsto> (v, sint now + sint ttl)))" by (simp add: es'(3) sum)
  with es'(1,2) show ?thesis unfolding ttl_inv_def by blast
qed

lemma ttl_inv_rename:
  assumes "ttl_inv ty filename ttl n st m" and "event_ok ty (rename_event a b)" and "n \<le> sint now" and "rename_ok a b m"
    and "RadishDB_Rename ty now dev a b st = (Inr r, st')"
  shows "ttl_inv ty filename ttl (sint now) st' (expiring_rename now a b m)"
proof -
  from assms(1) obtain es where es: "ttl_log ty filename ttl n es (snd st)" "ttl_store filename ttl n (log_map es Map.empty) (fst st)"
    "same_from n (log_map es Map.empty) m" by (auto simp: ttl_inv_def)
  let ?l = "log_map es Map.empty" and ?s = "m_store (fst st)"
  from es(2) have ok: "store_ok ?s" and v: "matches n (store_view ?s) ?l" by (simp_all add: ttl_store_def)
  have c: "RadishDB_Commit ty now dev (rename_event a b) st = (Inr r, st')" using assms(5) by (simp add: RadishDB_Rename_def)
  have ab: "a \<noteq> b" using assms(4) by (simp add: rename_ok_def)
  have get: "expiring_get t ?l k = expiring_get t m k" if "sint now \<le> sint t" for t k
    using es(3) assms(3) that by (simp add: same_from_def)
  have live: "fst (RadishStore_Rename now a b ?s) \<longleftrightarrow> expiring_get now m a \<noteq> None"
    unfolding view_of_rename_total(1) [OF ok] using v assms(3) get [of now a] by (simp add: matches_def)
  have move: "LogWriter_ApplyEvent now ?s (rename_event a b) = Inr (RadishStore_Rename now a b ?s)"
    by (simp add: LogWriter_ApplyEvent_def)
  have inorder: "in_order (rename_event a b) ?l" if "expiring_get now m a \<noteq> None"
  proof -
    from that get [of now a] obtain v x where l: "?l a = Some (v, x)" "sint now < x"
      by (auto simp: expiring_get_def split: option.splits if_splits)
    have "ends_by ?l b x"
      by (rule ends_by_transfer [OF es(3) assms(3) l log_map_range [OF l(1)]]) (use assms(4) in \<open>auto simp: rename_ok_def\<close>)
    with l(1) ab show ?thesis by (simp add: in_order_def)
  qed
  have r: "r \<longleftrightarrow> expiring_get now m a \<noteq> None"
    using Commit_answer [OF _ assms(2) ok, of filename now dev "snd st" r st'] c move live es(2) by (simp add: ttl_store_def prod_eq_iff)
  from ttl_inv_commit [OF es(1,2) assms(2,3) _ _ c] inorder r obtain es' where
    es': "ttl_log ty filename ttl (sint now) es' (snd st')" "ttl_store filename ttl (sint now) (log_map es' Map.empty) (fst st')"
    "es' = (if r then es @ [rename_event a b] else es)" by auto
  have "same_from (sint now) (log_map es' Map.empty) (expiring_rename now a b m)"
    using get ab by (auto simp: es'(3) r expiring_rename_def same_from_def expiring_get_def)
  with es'(1,2) show ?thesis unfolding ttl_inv_def by blast
qed

lemma m_ttl_new: "m_ttl (RadishStore_new ttl) = ttl"
  by (simp add: RadishStore_new_def)

lemma view_new: "store_view (RadishStore_new ttl) = Map.empty"
  by (simp add: store_view_def RadishStore_new_def umap_find_def fun_eq_iff)

lemma ttl_inv_start:
  assumes "ttl \<noteq> -1" and "fs (log_name filename) = None"
    and "RadishDB_new_ttl ty filename ttl Flush dev clock fs = (Inr db, fs')"
  shows "ttl_inv ty filename ttl n (db, fs') Map.empty"
proof -
  from open_new_file [where fs = fs and filename = filename, OF assms(2,3)] assms(1)
  have "ttl_log ty filename ttl n [] fs'" "ttl_store filename ttl n (log_map [] Map.empty) db"
    by (auto simp: ttl_log_def ttl_store_def view_new matches_events m_ttl_new)
  then show ?thesis by (fastforce simp: ttl_inv_def)
qed

lemma ttl_inv_restart:
  assumes "ttl_inv ty filename ttl n st m" and "n \<le> t" and "\<forall>j. sint (clock j) \<le> t"
    and "RadishDB_new_ttl ty filename ttl Flush dev clock (snd st) = (Inr db, fs')"
  shows "ttl_inv ty filename ttl t (db, fs') m"
proof -
  from assms(1) obtain es where ttl: "ttl \<noteq> -1" and log: "ttl_log ty filename ttl n es (snd st)"
    and m: "same_from n (log_map es Map.empty) m" by (auto simp: ttl_inv_def ttl_store_def)
  from log have es: "snd st (log_name filename) = Some (log_bytes ty es @ [])" "list_all (record_ok ty) es" "ordered es Map.empty"
    by (simp_all add: ttl_log_def)
  note db = open_success(2,1,3) [OF assms(4) es(1) torn_tail_Nil es(2)]
  have store: "store_ok (m_store db)" "m_ttl (m_store db) = ttl" "store_view (m_store db) = replay_view True clock 0 es Map.empty"
    using Replay_loop_view [OF record_ok_events [OF es(2)] store_ok_new, of clock 0 ttl] db(3) ttl Replay_ttl [OF db(3)]
    by (auto simp: m_ttl_new)
  from matches_replay [OF record_ok_events [OF es(2)] es(3) matches_events(3) assms(3)] store ttl db(1,2)
  have "ttl_store filename ttl t (log_map es Map.empty) db" by (simp add: ttl_store_def)
  moreover have "ttl_log ty filename ttl t es fs'" using ttl_log_later [OF log assms(2)] db by (auto simp: ttl_log_def)
  ultimately show ?thesis unfolding ttl_inv_def using same_from_later [OF m assms(2)] by auto
qed

lemma ttl_inv_compact:
  assumes "ttl_inv ty filename ttl n st m" and "iteration_order ord" and "n \<le> t"
    and "\<forall>j. sint (clock1 j) \<le> t \<and> sint (clock2 j) \<le> t" and "RadishDB_Compact ty dev ord clock1 clock2 st = (r', st')"
  shows "ttl_inv ty filename ttl t st' m"
proof -
  obtain db fs where st: "st = (db, fs)" by (cases st)
  from assms(1) st obtain es where log0: "ttl_log ty filename ttl n es fs"
    and store0: "ttl_store filename ttl n (log_map es Map.empty) db" and m0: "same_from n (log_map es Map.empty) m"
    by (auto simp: ttl_inv_def)
  note log = ttl_log_later [OF log0 assms(3)] and store = ttl_store_later [OF store0 assms(3)] and m = same_from_later [OF m0 assms(3)]
  define w where "w = \<lparr>m_filename = log_name filename, m_compactStrategies = LogWriter_InitializeCompactStrategies\<rparr>"
  obtain fs' where c: "LogWriter_Compact ty w dev ord clock1 clock2 fs = (r', fs')" and st': "st' = (db, fs')"
    using assms(5) store st
    by (auto simp: RadishDB_Compact_def ttl_store_def opened_def PersistenceLog_Compact_def w_def split: prod.splits)
  show ?thesis
  proof (cases r')
    case (Inl e)
    with Compact_error_keeps_log [of ty w dev ord clock1 clock2 fs e fs'] c
    have "fs' (log_name filename) = fs (log_name filename)" by (simp add: w_def)
    with log have "ttl_log ty filename ttl t es fs'" by (simp add: ttl_log_def)
    with store m st' show ?thesis by (auto simp: ttl_inv_def)
  next
    case (Inr u)
    from log have es: "fs (log_name filename) = Some (log_bytes ty es)" "list_all (record_ok ty) es" "ordered es Map.empty"
      "\<forall>e \<in> set es. m_type e = CREATE \<longrightarrow> sint (m_timestamp e) \<le> t + sint ttl" by (simp_all add: ttl_log_def)
    have ge: "LogReader_GetEvents ty (m_filename w) dev fs = Inr es"
      by (rule Compact_reads [where fs = fs and w = w, OF c [unfolded Inr] _ es(2)]) (use es(1) in \<open>simp add: w_def\<close>)
    have w: "default_writer w" by (simp add: w_def default_writer_def)
    have "LogWriter_Compact ty w dev ord clock1 clock2 fs = (Inr (), fs')" using c Inr by simp
    from Compact_ordered [OF w assms(2) ge record_ok_events [OF es(2)] es(3,4) assms(4) this] obtain es' where
      es': "ttl_log ty filename ttl t es' fs'" "same_from t (log_map es' Map.empty) (log_map es Map.empty)"
      by (auto simp: ttl_log_def w_def)
    have "ttl_store filename ttl t (log_map es' Map.empty) db"
      using store es'(2) by (simp add: ttl_store_def matches_def same_from_def)
    with es' same_from_trans [OF es'(2) m] st' show ?thesis by (auto simp: ttl_inv_def)
  qed
qed

lemma ttl_reach_inv: "ttl_reach ty filename ttl n st m \<Longrightarrow> ttl_inv ty filename ttl n st m"
proof (induction rule: ttl_reach.induct)
  case (delete n st m key now dev r st')
  show ?case
  proof (rule ttl_inv_remove [OF delete(4,2)])
    show "RadishDB_Commit ty now dev (delete_event key) st = (Inr r, st')" using delete(3) by (simp add: RadishDB_Delete_def)
    show "matches n (event_view True now (delete_event key) w) (spec_event (delete_event key) l)" if "matches n w l" for w l
      using matches_events(2) [OF that, of key] by (simp add: event_view_def view_delete_def)
    show "same_from n (spec_event (delete_event key) l) (m(key := None))" if "same_from n l m" for l
      using same_from_upd [OF that, of key None] by simp
  qed simp_all
next
  case (clear n st m now dev r st')
  show ?case
  proof (rule ttl_inv_remove [OF clear(3)])
    show "event_ok ty clear_event" using record_ok_clear by (simp add: record_ok_def)
    show "RadishDB_Commit ty now dev clear_event st = (Inr r, st')" using clear(2) by (simp add: RadishDB_Clear_def)
  qed (simp_all add: event_view_def matches_events)
next
  case (create n st m key v now dev u st')
  then show ?case by (blast intro: ttl_inv_create)
next
  case (rename n st m a b now dev r st')
  then show ?case by (blast intro: ttl_inv_rename)
next
  case (compact n st m ord dev t clock1 clock2 r' st')
  show ?case by (rule ttl_inv_compact [OF compact(6,2-5)])
next
  case (failed n st m now dev e err st')
  with Commit_Inl [OF failed(2)] show ?case by (simp add: ttl_inv_def ttl_log_def)
next
  case (restart n st m t clock dev db fs')
  show ?case by (rule ttl_inv_restart [OF restart(5,2-4)])
qed (rule ttl_inv_start)

section \<open>Properties\<close>

text \<open>
  (C3) A database with a time to live is a map of expiring entries. Open it where there is no log, and run
  successful creations, renames, deletions and clearings whose keys and values fit into a record, mutations that throw and
  leave the log as it was, compactions (successful or not) and restarts in any order while the clock is
  not set back: from the last reading of the clock on, a key reads as its last value until the instant
  of its creation plus the time to live, also under the names it was given since, and as absent from
  then on, also after its record was compacted away and after restarts. A rename must be onto another
  key, and that key must not expire later than what is moved.
\<close>

theorem expiring_database_refines_map:
  assumes "ttl_reach ty filename ttl n (db, fs) m" and "n \<le> sint now"
  shows "RadishDB_Get now db key = expiring_get now m key \<and> (RadishDB_Exists now db key \<longleftrightarrow> expiring_get now m key \<noteq> None) \<and>
    (iteration_order ord \<longrightarrow> set (RadishDB_Scan ord (\<lambda>_. now) db) = {k. expiring_get now m k \<noteq> None} \<and>
       distinct (RadishDB_Scan ord (\<lambda>_. now) db))"
proof -
  have ok: "store_ok (m_store db)" and get: "\<And>k. RadishStore_Get now (m_store db) k = expiring_get now m k"
    using ttl_reach_inv [OF assms(1)] assms(2)
    by (auto simp: ttl_inv_def ttl_store_def matches_def same_from_def Get_view)
  then show ?thesis
    using Scan_set [of ord now "m_store db"] Scan_distinct [OF _ ok, of ord now]
    by (auto simp: RadishDB_Get_def RadishDB_Exists_def RadishDB_Scan_def Exists_Get)
qed

theorem expiring_database_refines_map_witness:
  "\<exists>db fs. ttl_reach std_string ''db'' 50 110 (db, fs) [''j'' \<mapsto> (''v'', 150)] \<and>
     RadishDB_Get 120 db ''j'' = Some ''v'' \<and> RadishDB_Get 120 db ''k'' = None \<and> RadishDB_Get 150 db ''j'' = None"
proof -
  let ?fs = "[log_name ''db'' \<mapsto> log_bytes std_string []]"
  obtain db where db: "RadishDB_new_ttl std_string ''db'' 50 Flush healthy (\<lambda>_. 0) Map.empty = (Inr db, ?fs)"
    "opened ''db'' db" "m_store db = RadishStore_new 50"
    using open_fresh [OF readable_healthy, of Map.empty "''db''" std_string 50 "\<lambda>_. 0"]
    by (auto simp: writable_def healthy_def)
  have r: "ttl_reach std_string ''db'' 50 0 (db, ?fs) Map.empty"
    by (rule ttl_reach.start [OF _ _ db(1)]) simp_all
  have ev: "record_ok std_string (create_event 150 ''k'' ''v'')" by (rule small_record_ok) simp_all
  then have ok: "event_ok std_string (create_event 150 ''k'' ''v'')" by (simp add: record_ok_def)
  have add: "RadishStore_NewExpiryTimestamp 100 (m_store db) = Inr 150"
    by (simp add: db(3) RadishStore_NewExpiryTimestamp_def RadishStore_HasTimeToLive_def RadishStore_new_def add_ll_def)
  let ?w = "m_writer (the (m_persistence db))"
  have "LogWriter_Append std_string ?w healthy (create_event 150 ''k'' ''v'') ?fs =
      (Inr (), ?fs(m_filename ?w \<mapsto> file_content ?fs (m_filename ?w) @ frame std_string (create_event 150 ''k'' ''v'')))"
    by (rule Append_ok [OF ev]) (simp add: writable_def healthy_def)
  then obtain st' where "RadishDB_Create std_string 100 healthy ''k'' ''v'' (db, ?fs) = (Inr (), st')"
    using Commit_opened [OF db(2) ok, of 100 healthy ?fs] add db(3)
    by (auto simp: RadishDB_Create_def LogWriter_ApplyEvent_def split: if_splits)
  moreover have "event_ok std_string (create_event 0 ''k'' ''v'')" using ok event_ok_create_time by blast
  ultimately have "ttl_reach std_string ''db'' 50 (sint (100 :: Timestamp)) st' (Map.empty(''k'' \<mapsto> (''v'', sint (100 :: Timestamp) + sint (50 :: Timestamp))))"
    by (intro ttl_reach.create [OF r]) simp_all
  then have r': "ttl_reach std_string ''db'' 50 100 (fst st', snd st') [''k'' \<mapsto> (''v'', 150)]" by simp
  have rec: "record_ok std_string (rename_event ''k'' ''j'')" by (rule small_record_ok) simp_all
  then have ren: "event_ok std_string (rename_event ''k'' ''j'')" by (simp add: record_ok_def)
  from ttl_reach_inv [OF r'] have inv: "opened ''db'' (fst st')" "store_ok (m_store (fst st'))"
    by (auto simp: ttl_inv_def ttl_store_def)
  have app: "LogWriter_Append std_string w healthy (rename_event ''k'' ''j'') fs =
      (Inr (), fs(m_filename w \<mapsto> file_content fs (m_filename w) @ frame std_string (rename_event ''k'' ''j'')))" for w fs
    by (rule Append_ok [OF rec]) (simp add: writable_def healthy_def)
  obtain r st'' where st'': "RadishDB_Rename std_string 110 healthy ''k'' ''j'' (fst st', snd st') = (Inr r, st'')"
    using Commit_opened [OF inv(1) ren inv(2), of 110 healthy "snd st'"] app
    by (cases st') (auto simp: RadishDB_Rename_def split: if_splits)
  have "ttl_reach std_string ''db'' 50 (sint (110 :: Timestamp)) st'' (expiring_rename 110 ''k'' ''j'' [''k'' \<mapsto> (''v'', 150)])"
    by (rule ttl_reach.rename [OF r' ren _ _ st'']) (simp_all add: rename_ok_def ends_by_def)
  moreover have "expiring_rename 110 ''k'' ''j'' [''k'' \<mapsto> (''v'', 150)] = [''j'' \<mapsto> (''v'', 150)]"
    by (auto simp: expiring_rename_def expiring_get_def)
  ultimately have r'': "ttl_reach std_string ''db'' 50 110 (fst st'', snd st'') [''j'' \<mapsto> (''v'', 150)]" by simp
  from expiring_database_refines_map [OF r'', of 120 "''j''"] expiring_database_refines_map [OF r'', of 120 "''k''"]
    expiring_database_refines_map [OF r'', of 150 "''j''"]
  have "RadishDB_Get 120 (fst st'') ''j'' = Some ''v''" "RadishDB_Get 120 (fst st'') ''k'' = None"
    "RadishDB_Get 150 (fst st'') ''j'' = None"
    by (simp_all add: expiring_get_def)
  with r'' show ?thesis by blast
qed

end
