(* ===== verification/Server_Main.thy ===== *)
theory Server_Main
  imports Resp_Client Session_Bounds Expiry
begin

text \<open>
  \<^verbatim>\<open>src/main.cpp\<close>: the command line, opening the database, running the event loop and compacting
  on shutdown. The run of the event loop is a parameter of \<open>server_main\<close>, a function that takes
  the database to the state at which it stops; \<open>event_loop\<close> is the run over a list of
  completions. Shown here: which command lines are accepted and what they mean; without a time to live,
  one run of the program after another keeps the contents, and what is left on disk when the program
  dies restores them.
\<close>

record ServerOptions =
  so_bindAddress :: string
  so_dataFile :: string
  so_port :: "16 word"
  so_ttl :: "Timestamp option"
  so_persistenceEnabled :: bool

definition default_options :: ServerOptions where
  "default_options = \<lparr>so_bindAddress = ''127.0.0.1'', so_dataFile = ''radish'', so_port = 6379, so_ttl = None,
     so_persistenceEnabled = True\<rparr>"

definition stoul :: "string \<Rightarrow> nat result" where
  "stoul s = parse_unsigned ''stoul'' s"

definition ParseOption :: "string \<Rightarrow> string \<Rightarrow> ServerOptions \<Rightarrow> ServerOptions result" where
  "ParseOption option v options =
     (if option = ''--bind'' then Inr (options\<lparr>so_bindAddress := v\<rparr>)
      else if option = ''--port'' then
        rbind (stoul v) (\<lambda>parsed.
          if parsed > 65535 then Inl (InvalidArgument ''Port must be between 0 and 65535'')
          else Inr (options\<lparr>so_port := of_nat parsed\<rparr>))
      else if option = ''--data-file'' then Inr (options\<lparr>so_dataFile := v\<rparr>)
      else if option = ''--ttl-ms'' then
        rbind (stoll v) (\<lambda>ttl.
          if ttl < 0 then Inl (InvalidArgument ''TTL must be non-negative'')
          else Inr (options\<lparr>so_ttl := Some (word_of_int ttl)\<rparr>))
      else if option = ''--persistence'' then
        (if v = ''flush'' then Inr (options\<lparr>so_persistenceEnabled := True\<rparr>)
         else if v = ''off'' then Inr (options\<lparr>so_persistenceEnabled := False\<rparr>)
         else Inl (InvalidArgument (''Persistence must be '' @ [CHR 0x27] @ ''flush'' @ [CHR 0x27] @ '' or '' @ [CHR 0x27] @ ''off'' @ [CHR 0x27])))
      else Inl (InvalidArgument (''Unknown option: '' @ option)))"

fun ParseOptions_loop :: "string list \<Rightarrow> ServerOptions \<Rightarrow> ServerOptions result" where
  "ParseOptions_loop [] options = Inr options"
| "ParseOptions_loop [argument] options = Inl (InvalidArgument (''Missing value for '' @ argument))"
| "ParseOptions_loop (option # v # arguments) options =
     rbind (ParseOption option v options) (ParseOptions_loop arguments)"

text \<open>The arguments without the name of the program.\<close>

definition ParseOptions :: "string list \<Rightarrow> ServerOptions result" where
  "ParseOptions arguments = ParseOptions_loop arguments default_options"

definition open_database ::
    "ServerOptions \<Rightarrow> Device \<Rightarrow> (nat \<Rightarrow> Timestamp) \<Rightarrow> FileSystem \<Rightarrow> RadishDB result \<times> FileSystem" where
  "open_database options dev clock fs =
     (let mode = (if so_persistenceEnabled options then Flush else Disabled)
      in case so_ttl options of
           Some ttl \<Rightarrow> RadishDB_new_ttl std_string (so_dataFile options) ttl mode dev clock fs
         | None \<Rightarrow> RadishDB_new std_string (so_dataFile options) mode dev clock fs)"

text \<open>The exit code and the file system at the end.\<close>

definition server_main ::
    "string list \<Rightarrow> Device \<Rightarrow> (nat \<Rightarrow> Timestamp) \<Rightarrow> (Database \<Rightarrow> unit result \<times> Database) \<Rightarrow>
     Device \<Rightarrow> ((string \<times> RadishEvent) list \<Rightarrow> (string \<times> RadishEvent) list) \<Rightarrow> (nat \<Rightarrow> Timestamp) \<Rightarrow> (nat \<Rightarrow> Timestamp) \<Rightarrow>
     FileSystem \<Rightarrow> int \<times> FileSystem" where
  "server_main arguments dev clock run dev2 ord clock1 clock2 fs =
     (case ParseOptions arguments of
        Inl e \<Rightarrow> (1, fs)
      | Inr options \<Rightarrow>
          (case open_database options dev clock fs of
             (Inl e, fs1) \<Rightarrow> (1, fs1)
           | (Inr db, fs1) \<Rightarrow>
               (case run (db, fs1) of
                  (Inl e, (db2, fs2)) \<Rightarrow> (1, fs2)
                | (Inr _, (db2, fs2)) \<Rightarrow>
                    if so_persistenceEnabled options
                    then (case RadishDB_Compact std_string dev2 ord clock1 clock2 (db2, fs2) of
                            (Inl e, (db3, fs3)) \<Rightarrow> (1, fs3)
                          | (Inr _, (db3, fs3)) \<Rightarrow> (0, fs3))
                    else (0, fs2))))"

definition event_loop :: "error option \<Rightarrow> Completion list \<Rightarrow> Database \<Rightarrow> unit result \<times> Database" where
  "event_loop listening cs db =
     (case TcpServer_construct listening of
        Inl e \<Rightarrow> (Inl e, db)
      | Inr server \<Rightarrow>
          (case io_run cs ((World_start db)\<lparr>w_server := TcpServer_Start server\<rparr>) of
             (r, W) \<Rightarrow> (case r of Some x \<Rightarrow> x | None \<Rightarrow> Inr (), w_db W)))"

lemma event_loop_listening:
  "event_loop None cs db = (case io_run cs (World_start db) of (r, W) \<Rightarrow> (case r of Some x \<Rightarrow> x | None \<Rightarrow> Inr (), w_db W))"
  by (simp add: event_loop_def TcpServer_construct_def World_start_def)

section \<open>Lemmas\<close>

lemma stoll_range: "stoll s = Inr v \<Longrightarrow> - (2 ^ 63) \<le> v \<and> v < 2 ^ 63"
  by (auto simp: stoll_def Let_def split: if_splits)

lemma sint_stoll: "stoll s = Inr v \<Longrightarrow> sint (word_of_int v :: Timestamp) = v"
  using stoll_range [of s v] by (simp add: sint_sbintrunc' signed_take_bit_int_eq_self)

text \<open>
  What a command line says: pairs of an option and its value, all of them acceptable, where the last
  value of an option counts and an option that is not there has its default.
\<close>

definition command_line :: "(string \<times> string) list \<Rightarrow> string list" where
  "command_line pairs = concat (map (\<lambda>(option, v). [option, v]) pairs)"

definition acceptable :: "string \<times> string \<Rightarrow> bool" where
  "acceptable x \<longleftrightarrow>
     (case x of (option, v) \<Rightarrow>
        option \<in> {''--bind'', ''--data-file''} \<or>
        option = ''--port'' \<and> (\<exists>n \<le> 65535. stoul v = Inr n) \<or>
        option = ''--ttl-ms'' \<and> (\<exists>t \<ge> 0. stoll v = Inr t) \<or>
        option = ''--persistence'' \<and> v \<in> {''flush'', ''off''})"

definition described :: "(string \<times> string) list \<Rightarrow> ServerOptions \<Rightarrow> bool" where
  "described pairs options \<longleftrightarrow>
     (let given = map_of (rev pairs)
      in so_bindAddress options = (case given ''--bind'' of None \<Rightarrow> ''127.0.0.1'' | Some v \<Rightarrow> v) \<and>
         so_dataFile options = (case given ''--data-file'' of None \<Rightarrow> ''radish'' | Some v \<Rightarrow> v) \<and>
         (case given ''--port'' of None \<Rightarrow> so_port options = 6379 | Some v \<Rightarrow> stoul v = Inr (unat (so_port options))) \<and>
         (case given ''--ttl-ms'' of
            None \<Rightarrow> so_ttl options = None
          | Some v \<Rightarrow> (\<exists>ttl. so_ttl options = Some ttl \<and> 0 \<le> sint ttl \<and> stoll v = Inr (sint ttl))) \<and>
         so_persistenceEnabled options = (given ''--persistence'' \<noteq> Some ''off''))"

lemma described_default: "described [] default_options"
  by (simp add: described_def default_options_def)

lemma described_unique:
  assumes "described pairs x" and "described pairs y"
  shows "x = y"
proof -
  have "so_port x = so_port y"
    using assms by (cases "map_of (rev pairs) ''--port''") (simp_all add: described_def Let_def word_unat_eq_iff)
  moreover have "so_ttl x = so_ttl y"
  proof (cases "map_of (rev pairs) ''--ttl-ms''")
    case (Some v)
    from assms Some have "\<exists>a. so_ttl x = Some a \<and> stoll v = Inr (sint a)" "\<exists>b. so_ttl y = Some b \<and> stoll v = Inr (sint b)"
      by (auto simp: described_def Let_def)
    then obtain a b where "so_ttl x = Some a" "so_ttl y = Some b" and eq: "sint a = sint b" by auto
    with signed_word_eqI [OF eq] show ?thesis by simp
  qed (use assms in \<open>simp add: described_def Let_def\<close>)
  moreover have "so_bindAddress x = so_bindAddress y" "so_dataFile x = so_dataFile y"
    "so_persistenceEnabled x = so_persistenceEnabled y"
    using assms by (simp_all add: described_def Let_def)
  ultimately show ?thesis by (cases x; cases y) simp
qed

lemma ParseOption_acceptable: "ParseOption option v options = Inr options' \<Longrightarrow> acceptable (option, v)"
  by (auto simp: ParseOption_def acceptable_def result_simps split: if_splits)

lemma ParseOption_described:
  assumes "acceptable (option, v)" and "described pairs options"
  shows "\<exists>options'. ParseOption option v options = Inr options' \<and> described (pairs @ [(option, v)]) options'"
proof -
  note given = described_def Let_def ParseOption_def
  have disj: "option = ''--bind'' \<or> option = ''--data-file'' \<or> option = ''--port'' \<and> (\<exists>n \<le> 65535. stoul v = Inr n) \<or>
      option = ''--ttl-ms'' \<and> (\<exists>t \<ge> 0. stoll v = Inr t) \<or> option = ''--persistence'' \<and> (v = ''flush'' \<or> v = ''off'')"
    using assms(1) by (simp only: acceptable_def prod.case insert_iff empty_iff HOL.simp_thms disj_assoc)
  consider (bind) "option = ''--bind''" | (data) "option = ''--data-file''"
    | (port) n where "option = ''--port''" "n \<le> 65535" "stoul v = Inr n"
    | (ttl) t where "option = ''--ttl-ms''" "0 \<le> t" "stoll v = Inr t"
    | (flush) "option = ''--persistence''" "v = ''flush''" | (off) "option = ''--persistence''" "v = ''off''"
    using disj by (elim disjE exE conjE) assumption+
  then show ?thesis
  proof cases
    case bind
    with assms(2) show ?thesis by (simp add: given cong: option.case_cong)
  next
    case data
    with assms(2) show ?thesis by (simp add: given cong: option.case_cong)
  next
    case (port n)
    then have "unat (of_nat n :: 16 word) = n" by (simp add: unat_of_nat take_bit_nat_eq_self)
    with port assms(2) show ?thesis by (simp add: given cong: option.case_cong)
  next
    case (ttl t)
    with sint_stoll [OF ttl(3)] assms(2) show ?thesis by (simp add: given cong: option.case_cong)
  next
    case flush
    with assms(2) show ?thesis by (simp add: given cong: option.case_cong)
  next
    case off
    with assms(2) show ?thesis by (simp add: given cong: option.case_cong)
  qed
qed

lemma ParseOptions_loop_acceptable:
  "ParseOptions_loop arguments options = Inr options' \<Longrightarrow>
   \<exists>pairs. arguments = command_line pairs \<and> (\<forall>x \<in> set pairs. acceptable x)"
proof (induction arguments options rule: ParseOptions_loop.induct)
  case (1 options)
  show ?case by (intro exI [of _ "[]"]) (simp add: command_line_def)
next
  case (3 option v arguments options)
  then obtain options1 where 1: "ParseOption option v options = Inr options1"
    and 2: "ParseOptions_loop arguments options1 = Inr options'"
    by (auto simp: result_simps)
  from 3(1) [OF 2] obtain pairs where "arguments = command_line pairs" "\<forall>x \<in> set pairs. acceptable x" by blast
  with ParseOption_acceptable [OF 1] show ?case
    by (intro exI [of _ "(option, v) # pairs"]) (simp add: command_line_def)
qed simp

lemma ParseOptions_loop_append:
  "even (length a) \<Longrightarrow> ParseOptions_loop (a @ b) options = rbind (ParseOptions_loop a options) (ParseOptions_loop b)"
proof (induction a options rule: ParseOptions_loop.induct)
  case (3 option v arguments options)
  then show ?case by (cases "ParseOption option v options") simp_all
qed simp_all

lemma even_command_line: "even (length (command_line pairs))"
  by (induction pairs) (auto simp: command_line_def)

lemma ParseOptions_described:
  "\<forall>x \<in> set pairs. acceptable x \<Longrightarrow> \<exists>options. ParseOptions (command_line pairs) = Inr options \<and> described pairs options"
proof (induction pairs rule: rev_induct)
  case Nil
  show ?case by (simp add: ParseOptions_def command_line_def described_default)
next
  case (snoc x pairs)
  obtain option v where x: "x = (option, v)" by (cases x)
  from snoc obtain options where o: "ParseOptions (command_line pairs) = Inr options" "described pairs options" by auto
  from snoc(2) x have "acceptable (option, v)" by simp
  from ParseOption_described [OF this o(2)] obtain options' where
    o': "ParseOption option v options = Inr options'" "described (pairs @ [x]) options'" by (auto simp: x)
  have "command_line (pairs @ [x]) = command_line pairs @ [option, v]" by (simp add: command_line_def x)
  with o(1) o' ParseOptions_loop_append [OF even_command_line, of pairs "[option, v]" default_options] show ?case
    by (simp add: ParseOptions_def)
qed

lemma open_database_plain:
  assumes "so_ttl options = None" and "so_persistenceEnabled options"
  shows "open_database options dev clock fs = RadishDB_new std_string (so_dataFile options) Flush dev clock fs"
  using assms by (simp add: open_database_def)


lemma HasTTL_nonneg: "0 \<le> sint ttl \<Longrightarrow> ttl \<noteq> -1"
  by auto

text \<open>A negative port is taken modulo the range of \<^verbatim>\<open>unsigned long\<close>, and may be in range then.\<close>

lemma negative_port_accepted:
  "ParseOptions [''--port'', ''-18446744073709551535''] = Inr (default_options\<lparr>so_port := 81\<rparr>)"
proof -
  have "stoul ''-18446744073709551535'' = Inr 81"
    by (simp add: stoul_def parse_unsigned_def isspace_def is_digit_def decimal_value_def digit_value_def Let_def)
  then show ?thesis by (simp add: ParseOptions_def ParseOption_def)
qed

text \<open>A file system whose log, if there is one, holds a map.\<close>

definition log_of_map :: "string \<Rightarrow> FileSystem \<Rightarrow> (string \<Rightarrow> char list option) \<Rightarrow> bool" where
  "log_of_map f fs m \<longleftrightarrow> (if fs (log_name f) = None then m = Map.empty else
     (\<exists>es. fs (log_name f) = Some (log_bytes std_string es) \<and> list_all (record_ok std_string) es \<and>
        list_all no_self_rename es \<and> list_all no_expiry es \<and> (\<forall>r i. replay_view False r i es Map.empty = plain_view m)))"

lemma db_inv_log: "db_inv std_string f (db, fs) m \<Longrightarrow> log_of_map f fs m"
  unfolding db_inv_def log_of_map_def by auto

lemma store_view_plain:
  assumes "store_ok s" and "\<not> RadishStore_HasTimeToLive s"
  shows "store_view s = plain_view (\<lambda>k. umap_find (m_data s) k)"
  using assms by (auto simp: store_view_def plain_view_def store_ok_def umap_find_def fun_eq_iff)

lemma replay_plain:
  assumes "LogWriter_Replay_loop clock 0 es (RadishStore_new (-1)) = Inr s" and "list_all (record_ok std_string) es"
  shows "replay_view False r i es Map.empty = store_view s"
proof -
  have "LogWriter_Replay_loop r i es (RadishStore_new (-1)) = LogWriter_Replay_loop clock 0 es (RadishStore_new (-1))"
    by (rule jr.replay_clock_cong [where P = "\<lambda>s. \<not> RadishStore_HasTimeToLive s"])
      (auto simp: HasTTL_ApplyEvent intro: ApplyEvent_no_ttl)
  with assms(1) Replay_loop_view [OF record_ok_events [OF assms(2)] store_ok_new, of r i "-1"] show ?thesis by auto
qed

lemma durable_is_db_inv:
  assumes "durable f (-1) True st w"
  obtains m where "w = plain_view m" and "db_inv std_string f st m"
proof -
  from assms obtain es clock where run: "run_log std_string f (-1) es clock st" and w: "store_view (m_store (fst st)) = w"
    and es: "list_all no_expiry es" "list_all no_self_rename es"
    by (auto simp: durable_def)
  have ok: "store_ok (m_store (fst st))" "\<not> RadishStore_HasTimeToLive (m_store (fst st))"
    using durable_db.holds [OF assms] by (auto simp: RadishStore_HasTimeToLive_def)
  let ?m = "\<lambda>k. umap_find (m_data (m_store (fst st))) k"
  have "w = plain_view ?m" using store_view_plain [OF ok] w by simp
  moreover have "\<forall>r i. replay_view False r i es Map.empty = plain_view ?m"
    using replay_plain run calculation w by (auto simp: run_log_def)
  ultimately show thesis
    using that run ok es w unfolding db_inv_def run_log_def by auto
qed

text \<open>Opening a log.\<close>

lemma log_of_map_open:
  assumes "log_of_map f fs m" and "RadishDB_new std_string f Flush dev clock fs = (Inr db, fs')"
  shows "durable f (-1) True (db, fs') (plain_view m)"
proof (cases "fs (log_name f)")
  case None
  note new = open_new_file [where fs = fs and filename = f, OF None assms(2) [unfolded RadishDB_new_is_ttl]]
  have "m = Map.empty" using assms(1) None by (simp add: log_of_map_def)
  with new show ?thesis
    by (auto simp: durable_def run_log_def plain_view_def fun_eq_iff store_view_def RadishStore_new_def umap_find_def intro!: exI [of _ "[]"])
next
  case (Some bytes)
  with assms(1) obtain es where es: "fs (log_name f) = Some (log_bytes std_string es @ [])" "list_all (record_ok std_string) es"
    "list_all no_self_rename es" "list_all no_expiry es" "\<And>r i. replay_view False r i es Map.empty = plain_view m"
    by (auto simp: log_of_map_def)
  note db = open_success(2,1,3) [OF assms(2) [unfolded RadishDB_new_is_ttl] es(1) torn_tail_Nil es(2)]
  with es replay_plain [OF db(3) es(2)] show ?thesis
    unfolding durable_def run_log_def by auto
qed

lemma open_existing_log:
  assumes "logged f (-1) (db, fs) w" and "readable dev"
  obtains db' where "RadishDB_new std_string f Flush dev clock fs = (Inr db', fs)" and "\<And>now k. RadishDB_Get now db' k = view_get now w k"
proof -
  from assms(1) obtain es tail clock0 s where es: "fs (log_name f) = Some (log_bytes std_string es @ tail)" "torn_tail tail"
    "list_all (record_ok std_string) es" "LogWriter_Replay_loop clock0 0 es (RadishStore_new (-1)) = Inr s" "store_view s = w"
    by (auto simp: logged_def)
  from open_existing [where fs = fs and filename = f, OF assms(2) es(1-3), of "-1" clock] obtain db' where
    db': "RadishDB_new_ttl std_string f (-1) Flush dev clock fs = (Inr db', fs)"
    "LogWriter_Replay_loop clock 0 es (RadishStore_new (-1)) = Inr (m_store db')" by auto
  have "store_ok (m_store db')" by (rule jr.invar_replay [OF store_ok_new db'(2)])
  moreover have "store_view (m_store db') = w"
    using replay_plain [OF es(4,3), of clock 0] replay_plain [OF db'(2) es(3), of clock 0] es(5) by simp
  ultimately show thesis
    using that db'(1) by (simp add: RadishDB_new_is_ttl RadishDB_Get_def Get_view)
qed

lemma view_get_plain: "view_get now (plain_view m) k = m k"
  by (cases "m k") (simp_all add: view_get_def plain_view_def)

section \<open>Properties\<close>

text \<open>
  (C37) The accepted command lines are exactly the sequences of options with values in which every
  option is known and every value is acceptable, also one that a later value of the same option
  replaces: a port is a number up to 65535, a time to live a number that is not negative, persistence is
  \<^verbatim>\<open>flush\<close> or \<^verbatim>\<open>off\<close>. The options are then described by the last value of
  each, without any wrap-around, and the defaults of the others; a time to live that was given always
  switches expiry on.
\<close>

theorem accepted_command_line:
  "(ParseOptions arguments = Inr options \<longleftrightarrow>
     (\<exists>pairs. arguments = command_line pairs \<and> (\<forall>x \<in> set pairs. acceptable x) \<and> described pairs options)) \<and>
   (ParseOptions arguments = Inr options \<longrightarrow> so_ttl options = Some ttl \<longrightarrow>
     RadishStore_HasTimeToLive (RadishStore_new ttl :: string RadishStore))"
proof -
  have accepted: "\<exists>pairs. arguments = command_line pairs \<and> (\<forall>x \<in> set pairs. acceptable x) \<and> described pairs options"
    if "ParseOptions arguments = Inr options"
  proof -
    from ParseOptions_loop_acceptable [OF that [unfolded ParseOptions_def]] obtain pairs where
      pairs: "arguments = command_line pairs" "\<forall>x \<in> set pairs. acceptable x" by blast
    with ParseOptions_described [OF pairs(2)] that show ?thesis by auto
  qed
  moreover have "ParseOptions arguments = Inr options"
    if "arguments = command_line pairs" "\<forall>x \<in> set pairs. acceptable x" "described pairs options" for pairs
    using ParseOptions_described [OF that(2)] described_unique [OF _ that(3)] that(1) by auto
  moreover have "RadishStore_HasTimeToLive (RadishStore_new ttl :: string RadishStore)"
    if "described pairs options" "so_ttl options = Some ttl" for pairs
    using that HasTTL_nonneg [of ttl] by (auto simp: described_def Let_def split: option.splits)
  ultimately show ?thesis by blast
qed

text \<open>The port is given twice; the time to live stands between the two.\<close>

theorem accepted_command_line_witness:
  "\<exists>options. ParseOptions [''--port'', ''1'', ''--ttl-ms'', ''250'', ''--port'', ''7000''] = Inr options \<and>
     so_port options = 7000 \<and> so_ttl options = Some 250 \<and> so_persistenceEnabled options \<and>
     RadishStore_HasTimeToLive (RadishStore_new 250 :: string RadishStore)"
proof -
  let ?pairs = "[(''--port'', ''1''), (''--ttl-ms'', ''250''), (''--port'', ''7000'')]"
  let ?arguments = "[''--port'', ''1'', ''--ttl-ms'', ''250'', ''--port'', ''7000'']"
  let ?options = "default_options\<lparr>so_port := 7000, so_ttl := Some 250\<rparr>"
  have "stoll ''250'' = Inr 250" "stoul ''1'' = Inr 1" "stoul ''7000'' = Inr 7000"
    by (simp_all add: stoll_def stoul_def parse_unsigned_def isspace_def is_digit_def decimal_value_def digit_value_def Let_def)
  then have "?arguments = command_line ?pairs" "\<forall>x \<in> set ?pairs. acceptable x" "described ?pairs ?options"
    by (simp_all add: command_line_def acceptable_def described_def Let_def default_options_def)
  then have "ParseOptions ?arguments = Inr ?options"
    using accepted_command_line [of ?arguments ?options 250, THEN conjunct1] by blast
  then show ?thesis
    using accepted_command_line [of ?arguments ?options 250, THEN conjunct2] by (simp add: default_options_def)
qed

text \<open>
  (C7) One run of the program after the other keeps the contents. Start the server without a time to
  live on a log that holds a map, or on none; serve any requests in any order of completions until
  it is stopped; compact, successfully or not, and exit. If no key was renamed onto itself, the log
  left on disk holds exactly the map after the executed requests, and the next start restores it.
\<close>

theorem next_start_restores_map:
  assumes "ParseOptions arguments = Inr options" and "so_ttl options = None" and "so_persistenceEnabled options"
    and "log_of_map (so_dataFile options) fs m0" and "open_database options dev clock fs = (Inr db, fs1)"
    and "\<forall>c \<in> set cs. completion_ok c" and "io_run cs (World_start (db, fs1)) = (Some (Inr ()), W)"
    and "iteration_order ord" and "readable dev'"
    and "server_main arguments dev clock (event_loop None cs) dev2 ord clock1 clock2 fs = (code, fs')"
  shows "\<exists>h vs w. served W h \<and> spec_run (-1) h (\<lambda>_. Resp2) (plain_view m0) = Some (vs, w) \<and>
    (clean h \<longrightarrow> (\<exists>m db'. w = plain_view m \<and> log_of_map (so_dataFile options) fs' m \<and>
       open_database options dev' clock' fs' = (Inr db', fs') \<and> (\<forall>now key. RadishDB_Get now db' key = m key)))"
proof -
  let ?f = "so_dataFile options"
  have open': "RadishDB_new std_string ?f Flush dev clock fs = (Inr db, fs1)"
    using assms(5) by (simp add: open_database_plain [OF assms(2,3)])
  have "\<forall>c \<in> set ([] @ cs). completion_ok c" using assms(6) by simp
  from durable_db.server_refines [OF log_of_map_open [where fs = fs, OF assms(4) open'] this _ assms(7)]
  obtain h vs w where h: "served W h" "spec_run (-1) h (\<lambda>_. Resp2) (plain_view m0) = Some (vs, w)"
    "durable ?f (-1) (clean h) (w_db W) w" by auto
  show ?thesis
  proof (cases "clean h")
    case True
    obtain db2 fs2 where W: "w_db W = (db2, fs2)" by (cases "w_db W")
    from h(3) True W obtain m where m: "w = plain_view m" "db_inv std_string ?f (db2, fs2) m"
      using durable_is_db_inv [of ?f "(db2, fs2)" w] by auto
    obtain c db3 fs3 where compact: "RadishDB_Compact std_string dev2 ord clock1 clock2 (db2, fs2) = (c, (db3, fs3))"
      by (rule prod_cases3)
    note inv3 = db_inv_compact [OF m(2) assms(8) compact]
    have "fs' = fs3"
      using assms(1,3,5,7,10) compact W by (auto simp: server_main_def event_loop_listening split: sum.splits)
    with inv3 have inv': "db_inv std_string ?f (db3, fs') m" by simp
    have "fs' (log_name ?f) = Some (file_content fs' (log_name ?f) @ [])"
      using inv' by (auto simp: db_inv_def file_content_def)
    note reopen = reopen_db_inv [where fs' = fs', OF inv' assms(9) torn_tail_Nil this, of clock']
    then obtain db' where "RadishDB_new std_string ?f Flush dev' clock' fs' = (Inr db', fs')" by blast
    with reopen have "open_database options dev' clock' fs' = (Inr db', fs')" "\<forall>now key. RadishDB_Get now db' key = m key"
      by (auto simp: open_database_plain [OF assms(2,3)])
    with h m(1) db_inv_log [OF inv'] show ?thesis by blast
  qed (use h(1,2) in blast)
qed

text \<open>A client connects, sends nothing, and the server is stopped.\<close>

definition one_visit :: "Completion list" where
  "one_visit = [Accepted None, Signal]"

definition old_log :: FileSystem where
  "old_log = [log_name ''radish'' \<mapsto> log_bytes std_string [create_event (-1) ''k'' ''v'']]"

lemma old_log_map: "log_of_map ''radish'' old_log [''k'' \<mapsto> ''v'']"
proof -
  have "replay_view False r i [create_event (-1) ''k'' ''v''] Map.empty = plain_view [''k'' \<mapsto> ''v'']" for r i
    by (simp add: event_view_def create_entry_def plain_view_def fun_eq_iff)
  then show ?thesis
    unfolding log_of_map_def old_log_def
    by (auto simp: small_records intro!: exI [of _ "[create_event (-1) ''k'' ''v'']"])
qed

lemma old_log_opens:
  obtains db where "open_database default_options healthy (\<lambda>_. 0) old_log = (Inr db, old_log)"
proof -
  have "old_log (log_name ''radish'') = Some (log_bytes std_string [create_event (-1) ''k'' ''v''] @ [])" by (simp add: old_log_def)
  from open_existing [where fs = old_log and filename = "''radish''", OF readable_healthy this torn_tail_Nil, of "-1" "\<lambda>_. 0"]
  show thesis using that
    by (auto simp: open_database_def default_options_def RadishDB_new_is_ttl small_records)
qed

lemma one_visit_run:
  "\<exists>W. io_run one_visit (World_start st) = (Some (Inr ()), W) \<and> w_db W = st \<and> (\<forall>h. served W h \<longrightarrow> h = [])"
proof -
  let ?s = "Session_Start Session_new"
  define W where "W = snd (io_run one_visit (World_start st))"
  have run: "io_run one_visit (World_start st) = (Some (Inr ()), W)" "w_sessions W = [?s]" "w_db W = st" "w_received W 0 = []"
    unfolding W_def
    by (simp_all add: one_visit_def World_start_def enabled_def handle_def TcpServer_Start_def TcpServer_Accept_def TcpServer_new_def)
  have "h = []" if "served W h" for h
  proof -
    have "of_session 0 h = h" using that run(2) by (auto simp: served_def filter_id_conv)
    moreover have "\<exists>pend err rest. rc.drain [] = (map op_args (of_session 0 h) @ pend, err, rest)"
      using that run(2,4) unfolding served_def session_done_def by force
    moreover have "rc.drain [] = ([], None, [])" by (simp add: rc.drain_More rc.parse_Nil)
    ultimately show ?thesis by auto
  qed
  with run show ?thesis by blast
qed

theorem next_start_restores_map_witness:
  "\<exists>db'. let fs' = snd (server_main [] healthy (\<lambda>_. 0) (event_loop None one_visit) full_device rev (\<lambda>_. 0) (\<lambda>_. 0) old_log)
    in open_database default_options healthy (\<lambda>_. 9) fs' = (Inr db', fs') \<and> RadishDB_Get 7 db' ''k'' = Some ''v''"
proof -
  obtain code fs' where m: "server_main [] healthy (\<lambda>_. 0) (event_loop None one_visit) full_device rev (\<lambda>_. 0) (\<lambda>_. 0) old_log = (code, fs')"
    by (cases "server_main [] healthy (\<lambda>_. 0) (event_loop None one_visit) full_device rev (\<lambda>_. 0) (\<lambda>_. 0) old_log")
  have p: "ParseOptions [] = Inr default_options" "so_ttl default_options = None" "so_persistenceEnabled default_options"
    "so_dataFile default_options = ''radish''"
    by (simp_all add: ParseOptions_def default_options_def)
  obtain db where o: "open_database default_options healthy (\<lambda>_. 0) old_log = (Inr db, old_log)" by (rule old_log_opens)
  obtain W where W: "io_run one_visit (World_start (db, old_log)) = (Some (Inr ()), W)" "\<forall>h. served W h \<longrightarrow> h = []"
    using one_visit_run by blast
  have "\<forall>c \<in> set one_visit. completion_ok c" by (simp add: one_visit_def completion_ok_def)
  from next_start_restores_map [OF p(1-3) old_log_map [folded p(4)] o this W(1) iteration_order_rev readable_healthy m, of "\<lambda>_. 9"]
  obtain h vs w where h: "served W h" "spec_run (-1) h (\<lambda>_. Resp2) (plain_view [''k'' \<mapsto> ''v'']) = Some (vs, w)"
    "clean h \<longrightarrow> (\<exists>m db'. w = plain_view m \<and> open_database default_options healthy (\<lambda>_. 9) fs' = (Inr db', fs') \<and>
      (\<forall>now key. RadishDB_Get now db' key = m key))"
    by blast
  with W(2) have "h = []" by blast
  with h(2,3) obtain m1 db' where "plain_view m1 = plain_view [''k'' \<mapsto> ''v'']"
    "open_database default_options healthy (\<lambda>_. 9) fs' = (Inr db', fs')" "RadishDB_Get 7 db' ''k'' = m1 ''k''" by auto
  with plain_view_inject [of m1 "[''k'' \<mapsto> ''v'']"] m show ?thesis by simp
qed

text \<open>
  (C6) What is on disk restores the executed requests. The server runs with persistence and without a time to
  live on no log or on one that holds a map, without an unfinished record. Whatever the order of
  completions, when the process is killed while it waits for the next one, or a handler throws and the
  program exits with an error, opening the log that is then on disk gives a database whose reads are
  those of the contents after the executed requests; and if no handler threw, every complete request that
  arrived at a session that is not closing was executed. Only a deletion of several keys that threw
  may have deleted some of them without being answered.
\<close>

theorem crash_keeps_executed_requests:
  assumes "ParseOptions arguments = Inr options" and "so_ttl options = None" and "so_persistenceEnabled options"
    and "log_of_map (so_dataFile options) fs m0" and "open_database options dev clock fs = (Inr db, fs1)"
    and "\<forall>c \<in> set cs. completion_ok c" and "io_run cs (World_start (db, fs1)) = (r, W)" and "readable dev'"
  shows "\<exists>h vs w w' db'. served W h \<and> spec_run (-1) h (\<lambda>_. Resp2) (plain_view m0) = Some (vs, w) \<and>
    (w' = w \<or> (\<exists>e. r = Some (Inl e)) \<and> threw W h w w') \<and>
    ((\<exists>e. r = Some (Inl e)) \<or> (\<forall>i < length (w_sessions W). \<not> m_closeAfterWrite (w_sessions W ! i) \<longrightarrow>
       map op_args (of_session i h) = wire_requests (w_received W i))) \<and>
    open_database options dev' clock' (snd (w_db W)) = (Inr db', snd (w_db W)) \<and>
    (\<forall>now key. RadishDB_Get now db' key = view_get now w' key) \<and>
    (\<forall>e. r = Some (Inl e) \<longrightarrow> server_main arguments dev clock (event_loop None cs) dev2 ord clock1 clock2 fs = (1, snd (w_db W)))"
proof -
  let ?f = "so_dataFile options"
  have open': "RadishDB_new std_string ?f Flush dev clock fs = (Inr db, fs1)"
    using assms(5) by (simp add: open_database_plain [OF assms(2,3)])
  obtain db2 fs2 where W: "w_db W = (db2, fs2)" by (cases "w_db W")
  from durable_db.server_recoverable [OF log_of_map_open [where fs = fs, OF assms(4) open'] assms(6,7)]
  obtain h vs w w' where h: "served W h" "spec_run (-1) h (\<lambda>_. Resp2) (plain_view m0) = Some (vs, w)"
    and w': "w' = w \<or> (\<exists>e. r = Some (Inl e)) \<and> threw W h w w'" "logged ?f (-1) (db2, fs2) w'"
    and all: "(\<exists>e. r = Some (Inl e)) \<or> (\<forall>i < length (w_sessions W). \<not> m_closeAfterWrite (w_sessions W ! i) \<longrightarrow>
       map op_args (of_session i h) = wire_requests (w_received W i))"
    unfolding W .
  obtain db' where "RadishDB_new std_string ?f Flush dev' clock' fs2 = (Inr db', fs2)" "\<And>now k. RadishDB_Get now db' k = view_get now w' k"
    using open_existing_log [where fs = fs2, OF w'(2) assms(8)] by blast
  moreover have "\<forall>e. r = Some (Inl e) \<longrightarrow> server_main arguments dev clock (event_loop None cs) dev2 ord clock1 clock2 fs = (1, snd (w_db W))"
    using assms(1,5,7) W by (auto simp: server_main_def event_loop_listening)
  ultimately show ?thesis
    using h w'(1) all unfolding W open_database_plain [OF assms(2,3)] snd_conv by blast
qed

text \<open>
  A client connects and sends two requests: the first is executed, the disk is full at the second, and the
  program exits with an error.
\<close>

definition full_env :: Env where
  "full_env = demo_env\<lparr>env_dev := \<lambda>_. full_device\<rparr>"

definition set_visit :: "Completion list" where
  "set_visit = [Accepted None, ReadDone 0 (\<lambda>_. demo_env) (Some (EncodeCommand [''SET'', ''k'', ''w''])),
     ReadDone 0 (\<lambda>_. full_env) (Some (EncodeCommand [''SET'', ''j'', ''x'']))]"

lemma set_requests:
  "command_ok [''SET'', [x], [y]]" "0 < length (EncodeCommand [''SET'', [x], [y]])" "length (EncodeCommand [''SET'', [x], [y]]) \<le> 100"
  "Uppercase ''SET'' = ''SET''"
  by (simp_all add: command_ok_def kMaxArguments_def kMaxBulkLength_def EncodeCommand_def to_string_nat.simps Uppercase_def toupper_def)

lemma set_answer:
  "answer env [''SET'', key, x] v st =
     (case RadishDB_Create std_string (env_now env 0) (env_dev env 0) key x st of
        (Inl e, st1) \<Rightarrow> (Inl e, v, st1) | (Inr _, st1) \<Rightarrow> (Inr (RespCodec_SimpleString ''OK'', False), v, st1))"
  using answer_handler [of "''SET''" HandleSet env "[key, x]" v st]
  by (simp add: set_requests(4) find_handlers HandleSet_def split: prod.split sum.split)

lemma encoded_outcome: "command_ok c \<Longrightarrow> command_outcome (EncodeCommand c) = Done c (length (EncodeCommand c))"
  using ParseCommand_encode [of c "[]"] by (simp add: outcome_Complete)

lemma read_one:
  assumes "command_ok c" and "m_input s = []" and "\<not> m_closeAfterWrite s" and "length (EncodeCommand c) \<le> kMaxBufferedInput"
    and "answer (envs 0) c (m_version s) db = (x, v, db1)"
  shows "x = Inl e \<Longrightarrow> Session_ReadDone envs (Some (EncodeCommand c)) (s, db) =
      (Inl e, (s\<lparr>sk_reading := False, m_input := [], m_version := v\<rparr>, db1))"
    and "x = Inr (response, False) \<Longrightarrow> Session_ReadDone envs (Some (EncodeCommand c)) (s, db) =
      (Inr 1, ((Session_Queue response False (s\<lparr>sk_reading := False, m_input := [], m_version := v\<rparr>))\<lparr>sk_reading := True\<rparr>, db1))"
proof -
  let ?s = "s\<lparr>sk_reading := False, m_input := EncodeCommand c\<rparr>"
  have p: "Session_Process envs 0 (?s, db) =
      (let s1 = ?s\<lparr>m_input := drop (length (EncodeCommand c)) (m_input ?s), m_version := v\<rparr>
       in case x of Inl e \<Rightarrow> (Inl e, (s1, db1))
          | Inr (response, close) \<Rightarrow> Session_Process envs (Suc 0) (Session_Queue response close s1, db1))"
    by (rule Process_Done) (use assms encoded_outcome [OF assms(1)] in simp_all)
  { assume "x = Inl e"
    with p assms(2,4) show "Session_ReadDone envs (Some (EncodeCommand c)) (s, db) =
        (Inl e, (s\<lparr>sk_reading := False, m_input := [], m_version := v\<rparr>, db1))"
      by (simp add: Session_ReadDone_def) }
  assume x: "x = Inr (response, False)"
  let ?q = "Session_Queue response False (s\<lparr>sk_reading := False, m_input := [], m_version := v\<rparr>)"
  have "Session_Process envs (Suc 0) (?q, db1) = (Inr (Suc 0), (?q, db1))"
    by (rule Process_idle) (simp add: rc.parse_Nil)
  with p x assms(2-4) show "Session_ReadDone envs (Some (EncodeCommand c)) (s, db) = (Inr 1, (?q\<lparr>sk_reading := True\<rparr>, db1))"
    by (simp add: Session_ReadDone_def)
qed

lemma Create_on_full_device:
  assumes "db_inv std_string filename st m" and "record_ok std_string (create_event (-1) key x)"
    and "9 < length (frame std_string (create_event (-1) key x))"
  obtains e st' where "RadishDB_Create std_string now full_device key x st = (Inl e, st')"
proof -
  obtain db fs where st: "st = (db, fs)" by (cases st)
  have db: "opened filename db" "store_ok (m_store db)" "\<not> RadishStore_HasTimeToLive (m_store db)"
    using assms(1) st by (simp_all add: db_inv_def)
  have e: "event_ok std_string (create_event (-1) key x)" using assms(2) by (simp add: record_ok_def)
  from Commit_opened [OF db(1) e db(2), of now full_device fs] ApplyEvent_create [of now "m_store db" "-1" key x]
    Append_full [OF assms(2) _ _ assms(3), of full_device "m_writer (the (m_persistence db))" fs]
  obtain err st' where "RadishDB_Commit std_string now full_device (create_event (-1) key x) (db, fs) = (Inl err, st')"
    by (auto simp: full_device_def healthy_def)
  with st db(3) that show thesis by (simp add: RadishDB_Create_def RadishStore_NewExpiryTimestamp_def)
qed

lemma set_visit_run:
  assumes "db_inv std_string filename st m"
  shows "\<exists>e W. io_run set_visit (World_start st) = (Some (Inl e), W) \<and> length (w_sessions W) = 1 \<and>
    w_received W 0 = EncodeCommand [''SET'', ''k'', ''w''] @ EncodeCommand [''SET'', ''j'', ''x''] \<and>
    m_output (w_sessions W ! 0) = [RespCodec_SimpleString ''OK''] \<and> sk_sent (w_sessions W ! 0) = [] \<and> sk_writing (w_sessions W ! 0)"
proof -
  let ?c1 = "[''SET'', ''k'', ''w'']" and ?c2 = "[''SET'', ''j'', ''x'']" and ?s = "Session_Start Session_new"
  have rec: "record_ok std_string (create_event (-1) ''k'' ''w'')" "record_ok std_string (create_event (-1) ''j'' ''x'')"
    by (simp_all add: small_records)
  obtain st1 where 1: "RadishDB_Create std_string 0 healthy ''k'' ''w'' st = (Inr (), st1)"
    by (rule Create_healthy [OF assms rec(1), of healthy 0]) (simp_all add: writable_def healthy_def)
  have inv: "db_inv std_string filename st1 (m(''k'' \<mapsto> ''w''))" by (rule db_inv_create [OF assms rec(1) 1])
  obtain e st2 where 2: "RadishDB_Create std_string 0 full_device ''j'' ''x'' st1 = (Inl e, st2)"
    by (rule Create_on_full_device [OF inv rec(2), of 0]) (simp_all add: frame_def event_bytes_def)
  have len: "length (EncodeCommand ?c1) \<le> kMaxBufferedInput" "length (EncodeCommand ?c2) \<le> kMaxBufferedInput"
    "length (EncodeCommand ?c1) \<le> kReadBuffer" "length (EncodeCommand ?c2) \<le> kReadBuffer"
    using set_requests(3) [of "CHR ''k''" "CHR ''w''"] set_requests(3) [of "CHR ''j''" "CHR ''x''"]
    by (simp_all add: kMaxBufferedInput_def kReadBuffer_def)
  have s: "m_input ?s = []" "\<not> m_closeAfterWrite ?s" by (simp_all add: Session_Start_def Session_new_def)
  let ?q = "(Session_Queue (RespCodec_SimpleString ''OK'') False (?s\<lparr>sk_reading := False, m_input := [], m_version := m_version ?s\<rparr>))\<lparr>sk_reading := True\<rparr>"
  have q: "m_input ?q = []" "\<not> m_closeAfterWrite ?q" "sk_reading ?q" "sk_open ?q" "m_output ?q = [RespCodec_SimpleString ''OK'']"
    "sk_sent ?q = []" "sk_writing ?q"
    by (simp_all add: Session_Start_def Session_new_def Session_Queue_def Session_Write_def)
  have r1: "Session_ReadDone (\<lambda>_. demo_env) (Some (EncodeCommand ?c1)) (?s, st) = (Inr 1, (?q, st1))"
    by (rule read_one(2) [OF set_requests(1) s len(1) _ refl]) (simp add: set_answer demo_env_def 1 [unfolded One_nat_def])
  have r2: "Session_ReadDone (\<lambda>_. full_env) (Some (EncodeCommand ?c2)) (?q, st1) =
      (Inl e, (?q\<lparr>sk_reading := False, m_input := [], m_version := m_version ?q\<rparr>, st2))"
    by (rule read_one(1) [OF set_requests(1) q(1,2) len(2) _ refl]) (simp add: set_answer full_env_def demo_env_def 2 [unfolded One_nat_def])
  define q where "q = ?q"
  show ?thesis
    using r1 r2 q len set_requests(2) unfolding q_def [symmetric]
    by (simp add: set_visit_def World_start_def enabled_def handle_def TcpServer_Start_def TcpServer_Accept_def TcpServer_new_def
        TcpServer_AcceptDone_def Session_Start_def Session_new_def)
qed

lemma classify_set: "classify [''SET'', key, x] = Set key x"
  by (simp add: classify_def classify_known_def Uppercase_def toupper_def)

text \<open>The only history of this run is the first request.\<close>

lemma set_visit_history:
  assumes "length (w_sessions W) = 1" and "w_received W 0 = EncodeCommand [''SET'', ''k'', ''w''] @ EncodeCommand [''SET'', ''j'', ''x'']"
    and "m_output (w_sessions W ! 0) = [RespCodec_SimpleString ''OK'']" and "sk_sent (w_sessions W ! 0) = []" and "sk_writing (w_sessions W ! 0)"
    and "served W h" and "spec_run ttl h (\<lambda>_. Resp2) w0 = Some (vs, w)"
  shows "\<exists>env. w = spec_next ttl env (Set ''k'' ''w'') w0" and "threw W h w w' \<Longrightarrow> w' = w"
proof -
  let ?c1 = "[''SET'', ''k'', ''w'']" and ?c2 = "[''SET'', ''j'', ''x'']"
  have h: "of_session 0 h = h" using assms(1,6) by (auto simp: served_def filter_id_conv)
  have drain: "rc.drain (w_received W 0) = ([?c1, ?c2], None, [])"
    using drain_encoded [of "[?c1, ?c2]" "[]"] rc.parse_Nil set_requests(1) by (simp add: assms(2))
  from assms(1,6) h have "session_done (w_received W 0) h (w_sessions W ! 0)" by (auto simp: served_def)
  then obtain pend errs failed where args: "[?c1, ?c2] = map op_args h @ pend" and errs: "protocol_error errs"
    and inv: "session_inv (w_sessions W ! 0) (map op_reply h @ errs) failed"
    unfolding session_done_def drain by auto
  have out: "RespCodec_SimpleString ''OK'' = concat (map op_reply h @ errs)"
    using inv assms(3-5) by (cases failed) (auto simp: session_inv_def)
  have "\<exists>op. h = [op] \<and> op_args op = ?c1"
  proof (cases h)
    case Nil
    with out errs show ?thesis by (auto simp: protocol_error_def RespCodec_SimpleString_def RespCodec_Error_def)
  next
    case (Cons op ops)
    have reply: "op_reply op = RespCodec_SimpleString ''OK''" if "spec_reply (op_env op) (classify [''SET'', key, x]) v w (op_reply op)" for op key x v w
      using that by (simp add: classify_set spec_reply_def)
    show ?thesis
    proof (cases ops)
      case Nil
      with Cons args show ?thesis by simp
    next
      case (Cons op2 ops2)
      with args \<open>h = op # ops\<close> have "op_args op = ?c1" "op_args op2 = ?c2" by auto
      with assms(7) \<open>h = op # ops\<close> Cons have "op_reply op = RespCodec_SimpleString ''OK''" "op_reply op2 = RespCodec_SimpleString ''OK''"
        using reply by (auto simp: Let_def split: if_splits)
      with out \<open>h = op # ops\<close> Cons show ?thesis by (simp add: RespCodec_SimpleString_def)
    qed
  qed
  then obtain op where op: "h = [op]" "op_args op = ?c1" by blast
  with assms(7) show "\<exists>env. w = spec_next ttl env (Set ''k'' ''w'') w0"
    by (auto simp: Let_def classify_set split: if_splits)
  assume "threw W h w w'"
  then obtain c cs where "[?c1, ?c2] = [?c1] @ c # cs" "spec_failed (classify c) w w'"
    using assms(1) h op drain by (auto simp: threw_def wire_requests_def)
  then show "w' = w" by (auto simp: classify_set spec_failed_def)
qed

theorem crash_keeps_executed_requests_witness:
  "\<exists>db e W db'. open_database default_options healthy (\<lambda>_. 0) old_log = (Inr db, old_log) \<and>
     io_run set_visit (World_start (db, old_log)) = (Some (Inl e), W) \<and>
     fst (server_main [] healthy (\<lambda>_. 0) (event_loop None set_visit) healthy rev (\<lambda>_. 0) (\<lambda>_. 0) old_log) = 1 \<and>
     open_database default_options healthy (\<lambda>_. 9) (snd (w_db W)) = (Inr db', snd (w_db W)) \<and>
     RadishDB_Get 7 db' ''k'' = Some ''w'' \<and> RadishDB_Get 7 db' ''j'' = None"
proof -
  have p: "ParseOptions [] = Inr default_options" "so_ttl default_options = None" "so_persistenceEnabled default_options"
    "so_dataFile default_options = ''radish''"
    by (simp_all add: ParseOptions_def default_options_def)
  obtain db where o: "open_database default_options healthy (\<lambda>_. 0) old_log = (Inr db, old_log)" by (rule old_log_opens)
  then have o': "RadishDB_new std_string ''radish'' Flush healthy (\<lambda>_. 0) old_log = (Inr db, old_log)"
    by (simp add: open_database_plain [OF p(2,3)] p(4))
  obtain m where "db_inv std_string ''radish'' (db, old_log) m"
    using durable_is_db_inv [OF log_of_map_open [where fs = old_log, OF old_log_map o']] by blast
  from set_visit_run [OF this] obtain e W where W: "io_run set_visit (World_start (db, old_log)) = (Some (Inl e), W)"
    and world: "length (w_sessions W) = 1" "w_received W 0 = EncodeCommand [''SET'', ''k'', ''w''] @ EncodeCommand [''SET'', ''j'', ''x'']"
      "m_output (w_sessions W ! 0) = [RespCodec_SimpleString ''OK'']" "sk_sent (w_sessions W ! 0) = []" "sk_writing (w_sessions W ! 0)"
    by blast
  have "\<forall>c \<in> set set_visit. completion_ok c"
    by (simp add: set_visit_def completion_ok_def full_env_def demo_env_def iteration_order_id)
  from crash_keeps_executed_requests [where ?dev2.0 = healthy and ord = rev and ?clock1.0 = "\<lambda>_. 0" and ?clock2.0 = "\<lambda>_. 0",
      OF p(1-3) old_log_map [folded p(4)] o this W readable_healthy, of "\<lambda>_. 9"]
  obtain h vs w w' db' where h: "served W h" "spec_run (-1) h (\<lambda>_. Resp2) (plain_view [''k'' \<mapsto> ''v'']) = Some (vs, w)"
      "w' = w \<or> threw W h w w'"
      "open_database default_options healthy (\<lambda>_. 9) (snd (w_db W)) = (Inr db', snd (w_db W))"
      "\<forall>now key. RadishDB_Get now db' key = view_get now w' key"
    and code: "\<forall>e'. Some (Inl e) = Some (Inl e' :: unit result) \<longrightarrow>
      server_main [] healthy (\<lambda>_. 0) (event_loop None set_visit) healthy rev (\<lambda>_. 0) (\<lambda>_. 0) old_log = (1, snd (w_db W))"
    by blast
  note history = set_visit_history [OF world h(1,2)]
  from h(3) history(2) have "w' = w" by blast
  moreover from history(1) obtain env where "w = spec_next (-1) env (Set ''k'' ''w'') (plain_view [''k'' \<mapsto> ''v''])" by blast
  ultimately have "RadishDB_Get 7 db' ''k'' = Some ''w''" "RadishDB_Get 7 db' ''j'' = None"
    using h(5) by (simp_all add: spec_next_def view_get_def plain_view_def expiry_def)
  moreover from code have "fst (server_main [] healthy (\<lambda>_. 0) (event_loop None set_visit) healthy rev (\<lambda>_. 0) (\<lambda>_. 0) old_log) = 1" by simp
  ultimately show ?thesis using o W h(4) by (intro exI [of _ db] exI [of _ e] exI [of _ W] exI [of _ db']) simp
qed

end
