(* ===== verification/Shared_Mutex.thy ===== *)
theory Shared_Mutex
  imports Radish_Prelude
begin

text \<open>
  The locking discipline of \<^verbatim>\<open>include/RadishDB.h\<close>: every public operation holds the
  \<^verbatim>\<open>std::shared_mutex\<close> from its first to its last statement, exclusively
  (\<^verbatim>\<open>std::lock_guard\<close>) when it is a mutation and shared (\<^verbatim>\<open>std::shared_lock\<close>) when
  it reads. Threads take turns in any order between the single steps of their calls. The body of a
  call is a step relation of its own, a parameter here; \<^verbatim>\<open>Db_Threads\<close> gives it for the
  operations of the database.

  The interface \<open>locked_calls\<close> states what such bodies owe to the discipline, each
  about one call that runs alone; shown from it is that any interleaving of any number of threads is
  linearizable, that conflicting calls never overlap, and that threads never block one another for
  good.
\<close>

section \<open>The mutex\<close>

record shared_mutex =
  exclusive :: "nat option"
  sharing :: "nat set"

definition shared_mutex_new :: shared_mutex where
  "shared_mutex_new = \<lparr>exclusive = None, sharing = {}\<rparr>"

text \<open>When \<^verbatim>\<open>lock\<close> and \<^verbatim>\<open>lock_shared\<close> return, and what they and the destructors of the guards do.\<close>

definition may_acquire :: "bool \<Rightarrow> shared_mutex \<Rightarrow> bool" where
  "may_acquire w m \<longleftrightarrow> exclusive m = None \<and> (w \<longrightarrow> sharing m = {})"

definition acquire :: "bool \<Rightarrow> nat \<Rightarrow> shared_mutex \<Rightarrow> shared_mutex" where
  "acquire w t m = (if w then m\<lparr>exclusive := Some t\<rparr> else m\<lparr>sharing := insert t (sharing m)\<rparr>)"

definition release :: "bool \<Rightarrow> nat \<Rightarrow> shared_mutex \<Rightarrow> shared_mutex" where
  "release w t m = (if w then m\<lparr>exclusive := None\<rparr> else m\<lparr>sharing := sharing m - {t}\<rparr>)"

section \<open>Threads\<close>

text \<open>
  A thread is outside of the database, waits for the lock, is inside of a call with the lock held,
  or has left the lock and is about to return the answer. Inside it carries the readings of the
  clock so far and the local state of the call.
\<close>

datatype ('c, 'l, 'a) thread =
    Outside
  | Waiting 'c
  | Inside 'c "Timestamp list" 'l
  | Leaving 'a

datatype ('c, 'a) event =
    Invoked nat 'c
  | Answered nat 'c "Timestamp list" 'a
  | Returned nat 'a

record ('c, 'l, 's, 'a) system =
  mutex :: shared_mutex
  wall_clock :: Timestamp
  thread :: "nat \<Rightarrow> ('c, 'l, 'a) thread"
  shared :: 's
  trace :: "('c, 'a) event list"

definition system_start :: "Timestamp \<Rightarrow> 's \<Rightarrow> ('c, 'l, 's, 'a) system" where
  "system_start now s =
     \<lparr>mutex = shared_mutex_new, wall_clock = now, thread = (\<lambda>_. Outside), shared = s, trace = []\<rparr>"

text \<open>
  A step of thread \<open>t\<close> that is inside of the database: getting the lock, a step of the body at the
  current time, leaving the scope of the lock, and returning.
\<close>

inductive advance ::
    "('c \<Rightarrow> bool) \<Rightarrow> ('c \<Rightarrow> 'l) \<Rightarrow> ('c \<Rightarrow> Timestamp \<Rightarrow> 'l \<times> 's \<Rightarrow> 'l \<times> 's \<Rightarrow> bool) \<Rightarrow> ('l \<Rightarrow> 'a option) \<Rightarrow>
     nat \<Rightarrow> ('c, 'l, 's, 'a) system \<Rightarrow> ('c, 'l, 's, 'a) system \<Rightarrow> bool"
  for writes enter body finished t where
  acquires: "thread y t = Waiting c \<Longrightarrow> may_acquire (writes c) (mutex y) \<Longrightarrow>
     advance writes enter body finished t y
       (y\<lparr>mutex := acquire (writes c) t (mutex y), thread := (thread y)(t := Inside c [] (enter c))\<rparr>)"
| steps: "thread y t = Inside c T l \<Longrightarrow> body c (wall_clock y) (l, shared y) (l', s') \<Longrightarrow>
     advance writes enter body finished t y
       (y\<lparr>thread := (thread y)(t := Inside c (T @ [wall_clock y]) l'), shared := s'\<rparr>)"
| releases: "thread y t = Inside c T l \<Longrightarrow> finished l = Some a \<Longrightarrow>
     advance writes enter body finished t y
       (y\<lparr>mutex := release (writes c) t (mutex y), thread := (thread y)(t := Leaving a),
         trace := trace y @ [Answered t c T a]\<rparr>)"
| returns: "thread y t = Leaving a \<Longrightarrow>
     advance writes enter body finished t y
       (y\<lparr>thread := (thread y)(t := Outside), trace := trace y @ [Returned t a]\<rparr>)"

text \<open>What happens from outside: a thread calls an operation, and the clock changes, also backwards.\<close>

inductive system_step ::
    "('c \<Rightarrow> bool) \<Rightarrow> ('c \<Rightarrow> 'l) \<Rightarrow> ('c \<Rightarrow> Timestamp \<Rightarrow> 'l \<times> 's \<Rightarrow> 'l \<times> 's \<Rightarrow> bool) \<Rightarrow> ('l \<Rightarrow> 'a option) \<Rightarrow>
     ('c, 'l, 's, 'a) system \<Rightarrow> ('c, 'l, 's, 'a) system \<Rightarrow> bool"
  for writes enter body finished where
  invokes: "thread y t = Outside \<Longrightarrow>
     system_step writes enter body finished y
       (y\<lparr>thread := (thread y)(t := Waiting c), trace := trace y @ [Invoked t c]\<rparr>)"
| ticks: "system_step writes enter body finished y (y\<lparr>wall_clock := now\<rparr>)"
| advances: "advance writes enter body finished t y y' \<Longrightarrow> system_step writes enter body finished y y'"

inductive system_reach ::
    "('c \<Rightarrow> bool) \<Rightarrow> ('c \<Rightarrow> 'l) \<Rightarrow> ('c \<Rightarrow> Timestamp \<Rightarrow> 'l \<times> 's \<Rightarrow> 'l \<times> 's \<Rightarrow> bool) \<Rightarrow> ('l \<Rightarrow> 'a option) \<Rightarrow> 's \<Rightarrow>
     ('c, 'l, 's, 'a) system \<Rightarrow> bool"
  for writes enter body finished s0 where
  starts: "system_reach writes enter body finished s0 (system_start now s0)"
| runs: "system_reach writes enter body finished s0 y \<Longrightarrow> system_step writes enter body finished y y' \<Longrightarrow>
     system_reach writes enter body finished s0 y'"

section \<open>What a run means\<close>

text \<open>The answered calls, in the order in which they left the lock.\<close>

fun answers :: "('c, 'a) event list \<Rightarrow> (nat \<times> 'c \<times> Timestamp list \<times> 'a) list" where
  "answers [] = []"
| "answers (Answered t c T a # es) = (t, c, T, a) # answers es"
| "answers (Invoked t c # es) = answers es"
| "answers (Returned t a # es) = answers es"

lemma answers_append [simp]: "answers (xs @ ys) = answers xs @ answers ys"
  by (induction xs rule: answers.induct) simp_all

text \<open>Executing calls one after the other.\<close>

inductive serial :: "('c \<Rightarrow> Timestamp list \<Rightarrow> 's \<Rightarrow> 'a \<Rightarrow> 's \<Rightarrow> bool) \<Rightarrow> 's \<Rightarrow>
    (nat \<times> 'c \<times> Timestamp list \<times> 'a) list \<Rightarrow> 's \<Rightarrow> bool" for atomic s where
  none: "serial atomic s [] s"
| next_call: "serial atomic s h s1 \<Longrightarrow> atomic c T s1 a s2 \<Longrightarrow> serial atomic s (h @ [(t, c, T, a)]) s2"

inductive_cases serial_snocE: "serial atomic s (h @ [x]) s2"

text \<open>
  Each thread invokes a call, gets its answer and returns it before it invokes the next one: the
  answers lie between invocation and return, so the order of the answers respects the order of each
  thread and real time.
\<close>

datatype ('c, 'a) phase = Idle | Called 'c | Decided 'a

fun phase_step :: "nat \<Rightarrow> ('c, 'a) event \<Rightarrow> ('c, 'a) phase \<Rightarrow> ('c, 'a) phase option" where
  "phase_step t (Invoked u c) p = (if u \<noteq> t then Some p else if p = Idle then Some (Called c) else None)"
| "phase_step t (Answered u c T a) p = (if u \<noteq> t then Some p else if p = Called c then Some (Decided a) else None)"
| "phase_step t (Returned u a) p = (if u \<noteq> t then Some p else if p = Decided a then Some Idle else None)"

fun phase_run :: "nat \<Rightarrow> ('c, 'a) event list \<Rightarrow> ('c, 'a) phase \<Rightarrow> ('c, 'a) phase option" where
  "phase_run t [] p = Some p"
| "phase_run t (e # es) p = (case phase_step t e p of None \<Rightarrow> None | Some q \<Rightarrow> phase_run t es q)"

lemma phase_run_snoc:
  "phase_run t (es @ [e]) p = (case phase_run t es p of None \<Rightarrow> None | Some q \<Rightarrow> phase_step t e q)"
  by (induction es arbitrary: p) (auto split: option.splits)

fun thread_phase :: "('c, 'l, 'a) thread \<Rightarrow> ('c, 'a) phase" where
  "thread_phase Outside = Idle"
| "thread_phase (Waiting c) = Called c"
| "thread_phase (Inside c T l) = Called c"
| "thread_phase (Leaving a) = Decided a"

definition orderly :: "('c, 'a) event list \<Rightarrow> bool" where
  "orderly es \<longleftrightarrow> (\<forall>t. phase_run t es Idle \<noteq> None)"

lemma advance_phase:
  assumes "advance writes enter body finished u y y'"
    and "\<And>t. phase_run t (trace y) Idle = Some (thread_phase (thread y t))"
  shows "phase_run t (trace y') Idle = Some (thread_phase (thread y' t))"
  using assms by (cases rule: advance.cases) (auto simp: phase_run_snoc)

lemma reach_phase:
  assumes "system_reach writes enter body finished s0 y"
  shows "phase_run t (trace y) Idle = Some (thread_phase (thread y t))"
  using assms
proof (induction arbitrary: t rule: system_reach.induct)
  case (starts now)
  show ?case by (simp add: system_start_def)
next
  case (runs y y')
  from runs(2) show ?case
  proof (cases rule: system_step.cases)
    case (advances u)
    then show ?thesis using runs.IH by (rule advance_phase)
  qed (use runs.IH in \<open>auto simp: phase_run_snoc\<close>)
qed

lemma reach_orderly: "system_reach writes enter body finished s0 y \<Longrightarrow> orderly (trace y)"
  using reach_phase unfolding orderly_def by fastforce

lemma answers_iff [simp]: "(t, c, T, a) \<in> set (answers es) \<longleftrightarrow> Answered t c T a \<in> set es"
  by (induction es rule: answers.induct) auto

text \<open>No call is answered or inside that was not invoked.\<close>

lemma phase_run_called:
  "phase_run t es p = Some (Called c) \<Longrightarrow> p = Called c \<or> Invoked t c \<in> set es"
proof (induction es arbitrary: p)
  case (Cons e es)
  then show ?case by (cases e) (auto split: if_splits option.splits)
qed simp

lemma phase_run_answered:
  "phase_run t es p \<noteq> None \<Longrightarrow> Answered t c T a \<in> set es \<Longrightarrow> p = Called c \<or> Invoked t c \<in> set es"
proof (induction es arbitrary: p)
  case (Cons e es)
  then show ?case by (cases e) (auto split: if_splits option.splits)
qed simp

section \<open>Calls that run alone\<close>

inductive solo :: "('c \<Rightarrow> 'l) \<Rightarrow> ('c \<Rightarrow> Timestamp \<Rightarrow> 'l \<times> 's \<Rightarrow> 'l \<times> 's \<Rightarrow> bool) \<Rightarrow> 'c \<Rightarrow> 's \<Rightarrow>
    Timestamp list \<Rightarrow> 'l \<Rightarrow> 's \<Rightarrow> bool" for enter body c s0 where
  enters: "solo enter body c s0 [] (enter c) s0"
| goes: "solo enter body c s0 T l s \<Longrightarrow> body c now (l, s) (l', s') \<Longrightarrow> solo enter body c s0 (T @ [now]) l' s'"

fun inside :: "('c, 'l, 'a) thread \<Rightarrow> 'c option" where
  "inside (Inside c T l) = Some c"
| "inside _ = None"

lemma inside_Some: "inside p = Some c \<longleftrightarrow> (\<exists>T l. p = Inside c T l)"
  by (cases p) auto

lemma reach_invoked:
  assumes "system_reach writes enter body finished s0 y"
  shows "inside (thread y t) = Some c \<Longrightarrow> Invoked t c \<in> set (trace y)"
    and "Answered t c T a \<in> set (trace y) \<Longrightarrow> Invoked t c \<in> set (trace y)"
proof -
  show "Invoked t c \<in> set (trace y)" if "inside (thread y t) = Some c"
  proof -
    from that have "thread_phase (thread y t) = Called c" by (cases "thread y t") simp_all
    with reach_phase [OF assms, of t] phase_run_called [of t "trace y" Idle c] show ?thesis by simp
  qed
  show "Invoked t c \<in> set (trace y)" if "Answered t c T a \<in> set (trace y)"
    using phase_run_answered [OF _ that, of Idle] reach_phase [OF assms, of t] by simp
qed

text \<open>The lock is held by exactly the threads inside.\<close>

definition holders_ok :: "('c \<Rightarrow> bool) \<Rightarrow> ('c, 'l, 's, 'a) system \<Rightarrow> bool" where
  "holders_ok writes y \<longleftrightarrow>
     (\<forall>t. exclusive (mutex y) = Some t \<longleftrightarrow> (\<exists>c. inside (thread y t) = Some c \<and> writes c)) \<and>
     (\<forall>t. t \<in> sharing (mutex y) \<longleftrightarrow> (\<exists>c. inside (thread y t) = Some c \<and> \<not> writes c)) \<and>
     (exclusive (mutex y) \<noteq> None \<longrightarrow> sharing (mutex y) = {})"

lemma holdsI:
  assumes "holders_ok writes y" and "inside (thread y t) = Some c"
  shows "if writes c then exclusive (mutex y) = Some t \<and> sharing (mutex y) = {} else t \<in> sharing (mutex y) \<and> exclusive (mutex y) = None"
proof (cases "writes c")
  case True
  with assms have "exclusive (mutex y) = Some t" unfolding holders_ok_def by blast
  with True assms(1) show ?thesis by (simp add: holders_ok_def)
next
  case False
  with assms have "t \<in> sharing (mutex y)" unfolding holders_ok_def by blast
  moreover from this assms(1) have "exclusive (mutex y) = None" unfolding holders_ok_def by blast
  ultimately show ?thesis using False by simp
qed

lemma holder_unique:
  assumes "holders_ok writes y" and "inside (thread y t) = Some c" and "writes c" and "inside (thread y u) = Some d"
  shows "u = t"
  using holdsI [OF assms(1,2)] holdsI [OF assms(1,4)] assms(3) by (auto split: if_splits)

lemma nobody_inside:
  assumes "holders_ok writes y" and "exclusive (mutex y) = None" and "sharing (mutex y) = {}"
  shows "inside (thread y t) = None"
proof (cases "inside (thread y t)")
  case (Some c)
  from holdsI [OF assms(1) this] assms(2,3) show ?thesis by (auto split: if_splits)
qed

lemma holders_same:
  assumes "holders_ok writes y" and "mutex y' = mutex y" and "\<And>u. inside (thread y' u) = inside (thread y u)"
  shows "holders_ok writes y'"
  using assms unfolding holders_ok_def by simp

lemma holders_advance:
  assumes "holders_ok writes y" and "advance writes enter body finished t y y'"
  shows "holders_ok writes y'"
  using assms(2)
proof (cases rule: advance.cases)
  case (acquires c)
  show ?thesis
  proof (cases "writes c")
    case True
    with acquires nobody_inside [OF assms(1)] show ?thesis
      by (simp add: holders_ok_def may_acquire_def acquire_def)
  next
    case False
    with acquires assms(1) show ?thesis
      by (auto simp: holders_ok_def may_acquire_def acquire_def)
  qed
next
  case (releases c T l a)
  with assms(1) holdsI [OF assms(1), of t c] show ?thesis
    by (auto simp: holders_ok_def release_def split: if_splits)
qed (auto intro!: holders_same [OF assms(1)])

lemma reach_holders: "system_reach writes enter body finished s0 y \<Longrightarrow> holders_ok writes y"
proof (induction rule: system_reach.induct)
  case (starts now)
  show ?case by (simp add: system_start_def holders_ok_def shared_mutex_new_def)
next
  case (runs y y')
  from runs(2) show ?case
    by (cases rule: system_step.cases) (auto intro: holders_advance [OF runs.IH] holders_same [OF runs.IH])
qed

text \<open>
  The interface of bodies under the lock: from an idle shared state, a finished call has done what
  the atomic call does and left the state idle, a reader changes nothing, and no body is ever stuck.
\<close>

locale locked_calls =
  fixes writes :: "'c \<Rightarrow> bool" and enter :: "'c \<Rightarrow> 'l"
    and body :: "'c \<Rightarrow> Timestamp \<Rightarrow> 'l \<times> 's \<Rightarrow> 'l \<times> 's \<Rightarrow> bool" and finished :: "'l \<Rightarrow> 'a option"
    and idle :: "'s \<Rightarrow> bool" and atomic :: "'c \<Rightarrow> Timestamp list \<Rightarrow> 's \<Rightarrow> 'a \<Rightarrow> 's \<Rightarrow> bool"
  assumes complete: "idle s0 \<Longrightarrow> solo enter body c s0 T l s \<Longrightarrow> finished l = Some a \<Longrightarrow> atomic c T s0 a s \<and> idle s"
    and reader: "idle s0 \<Longrightarrow> \<not> writes c \<Longrightarrow> solo enter body c s0 T l s \<Longrightarrow> s = s0"
    and progress: "idle s0 \<Longrightarrow> solo enter body c s0 T l s \<Longrightarrow> finished l = None \<Longrightarrow> \<exists>l' s'. body c now (l, s) (l', s')"
begin

text \<open>
  The state that the answered calls have left: the shared state itself, or the one from which the
  call that holds the lock exclusively has started.
\<close>

definition system_inv :: "'s \<Rightarrow> ('c, 'l, 's, 'a) system \<Rightarrow> 's \<Rightarrow> bool" where
  "system_inv s0 y s1 \<longleftrightarrow> idle s1 \<and> serial atomic s0 (answers (trace y)) s1 \<and>
     (exclusive (mutex y) = None \<longrightarrow> shared y = s1) \<and>
     (\<forall>t c T l. thread y t = Inside c T l \<longrightarrow> solo enter body c s1 T l (shared y))"

lemma inv_advance:
  assumes "system_inv s0 y s1" and "holders_ok writes y" and "advance writes enter body finished t y y'"
  obtains s2 where "system_inv s0 y' s2"
  using assms(3)
proof (cases rule: advance.cases)
  case (acquires c)
  then have "shared y = s1" using assms(1) by (simp add: system_inv_def may_acquire_def)
  with acquires assms(1) have "system_inv s0 y' s1"
    by (auto simp: system_inv_def acquire_def intro: solo.enters)
  then show thesis by (rule that)
next
  case (steps c T l l' s')
  have solo: "solo enter body c s1 T l (shared y)" using assms(1) steps(2) by (simp add: system_inv_def)
  have goes: "solo enter body c s1 (T @ [wall_clock y]) l' s'" by (rule solo.goes [OF solo steps(3)])
  note h = holdsI [OF assms(2), of t c]
  have "system_inv s0 y' s1"
  proof (cases "writes c")
    case True
    have alone: "u = t" if "thread y u = Inside d U k" for u d U k
      using holder_unique [OF assms(2) _ True, of t u d] steps(2) that by simp
    have "exclusive (mutex y) = Some t" using h True steps(2) by simp
    with steps(1) goes alone assms(1) show ?thesis unfolding system_inv_def by (simp, metis)
  next
    case False
    have "s' = s1" "shared y = s1" using reader [OF _ False] solo goes assms(1) by (auto simp: system_inv_def)
    with steps goes assms(1) show ?thesis by (auto simp: system_inv_def)
  qed
  then show thesis by (rule that)
next
  case (releases c T l a)
  have solo: "solo enter body c s1 T l (shared y)" using assms(1) releases(2) by (simp add: system_inv_def)
  have fin: "atomic c T s1 a (shared y)" "idle (shared y)"
    using complete [OF _ solo releases(3)] assms(1) by (auto simp: system_inv_def)
  note h = holdsI [OF assms(2), of t c]
  have "system_inv s0 y' (shared y)"
  proof (cases "writes c")
    case True
    have alone: "u = t" if "thread y u = Inside d U k" for u d U k
      using holder_unique [OF assms(2) _ True, of t u d] releases(2) that by simp
    have "serial atomic s0 (answers (trace y) @ [(t, c, T, a)]) (shared y)"
      using assms(1) fin(1) by (auto simp: system_inv_def intro: serial.next_call)
    with releases(1) fin alone show ?thesis unfolding system_inv_def by (simp, metis)
  next
    case False
    have eq: "shared y = s1" using reader [OF _ False solo] assms(1) by (simp add: system_inv_def)
    have "serial atomic s0 (answers (trace y) @ [(t, c, T, a)]) (shared y)"
      using assms(1) fin(1) by (auto simp: system_inv_def intro: serial.next_call)
    with releases(1) fin eq assms(1) show ?thesis by (simp add: system_inv_def)
  qed
  then show thesis by (rule that)
next
  case (returns a)
  with assms(1) have "system_inv s0 y' s1" by (auto simp: system_inv_def)
  then show thesis by (rule that)
qed

lemma reach_inv:
  assumes "system_reach writes enter body finished s0 y" and "idle s0"
  shows "\<exists>s1. system_inv s0 y s1"
  using assms(1)
proof (induction rule: system_reach.induct)
  case (starts now)
  have "system_inv s0 (system_start now s0) s0"
    using assms(2) by (simp add: system_inv_def system_start_def serial.none)
  then show ?case ..
next
  case (runs y y')
  from runs.IH obtain s1 where inv: "system_inv s0 y s1" ..
  from runs(2) show ?case
  proof (cases rule: system_step.cases)
    case (invokes t c)
    with inv have "system_inv s0 y' s1" by (auto simp: system_inv_def)
    then show ?thesis ..
  next
    case (ticks now)
    with inv have "system_inv s0 y' s1" by (auto simp: system_inv_def)
    then show ?thesis ..
  next
    case (advances t)
    with inv_advance [OF inv reach_holders [OF runs(1)]] show ?thesis by blast
  qed
qed

theorem linearizable:
  assumes "system_reach writes enter body finished s0 y" and "idle s0"
  shows "orderly (trace y) \<and> (\<exists>s1. serial atomic s0 (answers (trace y)) s1 \<and>
     (exclusive (mutex y) = None \<longrightarrow> shared y = s1) \<and>
     (\<forall>t c T l. thread y t = Inside c T l \<longrightarrow> solo enter body c s1 T l (shared y)))"
  using reach_inv [OF assms] reach_orderly [OF assms(1)] by (auto simp: system_inv_def)

text \<open>While two threads are inside, no step of any thread changes the shared state.\<close>

lemma readers_change_nothing:
  assumes "system_reach writes enter body finished s0 y" and "idle s0" and "advance writes enter body finished v y y'"
    and "inside (thread y t) = Some c" and "inside (thread y u) = Some d" and "t \<noteq> u"
  shows "shared y' = shared y"
  using assms(3)
proof (cases rule: advance.cases)
  case (steps e T l l' s')
  note unique = holder_unique [OF reach_holders [OF assms(1)]]
  have inside: "inside (thread y v) = Some e" using steps(2) by simp
  have "\<not> writes e"
    using unique [OF inside _ assms(4)] unique [OF inside _ assms(5)] assms(6) by blast
  moreover from reach_inv [OF assms(1,2)] obtain s1 where s1: "system_inv s0 y s1" ..
  then have idle: "idle s1" and solo: "solo enter body e s1 T l (shared y)" using steps(2) by (auto simp: system_inv_def)
  have "solo enter body e s1 (T @ [wall_clock y]) l' s'" using solo steps(3) by (rule solo.goes)
  ultimately have "s' = s1" "shared y = s1" using reader idle solo by blast+
  with steps(1) show ?thesis by simp
qed simp_all

text \<open>As long as some thread is not outside, some thread can go on.\<close>

theorem never_stuck:
  assumes "system_reach writes enter body finished s0 y" and "idle s0" and "thread y t \<noteq> Outside"
  shows "\<exists>u y'. advance writes enter body finished u y y'"
proof -
  from reach_inv [OF assms(1,2)] obtain s1 where inv: "system_inv s0 y s1" ..
  note h = reach_holders [OF assms(1)]
  show ?thesis
  proof (cases "\<exists>u c T l. thread y u = Inside c T l")
    case True
    then obtain u c T l where u: "thread y u = Inside c T l" by blast
    with inv have solo: "idle s1" "solo enter body c s1 T l (shared y)" by (simp_all add: system_inv_def)
    show ?thesis
    proof (cases "finished l")
      case None
      from progress [OF solo None] u show ?thesis by (blast intro: advance.steps)
    next
      case (Some a)
      with u show ?thesis by (blast intro: advance.releases)
    qed
  next
    case False
    then have out: "inside (thread y u) \<noteq> Some c" for u c by (simp add: inside_Some)
    have "u \<notin> sharing (mutex y)" for u using h out unfolding holders_ok_def by simp
    then have "sharing (mutex y) = {}" by blast
    moreover have "exclusive (mutex y) = None"
      using h out by (cases "exclusive (mutex y)") (auto simp: holders_ok_def)
    ultimately have may: "may_acquire w (mutex y)" for w by (simp add: may_acquire_def)
    from False assms(3) consider c where "thread y t = Waiting c" | a where "thread y t = Leaving a"
      by (cases "thread y t") auto
    then show ?thesis by cases (use may in \<open>blast intro: advance.acquires advance.returns\<close>)+
  qed
qed

end

section \<open>Calls that come to an end\<close>

definition triple_order :: "((nat \<times> nat \<times> nat) \<times> nat \<times> nat \<times> nat) set" where
  "triple_order = less_than <*lex*> less_than <*lex*> less_than"

definition weight_order :: "((nat \<times> nat \<times> nat \<times> nat) \<times> nat \<times> nat \<times> nat \<times> nat) set" where
  "weight_order = less_than <*lex*> triple_order"

lemma wf_weight_order: "wf weight_order"
  by (auto simp: weight_order_def triple_order_def)

fun thread_weight :: "('l \<Rightarrow> 's \<Rightarrow> nat \<times> nat \<times> nat) \<Rightarrow> 's \<Rightarrow> ('c, 'l, 'a) thread \<Rightarrow> nat \<times> nat \<times> nat \<times> nat" where
  "thread_weight weight s Outside = (0, 0, 0, 0)"
| "thread_weight weight s (Leaving a) = (1, 0, 0, 0)"
| "thread_weight weight s (Inside c T l) = (2, weight l s)"
| "thread_weight weight s (Waiting c) = (3, 0, 0, 0)"

text \<open>
  A stronger interface: every step of a body that runs alone makes it lighter. Then threads that are
  not called again come to rest.
\<close>

locale terminating_calls = locked_calls writes enter body finished idle atomic
  for writes :: "'c \<Rightarrow> bool" and enter :: "'c \<Rightarrow> 'l"
    and body :: "'c \<Rightarrow> Timestamp \<Rightarrow> 'l \<times> 's \<Rightarrow> 'l \<times> 's \<Rightarrow> bool" and finished :: "'l \<Rightarrow> 'a option"
    and idle :: "'s \<Rightarrow> bool" and atomic :: "'c \<Rightarrow> Timestamp list \<Rightarrow> 's \<Rightarrow> 'a \<Rightarrow> 's \<Rightarrow> bool" +
  fixes weight :: "'l \<Rightarrow> 's \<Rightarrow> nat \<times> nat \<times> nat"
  assumes lighter: "idle s0 \<Longrightarrow> solo enter body c s0 T l s \<Longrightarrow> body c now (l, s) (l', s') \<Longrightarrow>
    (weight l' s', weight l s) \<in> triple_order"
begin

lemma advance_lighter:
  assumes "system_reach writes enter body finished s0 y" and "idle s0" and "advance writes enter body finished t y y'"
  shows "(thread_weight weight (shared y') (thread y' t), thread_weight weight (shared y) (thread y t)) \<in> weight_order \<and>
    (\<forall>u. u \<noteq> t \<longrightarrow> thread_weight weight (shared y') (thread y' u) = thread_weight weight (shared y) (thread y u))"
proof -
  from reach_inv [OF assms(1,2)] obtain s1 where inv: "system_inv s0 y s1" ..
  from assms(3) show ?thesis
  proof (cases rule: advance.cases)
    case (steps c T l l' s')
    have solo: "idle s1" "solo enter body c s1 T l (shared y)" using inv steps(2) by (simp_all add: system_inv_def)
    have "(weight l' s', weight l (shared y)) \<in> triple_order" by (rule lighter [OF solo steps(3)])
    moreover have "thread_weight weight s' (thread y u) = thread_weight weight (shared y) (thread y u)" if "u \<noteq> t" for u
    proof (cases "writes c")
      case True
      from that holder_unique [OF reach_holders [OF assms(1)] _ True, of t u] steps(2) have "inside (thread y u) = None"
        by (cases "inside (thread y u)") auto
      then show ?thesis by (cases "thread y u") simp_all
    next
      case False
      have "s' = s1" "shared y = s1" using reader [OF solo(1) False] solo(2) solo.goes [OF solo(2) steps(3)] by auto
      then show ?thesis by simp
    qed
    ultimately show ?thesis using steps(1,2) by (simp add: weight_order_def)
  qed (simp_all add: weight_order_def)
qed

lemma reach_advance:
  "system_reach writes enter body finished s0 y \<Longrightarrow> advance writes enter body finished t y y' \<Longrightarrow>
   system_reach writes enter body finished s0 y'"
  by (blast intro: system_reach.runs system_step.advances)

text \<open>The weights of a set of threads that contains all active ones decrease as a multiset.\<close>

lemma weights_decrease:
  assumes "system_reach writes enter body finished s0 y" and "idle s0" and "advance writes enter body finished t y y'"
    and "finite A" and "{u. thread y u \<noteq> Outside} \<subseteq> A"
  shows "(image_mset (\<lambda>u. thread_weight weight (shared y') (thread y' u)) (mset_set A),
      image_mset (\<lambda>u. thread_weight weight (shared y) (thread y u)) (mset_set A)) \<in> mult weight_order"
    and "{u. thread y' u \<noteq> Outside} \<subseteq> A"
proof -
  have t: "t \<in> A" using assms(3,5) by (cases rule: advance.cases) auto
  note light = advance_lighter [OF assms(1,2,3)]
  have "mset_set A = add_mset t (mset_set (A - {t}))" using t assms(4) by (simp add: mset_set.remove)
  moreover have "image_mset (\<lambda>u. thread_weight weight (shared y') (thread y' u)) (mset_set (A - {t})) =
      image_mset (\<lambda>u. thread_weight weight (shared y) (thread y u)) (mset_set (A - {t}))"
    using light assms(4) by (intro image_mset_cong) auto
  ultimately show "(image_mset (\<lambda>u. thread_weight weight (shared y') (thread y' u)) (mset_set A),
      image_mset (\<lambda>u. thread_weight weight (shared y) (thread y u)) (mset_set A)) \<in> mult weight_order"
    using light one_step_implies_mult [of "{#thread_weight weight (shared y) (thread y t)#}"
        "{#thread_weight weight (shared y') (thread y' t)#}" weight_order
        "image_mset (\<lambda>u. thread_weight weight (shared y) (thread y u)) (mset_set (A - {t}))"]
    by simp
  show "{u. thread y' u \<noteq> Outside} \<subseteq> A"
    using assms(3,5) t by (cases rule: advance.cases) (auto split: if_splits)
qed

theorem comes_to_rest:
  assumes "system_reach writes enter body finished s0 (f 0)" and "idle s0" and "finite {t. thread (f 0) t \<noteq> Outside}"
    and "\<And>i. \<exists>t. advance writes enter body finished t (f i) (f (Suc i))"
  shows False
proof -
  let ?A = "{t. thread (f 0) t \<noteq> Outside}"
  let ?M = "\<lambda>y. image_mset (\<lambda>u. thread_weight weight (shared y) (thread y u)) (mset_set ?A)"
  have run: "system_reach writes enter body finished s0 (f i) \<and> {u. thread (f i) u \<noteq> Outside} \<subseteq> ?A" for i
  proof (induction i)
    case 0
    with assms(1) show ?case by simp
  next
    case (Suc i)
    from assms(4) obtain t where "advance writes enter body finished t (f i) (f (Suc i))" by blast
    with Suc weights_decrease(2) [OF _ assms(2) _ assms(3)] show ?case by (blast intro: reach_advance)
  qed
  have down: "(?M (f (Suc i)), ?M (f i)) \<in> mult weight_order" for i
    using run [of i] assms(4) [of i] weights_decrease(1) [OF _ assms(2) _ assms(3)] by blast
  have "wf (mult weight_order)" by (rule wf_mult [OF wf_weight_order])
  then have "\<not> (\<forall>i. (g (Suc i), g i) \<in> mult weight_order)" for g
    unfolding wf_iff_no_infinite_down_chain by blast
  from this [of "\<lambda>i. ?M (f i)"] down show False by simp
qed

end

end
