(* ===== verification/Db_Steps.thy ===== *)
theory Db_Steps
  imports Shared_Mutex Recovery
begin

text \<open>
  The operations of \<^verbatim>\<open>include/RadishDB.h\<close> statement by statement, as bodies under the shared
  mutex: a thread may be interrupted between any two statements, between the evaluation of the
  conditions of a read, between the iterations of a loop, and between any two bytes that reach a file.
  \<^verbatim>\<open>include/persistence/PersistenceLog.h\<close> takes its own mutex inside. The relation \<open>db_call\<close> is the same
  operations in one step each, with readings of the clock and a device of their own.
\<close>

section \<open>Calls and their local states\<close>

datatype Call =
    CallCreate string "char list"
  | CallRename string string
  | CallDelete string
  | CallClear
  | CallCompact
  | CallGet string
  | CallScan
  | CallSize
  | CallExists string
  | CallIsExpired string

text \<open>Which operations take the lock with \<^verbatim>\<open>std::lock_guard\<close>, the others with \<^verbatim>\<open>std::shared_lock\<close>.\<close>

fun call_writes :: "Call \<Rightarrow> bool" where
  "call_writes (CallCreate k v) = True"
| "call_writes (CallRename a b) = True"
| "call_writes (CallDelete k) = True"
| "call_writes CallClear = True"
| "call_writes CallCompact = True"
| "call_writes (CallGet k) = False"
| "call_writes CallScan = False"
| "call_writes CallSize = False"
| "call_writes (CallExists k) = False"
| "call_writes (CallIsExpired k) = False"

datatype Answer =
    AnsUnit
  | AnsBool bool
  | AnsValue "char list option"
  | AnsKeys "string list"
  | AnsSize nat
  | AnsThrown error

text \<open>
  The object and what it shares with nobody else: its members, the files, and whether a call holds the
  mutex of the log.
\<close>

record Db_Object =
  object :: RadishDB
  files :: FileSystem
  log_mutex :: bool

type_synonym data_order = "(string \<times> char list) list \<Rightarrow> (string \<times> char list) list"
type_synonym event_order = "(string \<times> RadishEvent) list \<Rightarrow> (string \<times> RadishEvent) list"

text \<open>Where a call is, with its local variables; \<open>Leave\<close> is the end of the scope of the lock.\<close>

datatype Pc =
    Enter
  | Built RadishEvent
  | Staged RadishEvent "char list RadishStore"
  | Applying RadishEvent "char list RadishStore"
  | Applied RadishEvent bool "char list RadishStore"
  | Opening RadishEvent "char list RadishStore"
  | Writing "unit result" ostream nat "char list RadishStore"
  | Swapping "char list RadishStore"
  | Reading
  | Compacting Device "RadishEvent list" EventsMap
  | Replacing Device EventsMap
  | Rewriting Device "(string \<times> RadishEvent) list" ostream nat
  | Flushing Device "unit result" ostream nat
  | Found string
  | Live string
  | Checking string
  | Scanning data_order nat "string list"
  | Sizing data_order nat nat
  | Leave Answer

fun pc_answer :: "Pc \<Rightarrow> Answer option" where
  "pc_answer (Leave a) = Some a"
| "pc_answer _ = None"

text \<open>What is decided outside of the program at a step.\<close>

record Choice =
  ch_dev :: Device
  ch_data :: data_order
  ch_events :: event_order
  ch_bytes :: nat

text \<open>The result of a mutation: \<^verbatim>\<open>Create\<close> returns nothing, the others whether they applied.\<close>

fun committed :: "Call \<Rightarrow> bool \<Rightarrow> Answer" where
  "committed (CallCreate k v) b = AnsUnit"
| "committed _ b = AnsBool b"

text \<open>How many more bytes of a buffer reach the disk in one step, when at least one is left.\<close>

definition more_bytes :: "Choice \<Rightarrow> ostream \<Rightarrow> nat \<Rightarrow> nat option" where
  "more_bytes ch s k = (if 0 < ch_bytes ch \<and> k + ch_bytes ch \<le> length (obuf s) then Some (k + ch_bytes ch) else None)"

definition store_of :: "Db_Object \<Rightarrow> char list RadishStore" where
  "store_of y = m_store (object y)"

abbreviation log_file :: "PersistenceLog \<Rightarrow> string" where
  "log_file log \<equiv> m_filename (m_writer log)"

section \<open>The statements of the operations\<close>

fun enter_step :: "Choice \<Rightarrow> Call \<Rightarrow> Timestamp \<Rightarrow> Db_Object \<Rightarrow> (Pc \<times> Db_Object) option" where
  "enter_step ch (CallCreate k v) now y =
     Some (case RadishStore_NewExpiryTimestamp now (store_of y) of
             Inl e \<Rightarrow> Leave (AnsThrown e)
           | Inr t \<Rightarrow> Built (RadishEvent_new CREATE t (Some k) None (Some v)), y)"
| "enter_step ch (CallRename a b) now y = Some (Built (RadishEvent_new RENAME (-1) (Some a) (Some b) None), y)"
| "enter_step ch (CallDelete k) now y = Some (Built (RadishEvent_new DELETE (-1) (Some k) None None), y)"
| "enter_step ch CallClear now y = Some (Built (RadishEvent_new CLEAR (-1) None None None), y)"
| "enter_step ch CallCompact now y =
     (case m_persistence (object y) of
        None \<Rightarrow> Some (Leave AnsUnit, y)
      | Some log \<Rightarrow> if log_mutex y then None else Some (Reading, y\<lparr>log_mutex := True\<rparr>))"
| "enter_step ch (CallGet k) now y =
     Some (if umap_contains (m_data (store_of y)) k then Found k else Leave (AnsValue None), y)"
| "enter_step ch CallScan now y = Some (Scanning (ch_data ch) 0 [], y)"
| "enter_step ch CallSize now y = Some (Sizing (ch_data ch) 0 0, y)"
| "enter_step ch (CallExists k) now y =
     Some (if RadishStore_IsExpired now (store_of y) k then Leave (AnsBool False) else Checking k, y)"
| "enter_step ch (CallIsExpired k) now y = Some (Leave (AnsBool (RadishStore_IsExpired now (store_of y) k)), y)"

text \<open>\<^verbatim>\<open>Commit\<close> up to the branch on \<^verbatim>\<open>applied\<close>; \<^verbatim>\<open>Apply\<close> holds the mutex of the log.\<close>

definition apply_step :: "Timestamp \<Rightarrow> RadishEvent \<Rightarrow> char list RadishStore \<Rightarrow> Db_Object \<Rightarrow> (Pc \<times> Db_Object) option" where
  "apply_step now e s y =
     (case m_persistence (object y) of
        Some log \<Rightarrow> if log_mutex y then None else Some (Applying e s, y\<lparr>log_mutex := True\<rparr>)
      | None \<Rightarrow>
          Some (case RadishDB_ApplyEvent now s e of Inl err \<Rightarrow> Leave (AnsThrown err) | Inr (b, s') \<Rightarrow> Applied e b s', y))"

definition applying_step :: "Timestamp \<Rightarrow> RadishEvent \<Rightarrow> char list RadishStore \<Rightarrow> Db_Object \<Rightarrow> (Pc \<times> Db_Object) option" where
  "applying_step now e s y =
     (case m_persistence (object y) of
        None \<Rightarrow> None
      | Some log \<Rightarrow>
          Some (case PersistenceLog_Apply now log s e of Inl err \<Rightarrow> Leave (AnsThrown err) | Inr (b, s') \<Rightarrow> Applied e b s',
                y\<lparr>log_mutex := False\<rparr>))"

definition applied_step :: "Call \<Rightarrow> RadishEvent \<Rightarrow> bool \<Rightarrow> char list RadishStore \<Rightarrow> Db_Object \<Rightarrow> (Pc \<times> Db_Object) option" where
  "applied_step c e b s y =
     (if \<not> b then Some (Leave (committed c False), y)
      else case m_persistence (object y) of
             Some log \<Rightarrow> if log_mutex y then None else Some (Opening e s, y\<lparr>log_mutex := True\<rparr>)
           | None \<Rightarrow> Some (Swapping s, y))"

text \<open>\<^verbatim>\<open>LogWriter::Append\<close>: opening creates the file, writing fills a buffer, flushing moves it to the disk.\<close>

definition opening_step :: "TType \<Rightarrow> Device \<Rightarrow> RadishEvent \<Rightarrow> char list RadishStore \<Rightarrow> Db_Object \<Rightarrow> (Pc \<times> Db_Object) option" where
  "opening_step ty dev e s y =
     (case m_persistence (object y) of
        None \<Rightarrow> None
      | Some log \<Rightarrow>
          if \<not> dev_open_write dev
          then Some (Leave (AnsThrown (RuntimeError (''Failed to open file for writing: '' @ log_file log))), y\<lparr>log_mutex := False\<rparr>)
          else
            let (r, os) = LogWriter_WriteRecord ty e (ofstream (dev_room dev))
            in Some (Writing r os 0 s, y\<lparr>files := (files y)(log_file log \<mapsto> file_content (files y) (log_file log))\<rparr>))"

definition writing_step :: "Choice \<Rightarrow> unit result \<Rightarrow> ostream \<Rightarrow> nat \<Rightarrow> char list RadishStore \<Rightarrow> Db_Object \<Rightarrow> (Pc \<times> Db_Object) option" where
  "writing_step ch r os k s y =
     (case m_persistence (object y) of
        None \<Rightarrow> None
      | Some log \<Rightarrow>
          if k < length (obuf os)
          then (case more_bytes ch os k of
                  None \<Rightarrow> None
                | Some k' \<Rightarrow>
                    Some (Writing r os k' s,
                          y\<lparr>files := (files y)(log_file log \<mapsto>
                              file_content (files y) (log_file log) @ take (k' - k) (drop k (obuf os)))\<rparr>))
          else
            Some (case r of
                    Inl e \<Rightarrow> Leave (AnsThrown e)
                  | Inr _ \<Rightarrow>
                      if obad os then Leave (AnsThrown (IosFailure (''Failed to flush persistence log: '' @ log_file log)))
                      else Swapping s,
                  y\<lparr>log_mutex := False\<rparr>))"

definition swapping_step :: "Call \<Rightarrow> char list RadishStore \<Rightarrow> Db_Object \<Rightarrow> Pc \<times> Db_Object" where
  "swapping_step c s y =
     (Leave (committed c True), y\<lparr>object := (object y)\<lparr>m_store := fst (RadishStore_Swap (store_of y) s)\<rparr>\<rparr>)"

text \<open>\<^verbatim>\<open>LogWriter::Compact\<close> and \<^verbatim>\<open>RewriteHistory\<close>, with the mutex of the log held throughout.\<close>

definition reading_step :: "TType \<Rightarrow> Device \<Rightarrow> Db_Object \<Rightarrow> (Pc \<times> Db_Object) option" where
  "reading_step ty dev y =
     (case m_persistence (object y) of
        None \<Rightarrow> None
      | Some log \<Rightarrow>
          Some (case LogReader_GetEvents ty (log_file log) dev (files y) of
                  Inl e \<Rightarrow> (Leave (AnsThrown e), y\<lparr>log_mutex := False\<rparr>)
                | Inr es \<Rightarrow> (Compacting dev es [], y)))"

definition compacting_step :: "Timestamp \<Rightarrow> Device \<Rightarrow> RadishEvent list \<Rightarrow> EventsMap \<Rightarrow> Db_Object \<Rightarrow> (Pc \<times> Db_Object) option" where
  "compacting_step now dev es events y =
     (case m_persistence (object y) of
        None \<Rightarrow> None
      | Some log \<Rightarrow>
          Some (case es of
                  [] \<Rightarrow> (Replacing dev events, y)
                | e # es' \<Rightarrow>
                    if GetEventType e = CREATE \<and> GetTimestamp e \<noteq> -1 \<and> sint (GetTimestamp e) < sint now
                    then (Compacting dev es' events, y)
                    else
                      (case umap_find (m_compactStrategies (m_writer log)) (GetEventType e) of
                         None \<Rightarrow> (Compacting dev es' events, y)
                       | Some strategy \<Rightarrow>
                           (case strategy events e of
                              Inl err \<Rightarrow> (Leave (AnsThrown err), y\<lparr>log_mutex := False\<rparr>)
                            | Inr events1 \<Rightarrow> (Compacting dev es' events1, y)))))"

definition replacing_step :: "Device \<Rightarrow> event_order \<Rightarrow> EventsMap \<Rightarrow> Db_Object \<Rightarrow> (Pc \<times> Db_Object) option" where
  "replacing_step dev ord events y =
     (case m_persistence (object y) of
        None \<Rightarrow> None
      | Some log \<Rightarrow>
          let tmp = log_file log @ ''.tmp''
          in Some (if \<not> dev_open_write dev
                   then (Leave (AnsThrown (RuntimeError (''Failed to open temporary persistence log: '' @ tmp))), y\<lparr>log_mutex := False\<rparr>)
                   else
                     let (r, s) = LogWriter_WriteHeader (ofstream (dev_room dev));
                         y1 = y\<lparr>files := (files y)(tmp \<mapsto> [])\<rparr>
                     in (case r of Inl e \<Rightarrow> (Flushing dev (Inl e) s 0, y1) | Inr _ \<Rightarrow> (Rewriting dev (ord events) s 0, y1))))"

text \<open>Bytes of the buffer may reach the temporary file at any time.\<close>

definition temporary_step :: "ostream \<Rightarrow> nat \<Rightarrow> Db_Object \<Rightarrow> Db_Object" where
  "temporary_step s k y =
     (case m_persistence (object y) of
        None \<Rightarrow> y
      | Some log \<Rightarrow> y\<lparr>files := (files y)(log_file log @ ''.tmp'' \<mapsto> take k (obuf s))\<rparr>)"

definition rewriting_step ::
    "TType \<Rightarrow> Choice \<Rightarrow> Timestamp \<Rightarrow> Device \<Rightarrow> (string \<times> RadishEvent) list \<Rightarrow> ostream \<Rightarrow> nat \<Rightarrow> Db_Object \<Rightarrow> Pc \<times> Db_Object" where
  "rewriting_step ty ch now dev entries s k y =
     (case more_bytes ch s k of
        Some k' \<Rightarrow> (Rewriting dev entries s k', temporary_step s k' y)
      | None \<Rightarrow>
          (case entries of
             [] \<Rightarrow> (Flushing dev (Inr ()) s k, y)
           | (_, event) # entries' \<Rightarrow>
               if GetTimestamp event \<noteq> -1 \<and> sint (GetTimestamp event) < sint now
               then (Rewriting dev entries' s k, y)
               else (case LogWriter_WriteRecord ty event s of
                       (Inl e, s1) \<Rightarrow> (Flushing dev (Inl e) s1 k, y)
                     | (Inr _, s1) \<Rightarrow> (Rewriting dev entries' s1 k, y))))"

definition flushing_step :: "Choice \<Rightarrow> Device \<Rightarrow> unit result \<Rightarrow> ostream \<Rightarrow> nat \<Rightarrow> Db_Object \<Rightarrow> (Pc \<times> Db_Object) option" where
  "flushing_step ch dev r s k y =
     (case m_persistence (object y) of
        None \<Rightarrow> None
      | Some log \<Rightarrow>
          let tmp = log_file log @ ''.tmp''
          in if k < length (obuf s)
             then (case more_bytes ch s k of None \<Rightarrow> None | Some k' \<Rightarrow> Some (Flushing dev r s k', temporary_step s k' y))
             else
               Some (case r of
                       Inl e \<Rightarrow> (Leave (AnsThrown e), y\<lparr>log_mutex := False\<rparr>)
                     | Inr _ \<Rightarrow>
                         if obad s
                         then (Leave (AnsThrown (IosFailure ''Failed to flush compacted persistence log'')), y\<lparr>log_mutex := False\<rparr>)
                         else if \<not> dev_close dev
                         then (Leave (AnsThrown (IosFailure ''Failed to close compacted persistence log'')), y\<lparr>log_mutex := False\<rparr>)
                         else if \<not> dev_rename dev
                         then (Leave (AnsThrown (FilesystemError ''rename'')), y\<lparr>log_mutex := False\<rparr>)
                         else (Leave AnsUnit,
                               y\<lparr>files := (files y)(log_file log := files y tmp, tmp := None), log_mutex := False\<rparr>)))"

text \<open>The loops of \<^verbatim>\<open>Scan\<close> and \<^verbatim>\<open>Size\<close>, one entry of the table a step.\<close>

definition scanning_step :: "Timestamp \<Rightarrow> data_order \<Rightarrow> nat \<Rightarrow> string list \<Rightarrow> Db_Object \<Rightarrow> Pc" where
  "scanning_step now ord i keys y =
     (let entries = ord (m_data (store_of y))
      in if i < length entries
         then Scanning ord (Suc i)
                (if RadishStore_IsExpired now (store_of y) (fst (entries ! i)) then keys else keys @ [fst (entries ! i)])
         else Leave (AnsKeys keys))"

definition sizing_step :: "Timestamp \<Rightarrow> data_order \<Rightarrow> nat \<Rightarrow> nat \<Rightarrow> Db_Object \<Rightarrow> Pc" where
  "sizing_step now ord i n y =
     (let entries = ord (m_data (store_of y))
      in if i < length entries
         then Sizing ord (Suc i) (if \<not> RadishStore_IsExpired now (store_of y) (fst (entries ! i)) then n + 1 else n)
         else Leave (AnsSize n))"

fun db_step :: "TType \<Rightarrow> Choice \<Rightarrow> Call \<Rightarrow> Timestamp \<Rightarrow> Pc \<times> Db_Object \<Rightarrow> (Pc \<times> Db_Object) option" where
  "db_step ty ch c now (Enter, y) = enter_step ch c now y"
| "db_step ty ch c now (Built e, y) = Some (Staged e (store_of y), y)"
| "db_step ty ch c now (Staged e s, y) = apply_step now e s y"
| "db_step ty ch c now (Applying e s, y) = applying_step now e s y"
| "db_step ty ch c now (Applied e b s, y) = applied_step c e b s y"
| "db_step ty ch c now (Opening e s, y) = opening_step ty (ch_dev ch) e s y"
| "db_step ty ch c now (Writing r os k s, y) = writing_step ch r os k s y"
| "db_step ty ch c now (Swapping s, y) = Some (swapping_step c s y)"
| "db_step ty ch c now (Reading, y) = reading_step ty (ch_dev ch) y"
| "db_step ty ch c now (Compacting dev es events, y) = compacting_step now dev es events y"
| "db_step ty ch c now (Replacing dev events, y) = replacing_step dev (ch_events ch) events y"
| "db_step ty ch c now (Rewriting dev entries s k, y) = Some (rewriting_step ty ch now dev entries s k y)"
| "db_step ty ch c now (Flushing dev r s k, y) = flushing_step ch dev r s k y"
| "db_step ty ch c now (Found k, y) =
     Some (if RadishStore_IsExpired now (store_of y) k then Leave (AnsValue None) else Live k, y)"
| "db_step ty ch c now (Live k, y) =
     Some (Leave (case umap_find (m_data (store_of y)) k of
                    None \<Rightarrow> AnsThrown (OutOfRange ''unordered_map::at'')
                  | Some v \<Rightarrow> AnsValue (Some v)), y)"
| "db_step ty ch c now (Checking k, y) = Some (Leave (AnsBool (umap_contains (m_data (store_of y)) k)), y)"
| "db_step ty ch c now (Scanning ord i keys, y) = Some (scanning_step now ord i keys y, y)"
| "db_step ty ch c now (Sizing ord i n, y) = Some (sizing_step now ord i n y, y)"
| "db_step ty ch c now (Leave a, y) = None"

definition db_body :: "TType \<Rightarrow> Call \<Rightarrow> Timestamp \<Rightarrow> Pc \<times> Db_Object \<Rightarrow> Pc \<times> Db_Object \<Rightarrow> bool" where
  "db_body ty c now x x' \<longleftrightarrow>
     (\<exists>ch. iteration_order (ch_data ch) \<and> iteration_order (ch_events ch) \<and> db_step ty ch c now x = Some x')"

section \<open>The operations in one step\<close>

text \<open>
  What a call does as a whole: the operation of \<^verbatim>\<open>Radish_DB\<close>, with readings of the clock taken
  while the call was inside, any behaviour of the device and any order of iteration.
\<close>

fun answer_of :: "('a \<Rightarrow> Answer) \<Rightarrow> 'a result \<Rightarrow> Answer" where
  "answer_of f (Inl e) = AnsThrown e"
| "answer_of f (Inr x) = f x"

inductive db_call :: "TType \<Rightarrow> Call \<Rightarrow> Timestamp list \<Rightarrow> RadishDB \<times> FileSystem \<Rightarrow> Answer \<Rightarrow> RadishDB \<times> FileSystem \<Rightarrow> bool"
  for ty :: TType and c :: Call and T :: "Timestamp list" and st :: "RadishDB \<times> FileSystem" where
  create: "c = CallCreate k v \<Longrightarrow> now \<in> set T \<Longrightarrow> RadishDB_Create ty now dev k v st = (r, st') \<Longrightarrow>
     db_call ty c T st (answer_of (\<lambda>_. AnsUnit) r) st'"
| rename: "c = CallRename a b \<Longrightarrow> now \<in> set T \<Longrightarrow> RadishDB_Rename ty now dev a b st = (r, st') \<Longrightarrow>
     db_call ty c T st (answer_of AnsBool r) st'"
| delete: "c = CallDelete k \<Longrightarrow> now \<in> set T \<Longrightarrow> RadishDB_Delete ty now dev k st = (r, st') \<Longrightarrow>
     db_call ty c T st (answer_of AnsBool r) st'"
| clear: "c = CallClear \<Longrightarrow> now \<in> set T \<Longrightarrow> RadishDB_Clear ty now dev st = (r, st') \<Longrightarrow>
     db_call ty c T st (answer_of AnsBool r) st'"
| compact: "c = CallCompact \<Longrightarrow> \<forall>i. clock1 i \<in> set T \<Longrightarrow> \<forall>i. clock2 i \<in> set T \<Longrightarrow> iteration_order ord \<Longrightarrow>
     RadishDB_Compact ty dev ord clock1 clock2 st = (r, st') \<Longrightarrow> db_call ty c T st (answer_of (\<lambda>_. AnsUnit) r) st'"
| get: "c = CallGet k \<Longrightarrow> now \<in> set T \<Longrightarrow> db_call ty c T st (AnsValue (RadishDB_Get now (fst st) k)) st"
| scan: "c = CallScan \<Longrightarrow> \<forall>i. clock i \<in> set T \<Longrightarrow> iteration_order ord \<Longrightarrow>
     db_call ty c T st (AnsKeys (RadishDB_Scan ord clock (fst st))) st"
| size: "c = CallSize \<Longrightarrow> \<forall>i. clock i \<in> set T \<Longrightarrow> iteration_order ord \<Longrightarrow>
     db_call ty c T st (AnsSize (RadishDB_Size ord clock (fst st))) st"
| exists: "c = CallExists k \<Longrightarrow> now \<in> set T \<Longrightarrow> db_call ty c T st (AnsBool (RadishDB_Exists now (fst st) k)) st"
| is_expired: "c = CallIsExpired k \<Longrightarrow> now \<in> set T \<Longrightarrow>
     db_call ty c T st (AnsBool (RadishDB_IsExpired now (fst st) k)) st"

definition db_atomic :: "TType \<Rightarrow> Call \<Rightarrow> Timestamp list \<Rightarrow> Db_Object \<Rightarrow> Answer \<Rightarrow> Db_Object \<Rightarrow> bool" where
  "db_atomic ty c T y a y' \<longleftrightarrow> db_call ty c T (object y, files y) a (object y', files y')"

end
