(* ===== verification/Db_Solo.thy ===== *)
theory Db_Solo
  imports Db_Steps
begin

text \<open>
  One call that runs alone: at every statement it is where the operation of \<^verbatim>\<open>Radish_DB\<close> would be after
  part of its work (\<open>pc_at\<close>), it is never stuck, and it comes to an end. So the bodies of
  \<^verbatim>\<open>Db_Steps\<close> honour the interface \<open>terminating_calls\<close> of \<^verbatim>\<open>Shared_Mutex\<close>.
\<close>

section \<open>Commits, piece by piece\<close>

definition built :: "Call \<Rightarrow> Timestamp list \<Rightarrow> RadishDB \<Rightarrow> RadishEvent \<Rightarrow> bool" where
  "built c T db e \<longleftrightarrow>
     (case c of
        CallCreate k v \<Rightarrow> \<exists>now\<in>set T. \<exists>t. RadishStore_NewExpiryTimestamp now (m_store db) = Inr t \<and> e = create_event t k v
      | CallRename a b \<Rightarrow> e = rename_event a b
      | CallDelete k \<Rightarrow> e = delete_event k
      | CallClear \<Rightarrow> e = clear_event
      | _ \<Rightarrow> False)"

definition applies :: "Timestamp list \<Rightarrow> RadishDB \<Rightarrow> RadishEvent \<Rightarrow> bool \<Rightarrow> char list RadishStore \<Rightarrow> bool" where
  "applies T db e b s \<longleftrightarrow> (\<exists>now\<in>set T. LogWriter_ApplyEvent now (m_store db) e = Inr (b, s))"

lemma Commit_create_clock:
  "RadishDB_Commit ty now dev (create_event t k v) st = RadishDB_Commit ty now' dev (create_event t k v) st"
proof -
  have "LogWriter_ApplyEvent now s (create_event t k v) = LogWriter_ApplyEvent now' s (create_event t k v)" for s
    by (rule ApplyEvent_no_rename) simp
  then show ?thesis
    by (simp add: RadishDB_Commit_def PersistenceLog_Apply_def ApplyEvent_same cong: option.case_cong)
qed

lemma db_call_commit:
  assumes "built c T db e" and "now \<in> set T" and "RadishDB_Commit ty now dev e (db, fs) = (r, st')"
  shows "db_call ty c T (db, fs) (answer_of (committed c) r) st'"
proof (cases c)
  case (CallCreate k v)
  with assms(1) obtain now1 t where now1: "now1 \<in> set T" and t: "RadishStore_NewExpiryTimestamp now1 (m_store db) = Inr t"
    and e: "e = create_event t k v" by (auto simp: built_def)
  have "RadishDB_Create ty now1 dev k v (db, fs) = (case r of Inl x \<Rightarrow> Inl x | Inr _ \<Rightarrow> Inr (), st')"
    using assms(3) t Commit_create_clock [of ty now1 dev t k v "(db, fs)" now]
    by (cases r) (simp_all add: RadishDB_Create_def e)
  from db_call.create [OF CallCreate now1 this] CallCreate show ?thesis by (cases r) simp_all
next
  case (CallRename a b)
  with assms show ?thesis
    using db_call.rename [OF CallRename assms(2), of ty dev "(db, fs)" r st']
    by (cases r) (simp_all add: built_def RadishDB_Rename_def)
next
  case (CallDelete k)
  with assms show ?thesis
    using db_call.delete [OF CallDelete assms(2), of ty dev "(db, fs)" r st']
    by (cases r) (simp_all add: built_def RadishDB_Delete_def)
next
  case CallClear
  with assms show ?thesis
    using db_call.clear [OF CallClear assms(2), of ty dev "(db, fs)" r st']
    by (cases r) (simp_all add: built_def RadishDB_Clear_def)
qed (use assms(1) in \<open>simp_all add: built_def\<close>)

text \<open>The outcomes of a commit from the outcomes of its parts.\<close>

lemma Commit_apply_thrown:
  assumes "LogWriter_ApplyEvent now (m_store db) e = Inl err"
  shows "RadishDB_Commit ty now dev e (db, fs) = (Inl err, (db, fs))"
  using assms by (simp add: RadishDB_Commit_def PersistenceLog_Apply_def ApplyEvent_same split: option.split)

lemma Commit_refused:
  assumes "LogWriter_ApplyEvent now (m_store db) e = Inr (False, s)"
  shows "RadishDB_Commit ty now dev e (db, fs) = (Inr False, (db, fs))"
  using assms by (simp add: RadishDB_Commit_def PersistenceLog_Apply_def ApplyEvent_same split: option.split)

lemma Commit_append_thrown:
  assumes "LogWriter_ApplyEvent now (m_store db) e = Inr (True, s)" and "m_persistence db = Some log"
    and "PersistenceLog_Append ty log dev e fs = (Inl err, fs1)"
  shows "RadishDB_Commit ty now dev e (db, fs) = (Inl err, (db, fs1))"
  using assms by (simp add: RadishDB_Commit_def PersistenceLog_Apply_def)

lemma Commit_success:
  assumes "LogWriter_ApplyEvent now (m_store db) e = Inr (True, s)"
    and "case m_persistence db of None \<Rightarrow> fs1 = fs | Some log \<Rightarrow> PersistenceLog_Append ty log dev e fs = (Inr (), fs1)"
  shows "RadishDB_Commit ty now dev e (db, fs) = (Inr True, (db\<lparr>m_store := fst (RadishStore_Swap (m_store db) s)\<rparr>, fs1))"
  using assms by (simp add: RadishDB_Commit_def PersistenceLog_Apply_def ApplyEvent_same split: option.splits)

lemma Append_pieces:
  assumes "dev_open_write dev" and "LogWriter_WriteRecord ty e (ofstream (dev_room dev)) = (r, os)"
  shows "PersistenceLog_Append ty log dev e fs =
    (case r of
       Inl err \<Rightarrow> Inl err
     | Inr _ \<Rightarrow> if obad os then Inl (IosFailure (''Failed to flush persistence log: '' @ log_file log)) else Inr (),
     fs(log_file log \<mapsto> file_content fs (log_file log) @ obuf os))"
  using assms by (simp add: PersistenceLog_Append_def LogWriter_Append_def file_content_def split: sum.split)

section \<open>Loops that read the clock\<close>

text \<open>
  A loop has begun as \<open>whole\<close> and is to go on as \<open>rest\<close> from the next reading of the clock on, for every
  clock that agrees with the readings so far.
\<close>

definition loop_at :: "Timestamp list \<Rightarrow> ((nat \<Rightarrow> Timestamp) \<Rightarrow> 'b) \<Rightarrow> ((nat \<Rightarrow> Timestamp) \<Rightarrow> nat \<Rightarrow> 'b) \<Rightarrow> bool" where
  "loop_at T whole rest \<longleftrightarrow>
     (\<exists>R. set R \<subseteq> set T \<and> (\<forall>clock. (\<forall>i < length R. clock i = R ! i) \<longrightarrow> whole clock = rest clock (length R)))"

lemma loop_at_start: "(\<And>clock. whole clock = rest clock 0) \<Longrightarrow> loop_at T whole rest"
  unfolding loop_at_def by (rule exI [of _ "[]"]) simp

lemma loop_at_next:
  assumes "loop_at T whole rest" and "\<And>clock n. clock n = now \<Longrightarrow> rest clock n = rest' clock (Suc n)"
  shows "loop_at (T @ [now]) whole rest'"
proof -
  from assms(1) obtain R where R: "set R \<subseteq> set T"
    "\<And>clock. \<forall>i < length R. clock i = R ! i \<Longrightarrow> whole clock = rest clock (length R)"
    unfolding loop_at_def by blast
  have "whole clock = rest' clock (length (R @ [now]))" if "\<forall>i < length (R @ [now]). clock i = (R @ [now]) ! i" for clock
  proof -
    have "clock i = R ! i" if "i < length R" for i
      using spec [OF \<open>\<forall>i < length (R @ [now]). clock i = (R @ [now]) ! i\<close>, of i] that by (simp add: nth_append)
    moreover have "clock (length R) = now"
      using spec [OF that, of "length R"] by simp
    ultimately show ?thesis using R(2) [of clock] assms(2) [of clock "length R"] by simp
  qed
  with R(1) show ?thesis unfolding loop_at_def by (intro exI [of _ "R @ [now]"]) auto
qed

lemma loop_at_skip:
  assumes "loop_at T whole rest"
  shows "loop_at (T @ [now]) whole rest"
proof -
  from assms obtain R where "set R \<subseteq> set T"
    "\<forall>clock. (\<forall>i < length R. clock i = R ! i) \<longrightarrow> whole clock = rest clock (length R)"
    unfolding loop_at_def by blast
  then show ?thesis unfolding loop_at_def by (intro exI [of _ R]) auto
qed

lemma loop_at_end:
  assumes "loop_at T whole rest" and "T \<noteq> []"
  obtains clock n where "\<forall>i. clock i \<in> set T" and "whole clock = rest clock n"
proof -
  from assms(1) obtain R where R: "set R \<subseteq> set T"
    "\<And>clock. \<forall>i < length R. clock i = R ! i \<Longrightarrow> whole clock = rest clock (length R)"
    unfolding loop_at_def by blast
  let ?clock = "\<lambda>i. if i < length R then R ! i else hd T"
  have "\<forall>i. ?clock i \<in> set T" using R(1) assms(2) by (auto dest: nth_mem)
  with R(2) [of ?clock] show thesis by (intro that [of ?clock "length R"]) auto
qed

section \<open>Where a call is when it runs alone\<close>

definition entries_of :: "data_order \<Rightarrow> Db_Object \<Rightarrow> (string \<times> char list) list" where
  "entries_of ord y = ord (m_data (store_of y))"

definition compacting :: "TType \<Rightarrow> Timestamp list \<Rightarrow> Db_Object \<Rightarrow> PersistenceLog \<Rightarrow> Device \<Rightarrow> RadishEvent list \<Rightarrow> EventsMap \<Rightarrow> bool" where
  "compacting ty T y0 log dev es events \<longleftrightarrow>
     (\<exists>all. LogReader_GetEvents ty (log_file log) dev (files y0) = Inr all \<and>
        loop_at T (\<lambda>clock. LogWriter_Compact_loop (m_writer log) clock 0 all [])
          (\<lambda>clock n. LogWriter_Compact_loop (m_writer log) clock n es events))"

definition compacted :: "TType \<Rightarrow> Timestamp list \<Rightarrow> Db_Object \<Rightarrow> PersistenceLog \<Rightarrow> Device \<Rightarrow> EventsMap \<Rightarrow> bool" where
  "compacted ty T y0 log dev events \<longleftrightarrow>
     (\<exists>all clock. LogReader_GetEvents ty (log_file log) dev (files y0) = Inr all \<and> (\<forall>i. clock i \<in> set T) \<and>
        LogWriter_Compact_loop (m_writer log) clock 0 all [] = Inr events)"

definition rewriting :: "TType \<Rightarrow> Timestamp list \<Rightarrow> Db_Object \<Rightarrow> PersistenceLog \<Rightarrow> Device \<Rightarrow>
    ((nat \<Rightarrow> Timestamp) \<Rightarrow> nat \<Rightarrow> unit result \<times> ostream) \<Rightarrow> bool" where
  "rewriting ty T y0 log dev rest \<longleftrightarrow>
     (\<exists>events ord. compacted ty T y0 log dev events \<and> iteration_order ord \<and> dev_open_write dev \<and>
        loop_at T (\<lambda>clock. sbind (LogWriter_WriteHeader (ofstream (dev_room dev)))
            (\<lambda>_ s. LogWriter_Rewrite_loop ty clock 0 (ord events) s)) rest)"

definition flushing :: "TType \<Rightarrow> Timestamp list \<Rightarrow> Db_Object \<Rightarrow> PersistenceLog \<Rightarrow> Device \<Rightarrow> unit result \<Rightarrow> ostream \<Rightarrow> bool" where
  "flushing ty T y0 log dev r s \<longleftrightarrow>
     (\<exists>events ord clock. compacted ty T y0 log dev events \<and> iteration_order ord \<and> dev_open_write dev \<and>
        (\<forall>i. clock i \<in> set T) \<and>
        sbind (LogWriter_WriteHeader (ofstream (dev_room dev)))
            (\<lambda>_ s. LogWriter_Rewrite_loop ty clock 0 (ord events) s) = (r, s))"

text \<open>The files while \<open>k\<close> bytes of the buffer are in the log or in the temporary file.\<close>

definition log_grown :: "Db_Object \<Rightarrow> PersistenceLog \<Rightarrow> ostream \<Rightarrow> nat \<Rightarrow> Db_Object \<Rightarrow> bool" where
  "log_grown y0 log os k y \<longleftrightarrow> k \<le> length (obuf os) \<and>
     y = y0\<lparr>log_mutex := True, files := (files y0)(log_file log \<mapsto> file_content (files y0) (log_file log) @ take k (obuf os))\<rparr>"

definition tmp_grown :: "Db_Object \<Rightarrow> PersistenceLog \<Rightarrow> ostream \<Rightarrow> nat \<Rightarrow> Db_Object \<Rightarrow> bool" where
  "tmp_grown y0 log os k y \<longleftrightarrow> k \<le> length (obuf os) \<and>
     y = y0\<lparr>log_mutex := True, files := (files y0)(log_file log @ ''.tmp'' \<mapsto> take k (obuf os))\<rparr>"

fun pc_at :: "TType \<Rightarrow> Call \<Rightarrow> Timestamp list \<Rightarrow> Db_Object \<Rightarrow> Pc \<Rightarrow> Db_Object \<Rightarrow> bool" where
  "pc_at ty c T y0 Enter y = (y = y0)"
| "pc_at ty c T y0 (Built e) y = (y = y0 \<and> built c T (object y0) e)"
| "pc_at ty c T y0 (Staged e s) y = (y = y0 \<and> built c T (object y0) e \<and> s = store_of y0)"
| "pc_at ty c T y0 (Applying e s) y =
     (y = y0\<lparr>log_mutex := True\<rparr> \<and> built c T (object y0) e \<and> s = store_of y0 \<and> m_persistence (object y0) \<noteq> None)"
| "pc_at ty c T y0 (Applied e b s) y = (y = y0 \<and> built c T (object y0) e \<and> applies T (object y0) e b s)"
| "pc_at ty c T y0 (Opening e s) y =
     (y = y0\<lparr>log_mutex := True\<rparr> \<and> built c T (object y0) e \<and> applies T (object y0) e True s \<and> m_persistence (object y0) \<noteq> None)"
| "pc_at ty c T y0 (Writing r os k s) y =
     (\<exists>log e (dev :: Device). m_persistence (object y0) = Some log \<and> built c T (object y0) e \<and> applies T (object y0) e True s \<and>
        dev_open_write dev \<and> LogWriter_WriteRecord ty e (ofstream (dev_room dev)) = (r, os) \<and> log_grown y0 log os k y)"
| "pc_at ty c T y0 (Swapping s) y =
     (\<exists>e dev fs1. built c T (object y0) e \<and> applies T (object y0) e True s \<and> y = y0\<lparr>files := fs1\<rparr> \<and>
        (case m_persistence (object y0) of
           None \<Rightarrow> fs1 = files y0
         | Some log \<Rightarrow> PersistenceLog_Append ty log dev e (files y0) = (Inr (), fs1)))"
| "pc_at ty c T y0 Reading y = (c = CallCompact \<and> y = y0\<lparr>log_mutex := True\<rparr> \<and> m_persistence (object y0) \<noteq> None)"
| "pc_at ty c T y0 (Compacting dev es events) y =
     (c = CallCompact \<and> y = y0\<lparr>log_mutex := True\<rparr> \<and>
      (\<exists>log. m_persistence (object y0) = Some log \<and> compacting ty T y0 log dev es events))"
| "pc_at ty c T y0 (Replacing dev events) y =
     (c = CallCompact \<and> y = y0\<lparr>log_mutex := True\<rparr> \<and>
      (\<exists>log. m_persistence (object y0) = Some log \<and> compacted ty T y0 log dev events))"
| "pc_at ty c T y0 (Rewriting dev entries s k) y =
     (c = CallCompact \<and>
      (\<exists>log. m_persistence (object y0) = Some log \<and> tmp_grown y0 log s k y \<and>
         rewriting ty T y0 log dev (\<lambda>clock n. LogWriter_Rewrite_loop ty clock n entries s)))"
| "pc_at ty c T y0 (Flushing dev r s k) y =
     (c = CallCompact \<and>
      (\<exists>log. m_persistence (object y0) = Some log \<and> tmp_grown y0 log s k y \<and> flushing ty T y0 log dev r s))"
| "pc_at ty c T y0 (Found k) y = (y = y0 \<and> c = CallGet k \<and> umap_contains (m_data (store_of y0)) k)"
| "pc_at ty c T y0 (Live k) y =
     (y = y0 \<and> c = CallGet k \<and> umap_contains (m_data (store_of y0)) k \<and>
      (\<exists>now\<in>set T. \<not> RadishStore_IsExpired now (store_of y0) k))"
| "pc_at ty c T y0 (Checking k) y =
     (y = y0 \<and> c = CallExists k \<and> (\<exists>now\<in>set T. \<not> RadishStore_IsExpired now (store_of y0) k))"
| "pc_at ty c T y0 (Scanning ord i keys) y =
     (y = y0 \<and> c = CallScan \<and> iteration_order ord \<and>
      loop_at T (\<lambda>clock. RadishStore_Scan_loop clock 0 (store_of y0) (entries_of ord y0))
        (\<lambda>clock n. keys @ RadishStore_Scan_loop clock n (store_of y0) (drop i (entries_of ord y0))))"
| "pc_at ty c T y0 (Sizing ord i m) y =
     (y = y0 \<and> c = CallSize \<and> iteration_order ord \<and>
      loop_at T (\<lambda>clock. RadishStore_Size_loop clock 0 (store_of y0) (entries_of ord y0))
        (\<lambda>clock n. m + RadishStore_Size_loop clock n (store_of y0) (drop i (entries_of ord y0))))"
| "pc_at ty c T y0 (Leave a) y = (\<not> log_mutex y \<and> db_atomic ty c T y0 a y)"

lemma built_mono: "built c T db e \<Longrightarrow> built c (T @ [now]) db e"
  by (auto simp: built_def split: Call.splits)

lemma applies_mono: "applies T db e b s \<Longrightarrow> applies (T @ [now]) db e b s"
  by (auto simp: applies_def)

lemma compacting_mono: "compacting ty T y0 log dev es events \<Longrightarrow> compacting ty (T @ [now]) y0 log dev es events"
  using loop_at_skip unfolding compacting_def by blast

lemma compacted_mono: "compacted ty T y0 log dev events \<Longrightarrow> compacted ty (T @ [now]) y0 log dev events"
  unfolding compacted_def by auto

lemma rewriting_mono: "rewriting ty T y0 log dev rest \<Longrightarrow> rewriting ty (T @ [now]) y0 log dev rest"
  unfolding rewriting_def using loop_at_skip compacted_mono by blast

lemma flushing_mono: "flushing ty T y0 log dev r s \<Longrightarrow> flushing ty (T @ [now]) y0 log dev r s"
  unfolding flushing_def using compacted_mono by (metis Un_iff set_append)

lemmas pc_mono = built_mono applies_mono compacting_mono compacted_mono rewriting_mono flushing_mono

lemma enter_step_at:
  assumes "\<not> log_mutex y" and "enter_step ch c now y = Some (p', y')"
    and "iteration_order (ch_data ch)" and "iteration_order (ch_events ch)"
  shows "pc_at ty c (T @ [now]) y p' y'"
proof (cases c)
  case (CallCreate k v)
  show ?thesis
  proof (cases "RadishStore_NewExpiryTimestamp now (store_of y)")
    case (Inl e)
    then have "RadishDB_Create ty now healthy k v (object y, files y) = (Inl e, (object y, files y))"
      by (simp add: RadishDB_Create_def store_of_def)
    from db_call.create [OF CallCreate _ this, of "T @ [now]"] Inl assms CallCreate show ?thesis
      by (auto simp: db_atomic_def)
  next
    case (Inr t)
    with assms CallCreate show ?thesis by (auto simp: built_def store_of_def)
  qed
next
  case CallCompact
  have "RadishDB_Compact ty healthy (ch_events ch) (\<lambda>_. now) (\<lambda>_. now) (object y, files y) = (Inr (), (object y, files y))"
    if "m_persistence (object y) = None" using that by (simp add: RadishDB_Compact_def)
  from db_call.compact [OF CallCompact _ _ assms(4) this, of "T @ [now]"] CallCompact assms show ?thesis
    by (auto simp: db_atomic_def split: option.splits)
next
  case (CallGet k)
  have "RadishDB_Get now (object y) k = None" if "\<not> umap_contains (m_data (store_of y)) k"
    using that by (simp add: RadishDB_Get_def RadishStore_Get_def store_of_def)
  with db_call.get [OF CallGet, of now "T @ [now]" ty "(object y, files y)"] CallGet assms show ?thesis
    by (auto simp: db_atomic_def split: if_splits)
next
  case (CallExists k)
  have "\<not> RadishDB_Exists now (object y) k" if "RadishStore_IsExpired now (store_of y) k"
    using that by (simp add: RadishDB_Exists_def RadishStore_Exists_def store_of_def)
  with db_call.exists [OF CallExists, of now "T @ [now]" ty "(object y, files y)"] CallExists assms show ?thesis
    by (auto simp: db_atomic_def split: if_splits)
next
  case (CallIsExpired k)
  have "RadishDB_IsExpired now (object y) k = RadishStore_IsExpired now (store_of y) k"
    by (simp add: RadishDB_IsExpired_def store_of_def)
  with db_call.is_expired [OF CallIsExpired, of now "T @ [now]" ty "(object y, files y)"] CallIsExpired assms
  show ?thesis by (auto simp: db_atomic_def)
qed (use assms in \<open>auto simp: built_def intro: loop_at_start\<close>)

lemma commit_at:
  assumes "built c T (object y0) e" and "now \<in> set T"
    and "RadishDB_Commit ty now dev e (object y0, files y0) = (r, (object y, files y))" and "\<not> log_mutex y"
  shows "pc_at ty c T y0 (Leave (answer_of (committed c) r)) y"
  using db_call_commit [OF assms(1,2,3)] assms(4) by (simp add: db_atomic_def)

lemma unlocked [simp]: "\<not> log_mutex y \<Longrightarrow> y\<lparr>log_mutex := False\<rparr> = y"
  by (cases y) simp

lemma apply_step_at:
  assumes "pc_at ty c T y0 (Staged e s) y" and "\<not> log_mutex y0" and "apply_step now e s y = Some (p', y')"
  shows "pc_at ty c (T @ [now]) y0 p' y'"
proof (cases "m_persistence (object y0)")
  case None
  have b: "built c (T @ [now]) (object y0) e" and y: "y = y0" "s = m_store (object y0)"
    using assms(1) by (simp_all add: built_mono store_of_def)
  show ?thesis
  proof (cases "LogWriter_ApplyEvent now s e")
    case (Inl err)
    with y have "RadishDB_Commit ty now healthy e (object y0, files y0) = (Inl err, (object y0, files y0))"
      by (simp add: Commit_apply_thrown)
    from commit_at [OF b _ this] Inl assms(2,3) None y show ?thesis
      by (auto simp: apply_step_def ApplyEvent_same)
  next
    case (Inr bs)
    then show ?thesis
      using assms(3) None y b by (cases bs) (auto simp: apply_step_def ApplyEvent_same applies_def)
  qed
next
  case (Some log)
  with assms show ?thesis by (auto simp: apply_step_def built_mono split: if_splits)
qed

lemma applying_step_at:
  assumes "pc_at ty c T y0 (Applying e s) y" and "\<not> log_mutex y0" and "applying_step now e s y = Some (p', y')"
  shows "pc_at ty c (T @ [now]) y0 p' y'"
proof -
  have b: "built c (T @ [now]) (object y0) e" and y: "y = y0\<lparr>log_mutex := True\<rparr>" "s = m_store (object y0)"
    and per: "m_persistence (object y0) \<noteq> None"
    using assms(1) by (simp_all add: built_mono store_of_def)
  have unl: "y\<lparr>log_mutex := False\<rparr> = y0" using y assms(2) by simp
  show ?thesis
  proof (cases "LogWriter_ApplyEvent now s e")
    case (Inl err)
    with y have "RadishDB_Commit ty now healthy e (object y0, files y0) = (Inl err, (object y0, files y0))"
      by (simp add: Commit_apply_thrown)
    from commit_at [OF b _ this] Inl assms(2,3) per y unl show ?thesis
      by (auto simp: applying_step_def PersistenceLog_Apply_def)
  next
    case (Inr bs)
    then show ?thesis
      using assms(3) per y unl b by (cases bs) (auto simp: applying_step_def PersistenceLog_Apply_def applies_def)
  qed
qed

lemma applied_step_at:
  assumes "pc_at ty c T y0 (Applied e b s) y" and "\<not> log_mutex y0" and "applied_step c e b s y = Some (p', y')"
  shows "pc_at ty c (T @ [now]) y0 p' y'"
proof -
  from assms(1) have bu: "built c (T @ [now]) (object y0) e" and ap: "applies (T @ [now]) (object y0) e b s" and y: "y = y0"
    by (simp_all add: built_mono applies_mono)
  show ?thesis
  proof (cases b)
    case False
    with ap obtain t where t: "t \<in> set (T @ [now])" "LogWriter_ApplyEvent t (m_store (object y0)) e = Inr (False, s)"
      unfolding applies_def by auto
    from commit_at [OF bu t(1) Commit_refused [OF t(2)] assms(2), where ty = ty] False assms(3) y show ?thesis
      by (auto simp: applied_step_def)
  next
    case True
    show ?thesis
    proof (cases "m_persistence (object y0)")
      case None
      with True assms(3) y have "p' = Swapping s" "y' = y0" by (simp_all add: applied_step_def)
      moreover have "pc_at ty c (T @ [now]) y0 (Swapping s) y0"
        unfolding pc_at.simps by (rule exI [of _ e], rule exI [of _ healthy], rule exI [of _ "files y0"]) (use bu ap True None in simp)
      ultimately show ?thesis by simp
    next
      case (Some log)
      with True assms(2,3) y have "p' = Opening e s" "y' = y0\<lparr>log_mutex := True\<rparr>" by (simp_all add: applied_step_def)
      with Some True bu ap show ?thesis by simp
    qed
  qed
qed

lemma opening_step_at:
  assumes "pc_at ty c T y0 (Opening e s) y" and "\<not> log_mutex y0" and "opening_step ty dev e s y = Some (p', y')"
  shows "pc_at ty c (T @ [now]) y0 p' y'"
proof -
  from assms(1) obtain log where b: "built c (T @ [now]) (object y0) e" and a: "applies (T @ [now]) (object y0) e True s"
    and y: "y = y0\<lparr>log_mutex := True\<rparr>" and per: "m_persistence (object y0) = Some log"
    by (auto simp: pc_mono)
  show ?thesis
  proof (cases "dev_open_write dev")
    case True
    obtain r os where w: "LogWriter_WriteRecord ty e (ofstream (dev_room dev)) = (r, os)" by fastforce
    then have "p' = Writing r os 0 s" "log_grown y0 log os 0 y'"
      using True assms(3) y per by (auto simp: opening_step_def log_grown_def)
    with True w per a b show ?thesis by auto
  next
    case False
    let ?err = "RuntimeError (''Failed to open file for writing: '' @ log_file log)"
    from a obtain t where t: "t \<in> set (T @ [now])" "LogWriter_ApplyEvent t (m_store (object y0)) e = Inr (True, s)"
      unfolding applies_def by blast
    have "PersistenceLog_Append ty log dev e (files y0) = (Inl ?err, files y0)"
      using False by (simp add: PersistenceLog_Append_def LogWriter_Append_def)
    from commit_at [OF b t(1) Commit_append_thrown [OF t(2) per this] assms(2)] False assms(2,3) y per show ?thesis
      by (auto simp: opening_step_def)
  qed
qed

lemma writing_step_at:
  assumes "pc_at ty c T y0 (Writing r os k s) y" and "\<not> log_mutex y0" and "writing_step ch r os k s y = Some (p', y')"
  shows "pc_at ty c (T @ [now]) y0 p' y'"
proof -
  from assms(1) obtain log e and dev :: Device where "built c T (object y0) e"
    and "applies T (object y0) e True s" and per: "m_persistence (object y0) = Some log"
    and w: "dev_open_write dev" "LogWriter_WriteRecord ty e (ofstream (dev_room dev)) = (r, os)"
    and g: "log_grown y0 log os k y"
    by auto
  then have b: "built c (T @ [now]) (object y0) e" and a: "applies (T @ [now]) (object y0) e True s"
    by (simp_all add: pc_mono)
  from g have per': "m_persistence (object y) = Some log" using per by (simp add: log_grown_def)
  show ?thesis
  proof (cases "k < length (obuf os)")
    case True
    with assms(3) per' obtain k' where k': "k < k'" "k' \<le> length (obuf os)" and p': "p' = Writing r os k' s"
      and y': "y' = y\<lparr>files := (files y)(log_file log \<mapsto>
        file_content (files y) (log_file log) @ take (k' - k) (drop k (obuf os)))\<rparr>"
      by (auto simp: writing_step_def more_bytes_def split: if_splits)
    have "take k (obuf os) @ take (k' - k) (drop k (obuf os)) = take k' (obuf os)"
      using k'(1) by (metis le_add_diff_inverse less_imp_le take_add)
    with g y' k'(2) have "log_grown y0 log os k' y'"
      by (simp add: log_grown_def file_content_def)
    with b a per w p' show ?thesis by auto
  next
    case False
    let ?fs = "(files y0)(log_file log \<mapsto> file_content (files y0) (log_file log) @ obuf os)"
    from g False have y: "y\<lparr>log_mutex := False\<rparr> = y0\<lparr>files := ?fs\<rparr>"
      using assms(2) by (cases y0) (simp add: log_grown_def)
    from a obtain t where t: "t \<in> set (T @ [now])" "LogWriter_ApplyEvent t (m_store (object y0)) e = Inr (True, s)"
      unfolding applies_def by blast
    note app = Append_pieces [OF w, of log "files y0"]
    have y': "y' = y0\<lparr>files := ?fs\<rparr>" using assms(3) False per' y by (auto simp: writing_step_def)
    have thrown: "pc_at ty c (T @ [now]) y0 (Leave (AnsThrown err)) y'"
      if "PersistenceLog_Append ty log dev e (files y0) = (Inl err, ?fs)" for err
    proof -
      have "RadishDB_Commit ty t dev e (object y0, files y0) = (Inl err, (object y', files y'))"
        using Commit_append_thrown [OF t(2) per that] y' by simp
      from commit_at [OF b t(1) this] y' assms(2) show ?thesis by simp
    qed
    show ?thesis
    proof (cases r)
      case (Inl err)
      with app assms(3) False per' thrown show ?thesis by (auto simp: writing_step_def)
    next
      case (Inr u)
      show ?thesis
      proof (cases "obad os")
        case True
        with Inr app assms(3) False per' thrown show ?thesis by (auto simp: writing_step_def)
      next
        case False': False
        with Inr app have "PersistenceLog_Append ty log dev e (files y0) = (Inr (), ?fs)" by simp
        then have "pc_at ty c (T @ [now]) y0 (Swapping s) y'"
          unfolding pc_at.simps by (intro exI [of _ e] exI [of _ dev] exI [of _ ?fs]) (use b a per y' in simp)
        moreover have "p' = Swapping s" using assms(3) False per' Inr False' by (simp add: writing_step_def)
        ultimately show ?thesis by simp
      qed
    qed
  qed
qed

lemma swapping_step_at:
  assumes "pc_at ty c T y0 (Swapping s) y" and "\<not> log_mutex y0" and "swapping_step c s y = (p', y')"
  shows "pc_at ty c (T @ [now]) y0 p' y'"
proof -
  from assms(1) obtain e dev fs1 where "built c T (object y0) e"
    and "applies T (object y0) e True s" and y: "y = y0\<lparr>files := fs1\<rparr>"
    and app: "case m_persistence (object y0) of None \<Rightarrow> fs1 = files y0
      | Some log \<Rightarrow> PersistenceLog_Append ty log dev e (files y0) = (Inr (), fs1)"
    by auto
  then have b: "built c (T @ [now]) (object y0) e" and a: "applies (T @ [now]) (object y0) e True s"
    by (simp_all add: pc_mono)
  from a obtain t where t: "t \<in> set (T @ [now])" "LogWriter_ApplyEvent t (m_store (object y0)) e = Inr (True, s)"
    unfolding applies_def by blast
  have "RadishDB_Commit ty t dev e (object y0, files y0) = (Inr True, (object y', files y'))"
    using Commit_success [OF t(2) app] assms(3) y by (auto simp: swapping_step_def store_of_def)
  from commit_at [OF b t(1) this] assms(2,3) y show ?thesis by (auto simp: swapping_step_def)
qed

section \<open>Compaction, piece by piece\<close>

lemma compact_call_at:
  assumes "c = CallCompact" and "m_persistence (object y0) = Some log" and "\<forall>i. clock1 i \<in> set T" and "\<forall>i. clock2 i \<in> set T"
    and "iteration_order ord" and "PersistenceLog_Compact ty log dev ord clock1 clock2 (files y0) = (r, fs)"
    and "\<not> log_mutex y0" and "y = y0\<lparr>files := fs\<rparr>"
  shows "pc_at ty c T y0 (Leave (answer_of (\<lambda>_. AnsUnit) r)) y"
proof -
  have "RadishDB_Compact ty dev ord clock1 clock2 (object y0, files y0) = (r, (object y0, fs))"
    using assms(2,6) by (simp add: RadishDB_Compact_def)
  from db_call.compact [OF assms(1,3,4,5) this] assms(7,8) show ?thesis by (simp add: db_atomic_def)
qed

lemma compact_thrown_at:
  assumes "c = CallCompact" and "m_persistence (object y0) = Some log" and "\<forall>i. clock i \<in> set T"
    and "rbind (LogReader_GetEvents ty (log_file log) dev (files y0)) (\<lambda>es. LogWriter_Compact_loop (m_writer log) clock 0 es []) = Inl e"
    and "\<not> log_mutex y0"
  shows "pc_at ty c T y0 (Leave (AnsThrown e)) y0"
proof -
  have "PersistenceLog_Compact ty log dev (\<lambda>xs. xs) clock clock (files y0) = (Inl e, files y0)"
    using assms(4) by (simp add: PersistenceLog_Compact_def LogWriter_Compact_def)
  from compact_call_at [OF assms(1,2,3,3) iteration_order_id this assms(5), of y0] show ?thesis by simp
qed

lemma reading_step_at:
  assumes "pc_at ty c T y0 Reading y" and "\<not> log_mutex y0" and "reading_step ty dev y = Some (p', y')"
  shows "pc_at ty c (T @ [now]) y0 p' y'"
proof -
  from assms(1) obtain log where c: "c = CallCompact" and y: "y = y0\<lparr>log_mutex := True\<rparr>"
    and per: "m_persistence (object y0) = Some log" by auto
  show ?thesis
  proof (cases "LogReader_GetEvents ty (log_file log) dev (files y0)")
    case (Inl e)
    then have "pc_at ty c (T @ [now]) y0 (Leave (AnsThrown e)) y0"
      by (intro compact_thrown_at [OF c per, where clock = "\<lambda>_. now" and dev = dev]) (use assms(2) in simp_all)
    with Inl assms(2,3) y per show ?thesis by (auto simp: reading_step_def)
  next
    case (Inr es)
    then have "compacting ty (T @ [now]) y0 log dev es []"
      unfolding compacting_def by (intro exI [of _ es] conjI loop_at_start) auto
    with Inr assms(3) y per c show ?thesis by (auto simp: reading_step_def)
  qed
qed

lemma compacting_step_at:
  assumes "pc_at ty c T y0 (Compacting dev es events) y" and "\<not> log_mutex y0"
    and "compacting_step now dev es events y = Some (p', y')"
  shows "pc_at ty c (T @ [now]) y0 p' y'"
proof -
  from assms(1) obtain log where c: "c = CallCompact" and y: "y = y0\<lparr>log_mutex := True\<rparr>"
    and per: "m_persistence (object y0) = Some log" and co: "compacting ty T y0 log dev es events" by auto
  from co obtain all where all: "LogReader_GetEvents ty (log_file log) dev (files y0) = Inr all"
    and lp: "loop_at T (\<lambda>clock. LogWriter_Compact_loop (m_writer log) clock 0 all [])
       (\<lambda>clock n. LogWriter_Compact_loop (m_writer log) clock n es events)"
    by (auto simp: compacting_def)
  show ?thesis
  proof (cases es)
    case Nil
    obtain clock n where "\<forall>i. clock i \<in> set (T @ [now])"
      "LogWriter_Compact_loop (m_writer log) clock 0 all [] = LogWriter_Compact_loop (m_writer log) clock n es events"
      by (rule loop_at_end [OF loop_at_skip [OF lp, of now]]) simp_all
    then have "compacted ty (T @ [now]) y0 log dev events"
      using all Nil by (auto simp: compacted_def)
    with Nil assms(3) y per c show ?thesis by (auto simp: compacting_step_def)
  next
    case (Cons e es')
    have step: "compacting ty (T @ [now]) y0 log dev es' events'"
      if "\<And>clock n. clock n = now \<Longrightarrow>
        LogWriter_Compact_loop (m_writer log) clock n (e # es') events = LogWriter_Compact_loop (m_writer log) clock (Suc n) es' events'"
      for events'
    proof -
      have "loop_at (T @ [now]) (\<lambda>clock. LogWriter_Compact_loop (m_writer log) clock 0 all [])
          (\<lambda>clock n. LogWriter_Compact_loop (m_writer log) clock n es' events')"
        by (rule loop_at_next [OF lp]) (use that Cons in simp)
      with all show ?thesis unfolding compacting_def by blast
    qed
    have per': "m_persistence (object y) = Some log" using y per by simp
    have goes: "pc_at ty c (T @ [now]) y0 (Compacting dev es' events') y"
      if "compacting ty (T @ [now]) y0 log dev es' events'" for events'
      using that c per y by simp
    note next_pc = assms(3) [unfolded compacting_step_def per' Cons option.case list.case option.inject, symmetric]
    show ?thesis
    proof (cases "GetEventType e = CREATE \<and> GetTimestamp e \<noteq> -1 \<and> sint (GetTimestamp e) < sint now")
      case True
      then have "compacting ty (T @ [now]) y0 log dev es' events" by (intro step) simp
      from goes [OF this] next_pc True show ?thesis by simp
    next
      case False
      show ?thesis
      proof (cases "umap_find (m_compactStrategies (m_writer log)) (GetEventType e)")
        case None
        with False have "compacting ty (T @ [now]) y0 log dev es' events" by (intro step) auto
        from goes [OF this] next_pc False None show ?thesis by simp
      next
        case (Some strategy)
        show ?thesis
        proof (cases "strategy events e")
          case (Inl err)
          have "loop_at (T @ [now]) (\<lambda>clock. LogWriter_Compact_loop (m_writer log) clock 0 all []) (\<lambda>_ _. Inl err)"
            by (rule loop_at_next [OF lp]) (use False Some Inl Cons in auto)
          then obtain clock where clock: "\<forall>i. clock i \<in> set (T @ [now])"
            "LogWriter_Compact_loop (m_writer log) clock 0 all [] = Inl err"
            by (rule loop_at_end) auto
          have "pc_at ty c (T @ [now]) y0 (Leave (AnsThrown err)) y0"
            by (rule compact_thrown_at [OF c per clock(1) _ assms(2), where dev = dev]) (use all clock(2) in simp)
          with next_pc False Some Inl assms(2) y show ?thesis by simp
        next
          case (Inr events')
          with False Some have "compacting ty (T @ [now]) y0 log dev es' events'" by (intro step) auto
          from goes [OF this] next_pc False Some Inr show ?thesis by simp
        qed
      qed
    qed
  qed
qed

lemma replacing_step_at:
  assumes "pc_at ty c T y0 (Replacing dev events) y" and "\<not> log_mutex y0" and "iteration_order ord"
    and "replacing_step dev ord events y = Some (p', y')"
  shows "pc_at ty c (T @ [now]) y0 p' y'"
proof -
  from assms(1) obtain log where c: "c = CallCompact" and y: "y = y0\<lparr>log_mutex := True\<rparr>"
    and per: "m_persistence (object y0) = Some log" and co: "compacted ty (T @ [now]) y0 log dev events"
    by (auto simp: compacted_mono)
  then have per': "m_persistence (object y) = Some log" by simp
  from co obtain all clock where all: "LogReader_GetEvents ty (log_file log) dev (files y0) = Inr all"
    "\<forall>i. clock i \<in> set (T @ [now])" "LogWriter_Compact_loop (m_writer log) clock 0 all [] = Inr events"
    unfolding compacted_def by blast
  let ?tmp = "log_file log @ ''.tmp''"
  let ?err = "RuntimeError (''Failed to open temporary persistence log: '' @ ?tmp)"
  show ?thesis
  proof (cases "dev_open_write dev")
    case False
    then have "PersistenceLog_Compact ty log dev ord clock clock (files y0) = (Inl ?err, files y0)"
      using all by (simp add: PersistenceLog_Compact_def LogWriter_Compact_def LogWriter_RewriteHistory_def)
    from compact_call_at [OF c per all(2,2) assms(3) this assms(2), of y0] False assms(2,4) y per'
    show ?thesis by (auto simp: replacing_step_def)
  next
    case True
    obtain r s where h: "LogWriter_WriteHeader (ofstream (dev_room dev)) = (r, s)" by fastforce
    have grown: "tmp_grown y0 log s 0 (y\<lparr>files := (files y)(?tmp \<mapsto> [])\<rparr>)" using y by (simp add: tmp_grown_def)
    show ?thesis
    proof (cases r)
      case (Inl e)
      have "flushing ty (T @ [now]) y0 log dev (Inl e) s"
        unfolding flushing_def using co assms(3) True all(2) h Inl by (intro exI [of _ events] exI [of _ ord] exI [of _ clock]) simp
      with grown per c assms(4) True h Inl per' show ?thesis by (auto simp: replacing_step_def Let_def)
    next
      case (Inr u)
      have "rewriting ty (T @ [now]) y0 log dev (\<lambda>clock n. LogWriter_Rewrite_loop ty clock n (ord events) s)"
        unfolding rewriting_def using co assms(3) True h Inr
        by (intro exI [of _ events] exI [of _ ord] conjI loop_at_start) simp_all
      with grown per c assms(4) True h Inr per' show ?thesis by (auto simp: replacing_step_def Let_def)
    qed
  qed
qed

text \<open>A record is appended to the buffer.\<close>

lemma ostream_write_extends: "\<exists>x. obuf (ostream_write bs s) = obuf s @ x"
  by (auto simp: ostream_write_def split: option.split)

lemma WriteRecord_extends:
  assumes "LogWriter_WriteRecord ty e s = (r, s1)"
  shows "\<exists>x. obuf s1 = obuf s @ x"
proof -
  have "\<exists>x. obuf (ostream_write b (ostream_write a s)) = obuf s @ x" for a b
    by (metis ostream_write_append ostream_write_extends)
  with assms show ?thesis
    by (auto simp: LogWriter_WriteRecord_def Let_def split: prod.splits sum.splits if_splits)
qed

lemma tmp_grown_extends:
  assumes "tmp_grown y0 log s k y" and "LogWriter_WriteRecord ty e s = (r, s1)"
  shows "tmp_grown y0 log s1 k y"
  using assms(1) WriteRecord_extends [OF assms(2)] by (auto simp: tmp_grown_def)

lemma temporary_step_at:
  assumes "tmp_grown y0 log s k y" and "m_persistence (object y0) = Some log" and "more_bytes ch s k = Some k'"
  shows "tmp_grown y0 log s k' (temporary_step s k' y)"
  using assms by (auto simp: tmp_grown_def temporary_step_def more_bytes_def split: if_splits)

lemma rewriting_step_at:
  assumes "pc_at ty c T y0 (Rewriting dev entries s k) y" and "rewriting_step ty ch now dev entries s k y = (p', y')"
  shows "pc_at ty c (T @ [now]) y0 p' y'"
proof -
  from assms(1) obtain log where c: "c = CallCompact" and per: "m_persistence (object y0) = Some log"
    and g: "tmp_grown y0 log s k y" and rw: "rewriting ty T y0 log dev (\<lambda>clock n. LogWriter_Rewrite_loop ty clock n entries s)"
    by auto
  let ?whole = "\<lambda>ord events clock. sbind (LogWriter_WriteHeader (ofstream (dev_room dev)))
      (\<lambda>_ s. LogWriter_Rewrite_loop ty clock 0 (ord events) s)"
  from rw obtain events ord where ev: "compacted ty (T @ [now]) y0 log dev events" "iteration_order ord" "dev_open_write dev"
    and lp: "loop_at T (?whole ord events) (\<lambda>clock n. LogWriter_Rewrite_loop ty clock n entries s)"
    unfolding rewriting_def by (auto dest: compacted_mono)
  have goes: "pc_at ty c (T @ [now]) y0 (Rewriting dev entries' s1 k) y"
    if "tmp_grown y0 log s1 k y"
      and "\<And>clock n. clock n = now \<Longrightarrow> LogWriter_Rewrite_loop ty clock n entries s = LogWriter_Rewrite_loop ty clock (Suc n) entries' s1"
    for entries' s1
  proof -
    have "rewriting ty (T @ [now]) y0 log dev (\<lambda>clock n. LogWriter_Rewrite_loop ty clock n entries' s1)"
      unfolding rewriting_def using ev loop_at_next [OF lp that(2)] by blast
    with c per that(1) show ?thesis by simp
  qed
  have ends: "pc_at ty c (T @ [now]) y0 (Flushing dev r s1 k) y"
    if "tmp_grown y0 log s1 k y" and "\<And>clock n. clock n = now \<Longrightarrow> LogWriter_Rewrite_loop ty clock n entries s = (r, s1)" for r s1
  proof -
    have "loop_at (T @ [now]) (?whole ord events) (\<lambda>_ _. (r, s1))"
      by (rule loop_at_next [OF lp that(2)])
    then obtain clock where "\<forall>i. clock i \<in> set (T @ [now])" "?whole ord events clock = (r, s1)"
      by (rule loop_at_end) auto
    with ev have "flushing ty (T @ [now]) y0 log dev r s1" unfolding flushing_def by blast
    with c per that(1) show ?thesis by simp
  qed
  show ?thesis
  proof (cases "more_bytes ch s k")
    case (Some k')
    have "rewriting ty (T @ [now]) y0 log dev (\<lambda>clock n. LogWriter_Rewrite_loop ty clock n entries s)"
      by (rule rewriting_mono [OF rw])
    with Some assms(2) c per temporary_step_at [OF g per Some] show ?thesis by (auto simp: rewriting_step_def)
  next
    case None
    show ?thesis
    proof (cases entries)
      case Nil
      with None assms(2) ends [OF g, of "Inr ()"] show ?thesis by (simp add: rewriting_step_def)
    next
      case (Cons x entries')
      obtain key e where x: "x = (key, e)" by (cases x)
      show ?thesis
      proof (cases "GetTimestamp e \<noteq> -1 \<and> sint (GetTimestamp e) < sint now")
        case True
        with None Cons x assms(2) goes [OF g, of entries'] show ?thesis by (simp add: rewriting_step_def)
      next
        case False
        obtain r s1 where w: "LogWriter_WriteRecord ty e s = (r, s1)" by fastforce
        note g1 = tmp_grown_extends [OF g w]
        show ?thesis
        proof (cases r)
          case (Inl err)
          have "LogWriter_Rewrite_loop ty clock n entries s = (Inl err, s1)" if "clock n = now" for clock n
            using that False Cons x w Inl by auto
          from ends [OF g1 this] None Cons x assms(2) False w Inl show ?thesis by (auto simp: rewriting_step_def)
        next
          case (Inr u)
          have "LogWriter_Rewrite_loop ty clock n entries s = LogWriter_Rewrite_loop ty clock (Suc n) entries' s1"
            if "clock n = now" for clock n
            using that False Cons x w Inr by auto
          from goes [OF g1 this] None Cons x assms(2) False w Inr show ?thesis by (auto simp: rewriting_step_def)
        qed
      qed
    qed
  qed
qed

lemma flushing_step_at:
  assumes "pc_at ty c T y0 (Flushing dev r s k) y" and "\<not> log_mutex y0" and "flushing_step ch dev r s k y = Some (p', y')"
  shows "pc_at ty c (T @ [now]) y0 p' y'"
proof -
  from assms(1) obtain log where c: "c = CallCompact" and per: "m_persistence (object y0) = Some log"
    and g: "tmp_grown y0 log s k y" and fl: "flushing ty (T @ [now]) y0 log dev r s"
    by (auto simp: flushing_mono)
  from g have per': "m_persistence (object y) = Some log" using per by (simp add: tmp_grown_def)
  show ?thesis
  proof (cases "k < length (obuf s)")
    case True
    with assms(3) per' obtain k' where "more_bytes ch s k = Some k'" "p' = Flushing dev r s k'" "y' = temporary_step s k' y"
      by (auto simp: flushing_step_def Let_def split: option.splits)
    with temporary_step_at [OF g per, of ch k'] c per fl show ?thesis by auto
  next
    case False
    let ?tmp = "log_file log @ ''.tmp''"
    let ?fs = "(files y0)(?tmp \<mapsto> obuf s)"
    let ?done = "?fs(log_file log \<mapsto> obuf s, ?tmp := None)"
    from fl obtain events ord clock2 all clock1 where fl': "iteration_order ord" "dev_open_write dev"
      "\<forall>i. clock1 i \<in> set (T @ [now])" "\<forall>i. clock2 i \<in> set (T @ [now])"
      "LogReader_GetEvents ty (log_file log) dev (files y0) = Inr all"
      "LogWriter_Compact_loop (m_writer log) clock1 0 all [] = Inr events"
      "sbind (LogWriter_WriteHeader (ofstream (dev_room dev))) (\<lambda>_ s. LogWriter_Rewrite_loop ty clock2 0 (ord events) s) = (r, s)"
      unfolding flushing_def compacted_def by blast
    define outcome where "outcome =
      (case r of
         Inl e \<Rightarrow> (Inl e, ?fs)
       | Inr _ \<Rightarrow>
           if obad s then (Inl (IosFailure ''Failed to flush compacted persistence log''), ?fs)
           else if \<not> dev_close dev then (Inl (IosFailure ''Failed to close compacted persistence log''), ?fs)
           else if \<not> dev_rename dev then (Inl (FilesystemError ''rename''), ?fs)
           else (Inr (), ?done))"
    have "PersistenceLog_Compact ty log dev ord clock1 clock2 (files y0) = outcome"
      using fl' by (simp add: PersistenceLog_Compact_def LogWriter_Compact_def LogWriter_RewriteHistory_def Let_def outcome_def)
    then have call: "pc_at ty c (T @ [now]) y0 (Leave (answer_of (\<lambda>_. AnsUnit) (fst outcome))) (y0\<lparr>files := snd outcome\<rparr>)"
      by (intro compact_call_at [OF c per fl'(3,4,1) _ assms(2), where fs = "snd outcome" and ty = ty and dev = dev]) simp_all
    have y: "y\<lparr>log_mutex := False\<rparr> = y0\<lparr>files := ?fs\<rparr>"
      using g False assms(2) by (cases y0) (simp add: tmp_grown_def)
    have "files y = ?fs" using g False by (simp add: tmp_grown_def)
    then have "(files y)(log_file log := files y ?tmp, ?tmp := None) = ?done" by simp
    then have y2: "y\<lparr>files := (files y)(log_file log := files y ?tmp, ?tmp := None), log_mutex := False\<rparr> = y0\<lparr>files := ?done\<rparr>"
      using g assms(2) by (cases y0) (simp add: tmp_grown_def)
    note next_pc = assms(3) [unfolded flushing_step_def per' option.case Let_def if_not_P [OF False] option.inject, symmetric]
    have "(p', y') = (Leave (answer_of (\<lambda>_. AnsUnit) (fst outcome)), y0\<lparr>files := snd outcome\<rparr>)"
      unfolding next_pc by (cases r) (simp_all add: outcome_def y y2)
    with call show ?thesis by simp
  qed
qed

section \<open>Readers\<close>

lemma read_step_at:
  assumes "pc_at ty c T y0 p y" and "T \<noteq> []" and "\<not> log_mutex y0" and "p \<in> {Found k, Live k, Checking k}"
    and "db_step ty ch c now (p, y) = Some (p', y')"
  shows "pc_at ty c (T @ [now]) y0 p' y'"
proof -
  note reads = RadishDB_Get_def RadishStore_Get_def RadishDB_Exists_def RadishStore_Exists_def store_of_def [symmetric]
  from assms(4) consider "p = Found k" | "p = Live k" | "p = Checking k" by blast
  then show ?thesis
  proof cases
    case 1
    with assms(1) have at: "y = y0" "c = CallGet k" "umap_contains (m_data (store_of y0)) k" by auto
    have "RadishDB_Get now (object y0) k = None" if "RadishStore_IsExpired now (store_of y0) k"
      using that by (simp add: reads)
    with db_call.get [OF at(2), of now "T @ [now]" ty "(object y0, files y0)"] assms(3,5) 1 at show ?thesis
      by (auto simp: db_atomic_def)
  next
    case 2
    with assms(1) obtain t where at: "y = y0" "c = CallGet k" "umap_contains (m_data (store_of y0)) k"
      "t \<in> set (T @ [now])" "\<not> RadishStore_IsExpired t (store_of y0) k" by auto
    from at(3) obtain v where v: "umap_find (m_data (store_of y0)) k = Some v" by (auto simp: umap_contains_def)
    with at have "RadishDB_Get t (object y0) k = Some v" by (simp add: reads)
    with db_call.get [OF at(2,4), of ty "(object y0, files y0)"] assms(3,5) 2 at v show ?thesis
      by (auto simp: db_atomic_def)
  next
    case 3
    with assms(1) obtain t where at: "y = y0" "c = CallExists k" "t \<in> set (T @ [now])"
      "\<not> RadishStore_IsExpired t (store_of y0) k" by auto
    then have "RadishDB_Exists t (object y0) k = umap_contains (m_data (store_of y0)) k" by (simp add: reads)
    with db_call.exists [OF at(2,3), of ty "(object y0, files y0)"] assms(3,5) 3 at show ?thesis
      by (auto simp: db_atomic_def)
  qed
qed

lemma scanning_step_at:
  assumes "pc_at ty c T y0 (Scanning ord i keys) y" and "\<not> log_mutex y0"
  shows "pc_at ty c (T @ [now]) y0 (scanning_step now ord i keys y) y"
proof -
  from assms(1) have at: "y = y0" "c = CallScan" "iteration_order ord"
    and lp: "loop_at T (\<lambda>clock. RadishStore_Scan_loop clock 0 (store_of y0) (entries_of ord y0))
        (\<lambda>clock n. keys @ RadishStore_Scan_loop clock n (store_of y0) (drop i (entries_of ord y0)))" by simp_all
  show ?thesis
  proof (cases "i < length (entries_of ord y0)")
    case True
    obtain k v where e: "entries_of ord y0 ! i = (k, v)" by fastforce
    then have "drop i (entries_of ord y0) = (k, v) # drop (Suc i) (entries_of ord y0)"
      using True by (simp add: Cons_nth_drop_Suc [symmetric])
    with e True at loop_at_next [OF lp, of now] show ?thesis
      by (simp add: scanning_step_def entries_of_def [symmetric])
  next
    case False
    obtain clock n where clock: "\<forall>i. clock i \<in> set (T @ [now])"
      "RadishStore_Scan_loop clock 0 (store_of y0) (entries_of ord y0) =
        keys @ RadishStore_Scan_loop clock n (store_of y0) (drop i (entries_of ord y0))"
      by (rule loop_at_end [OF loop_at_skip [OF lp, of now]]) simp_all
    then have "RadishDB_Scan ord clock (object y0) = keys"
      using False by (simp add: RadishDB_Scan_def RadishStore_Scan_def entries_of_def store_of_def)
    with db_call.scan [OF at(2) clock(1) at(3), of ty "(object y0, files y0)"] False at(1) assms(2) show ?thesis
      by (simp add: scanning_step_def entries_of_def [symmetric] db_atomic_def)
  qed
qed

lemma sizing_step_at:
  assumes "pc_at ty c T y0 (Sizing ord i m) y" and "\<not> log_mutex y0"
  shows "pc_at ty c (T @ [now]) y0 (sizing_step now ord i m y) y"
proof -
  from assms(1) have at: "y = y0" "c = CallSize" "iteration_order ord"
    and lp: "loop_at T (\<lambda>clock. RadishStore_Size_loop clock 0 (store_of y0) (entries_of ord y0))
        (\<lambda>clock n. m + RadishStore_Size_loop clock n (store_of y0) (drop i (entries_of ord y0)))" by simp_all
  show ?thesis
  proof (cases "i < length (entries_of ord y0)")
    case True
    then have "drop i (entries_of ord y0) = entries_of ord y0 ! i # drop (Suc i) (entries_of ord y0)"
      by (simp add: Cons_nth_drop_Suc [symmetric])
    with True at loop_at_next [OF lp, of now] show ?thesis
      by (simp add: sizing_step_def entries_of_def [symmetric])
  next
    case False
    obtain clock n where clock: "\<forall>i. clock i \<in> set (T @ [now])"
      "RadishStore_Size_loop clock 0 (store_of y0) (entries_of ord y0) =
        m + RadishStore_Size_loop clock n (store_of y0) (drop i (entries_of ord y0))"
      by (rule loop_at_end [OF loop_at_skip [OF lp, of now]]) simp_all
    then have "RadishDB_Size ord clock (object y0) = m"
      using False by (simp add: RadishDB_Size_def RadishStore_Size_def entries_of_def store_of_def)
    with db_call.size [OF at(2) clock(1) at(3), of ty "(object y0, files y0)"] False at(1) assms(2) show ?thesis
      by (simp add: sizing_step_def entries_of_def [symmetric] db_atomic_def)
  qed
qed

section \<open>The bodies honour the discipline of the lock\<close>

lemma db_step_at:
  assumes "pc_at ty c T y0 p y" and "\<not> log_mutex y0" and "p \<noteq> Enter \<Longrightarrow> T \<noteq> []"
    and "iteration_order (ch_data ch)" and "iteration_order (ch_events ch)" and "db_step ty ch c now (p, y) = Some (p', y')"
  shows "pc_at ty c (T @ [now]) y0 p' y'"
proof (cases p)
  case Enter
  with assms enter_step_at [of y ch c now p' y' ty T] show ?thesis by simp
next
  case (Built e)
  with assms show ?thesis by (auto simp: built_mono)
next
  case (Staged e s)
  with assms apply_step_at [of ty c T y0 e s y now p' y'] show ?thesis by simp
next
  case (Applying e s)
  with assms applying_step_at [of ty c T y0 e s y now p' y'] show ?thesis by simp
next
  case (Applied e b s)
  with assms applied_step_at [of ty c T y0 e b s y p' y' now] show ?thesis by simp
next
  case (Opening e s)
  with assms opening_step_at [of ty c T y0 e s y "ch_dev ch" p' y' now] show ?thesis by simp
next
  case (Writing r os k s)
  with assms writing_step_at [of ty c T y0 r os k s y ch p' y' now] show ?thesis by simp
next
  case (Swapping s)
  with assms swapping_step_at [of ty c T y0 s y p' y' now] show ?thesis by simp
next
  case Reading
  with assms reading_step_at [of ty c T y0 y "ch_dev ch" p' y' now] show ?thesis by simp
next
  case (Compacting dev es events)
  with assms compacting_step_at [of ty c T y0 dev es events y now p' y'] show ?thesis by simp
next
  case (Replacing dev events)
  with assms replacing_step_at [of ty c T y0 dev events y "ch_events ch" p' y' now] show ?thesis by simp
next
  case (Rewriting dev entries s k)
  with assms rewriting_step_at [of ty c T y0 dev entries s k y ch now p' y'] show ?thesis by simp
next
  case (Flushing dev r s k)
  with assms flushing_step_at [of ty c T y0 dev r s k y ch p' y' now] show ?thesis by simp
next
  case (Found k)
  show ?thesis by (rule read_step_at [OF assms(1) _ assms(2) _ assms(6), of k]) (use assms(3) Found in simp_all)
next
  case (Live k)
  show ?thesis by (rule read_step_at [OF assms(1) _ assms(2) _ assms(6), of k]) (use assms(3) Live in simp_all)
next
  case (Checking k)
  show ?thesis by (rule read_step_at [OF assms(1) _ assms(2) _ assms(6), of k]) (use assms(3) Checking in simp_all)
next
  case (Scanning ord i keys)
  with assms scanning_step_at [of ty c T y0 ord i keys y now] show ?thesis by auto
next
  case (Sizing ord i m)
  with assms sizing_step_at [of ty c T y0 ord i m y now] show ?thesis by auto
next
  case (Leave a)
  with assms(6) show ?thesis by simp
qed

lemma solo_at:
  assumes "solo (\<lambda>_. Enter) (db_body ty) c y0 T p y" and "\<not> log_mutex y0"
  shows "pc_at ty c T y0 p y \<and> (p \<noteq> Enter \<longrightarrow> T \<noteq> [])"
  using assms(1)
proof (induction rule: solo.induct)
  case enters
  show ?case by simp
next
  case (goes T l s now l' s')
  then obtain ch where "iteration_order (ch_data ch)" "iteration_order (ch_events ch)" "db_step ty ch c now (l, s) = Some (l', s')"
    unfolding db_body_def by blast
  with goes.IH assms(2) db_step_at [of ty c T y0 l s ch now l' s'] show ?case by blast
qed

lemma built_writes: "built c T db e \<Longrightarrow> call_writes c"
  by (cases c) (simp_all add: built_def)

lemma db_call_reader:
  assumes "db_call ty c T st a st'" and "\<not> call_writes c"
  shows "st' = st"
  using assms by (cases rule: db_call.cases) auto

lemma reader_at:
  assumes "pc_at ty c T y0 p y" and "\<not> log_mutex y0" and "\<not> call_writes c"
  shows "y = y0"
proof (cases p)
  case (Leave a)
  with assms(1) have "db_call ty c T (object y0, files y0) a (object y, files y)" "\<not> log_mutex y"
    by (simp_all add: db_atomic_def)
  with db_call_reader [OF _ assms(3)] assms(2) show ?thesis by (cases y; cases y0) auto
qed (use assms built_writes in auto)

lemma progress_at:
  assumes "pc_at ty c T y0 p y" and "\<not> log_mutex y0" and "pc_answer p = None"
  shows "\<exists>x. db_body ty c now (p, y) x"
proof -
  let ?ch = "\<lparr>ch_dev = healthy, ch_data = (\<lambda>xs. xs), ch_events = (\<lambda>xs. xs), ch_bytes = 1\<rparr>"
  have "\<exists>x. db_step ty ?ch c now (p, y) = Some x"
  proof (cases p)
    case Enter
    with assms(1,2) show ?thesis by (cases c) (auto split: option.split)
  next
    case (Writing r os k s)
    with assms(1) show ?thesis
      by (auto simp: writing_step_def log_grown_def more_bytes_def)
  next
    case (Flushing dev r s k)
    with assms(1) show ?thesis
      by (auto simp: flushing_step_def tmp_grown_def more_bytes_def Let_def)
  qed (use assms in \<open>auto simp: apply_step_def applying_step_def applied_step_def opening_step_def reading_step_def
      compacting_step_def replacing_step_def Let_def split: option.split prod.split\<close>)
  then obtain x where "db_step ty ?ch c now (p, y) = Some x" ..
  then have "db_body ty c now (p, y) x"
    unfolding db_body_def by (intro exI [of _ ?ch]) (simp add: iteration_order_id)
  then show ?thesis ..
qed

interpretation db_calls: locked_calls call_writes "\<lambda>_. Enter" "db_body ty" pc_answer "\<lambda>y. \<not> log_mutex y" "db_atomic ty" for ty
proof
  fix y0 c T l s and a :: Answer
  assume idle: "\<not> log_mutex y0" and solo: "solo (\<lambda>_. Enter) (db_body ty) c y0 T l s"
  then have at: "pc_at ty c T y0 l s" using solo_at by blast
  show "db_atomic ty c T y0 a s \<and> \<not> log_mutex s" if "pc_answer l = Some a"
    using that at by (cases l) auto
  show "s = y0" if "\<not> call_writes c" by (rule reader_at [OF at idle that])
  show "\<exists>l' s'. db_body ty c now (l, s) (l', s')" if "pc_answer l = None" for now
    using progress_at [OF at idle that] by auto
qed

section \<open>Every call comes to an end\<close>

fun pc_weight :: "Pc \<Rightarrow> Db_Object \<Rightarrow> nat \<times> nat \<times> nat" where
  "pc_weight Enter y = (14, 0, 0)"
| "pc_weight (Built e) y = (13, 0, 0)"
| "pc_weight (Staged e s) y = (12, 0, 0)"
| "pc_weight (Applying e s) y = (11, 0, 0)"
| "pc_weight (Applied e b s) y = (10, 0, 0)"
| "pc_weight (Opening e s) y = (9, 0, 0)"
| "pc_weight (Writing r os k s) y = (8, length (obuf os) - k, 0)"
| "pc_weight (Swapping s) y = (7, 0, 0)"
| "pc_weight Reading y = (6, 0, 0)"
| "pc_weight (Compacting dev es events) y = (5, length es, 0)"
| "pc_weight (Replacing dev events) y = (4, 0, 0)"
| "pc_weight (Rewriting dev entries s k) y = (3, length entries, length (obuf s) - k)"
| "pc_weight (Flushing dev r s k) y = (2, length (obuf s) - k, 0)"
| "pc_weight (Found k) y = (2, 0, 0)"
| "pc_weight (Live k) y = (1, 0, 0)"
| "pc_weight (Checking k) y = (1, 0, 0)"
| "pc_weight (Scanning ord i keys) y = (1, length (entries_of ord y) - i, 0)"
| "pc_weight (Sizing ord i n) y = (1, length (entries_of ord y) - i, 0)"
| "pc_weight (Leave a) y = (0, 0, 0)"

lemma triple_order_iff [simp]:
  "((a, b, c), (a', b', c')) \<in> triple_order \<longleftrightarrow> a < a' \<or> a = a' \<and> (b < b' \<or> b = b' \<and> c < c')"
  by (auto simp: triple_order_def)

lemma enter_step_lighter:
  "enter_step ch c now y = Some (p', y') \<Longrightarrow> (pc_weight p' y', pc_weight Enter y) \<in> triple_order"
  by (cases c) (auto split: sum.splits option.splits if_splits)

lemma db_step_lighter:
  assumes "db_step ty ch c now (p, y) = Some (p', y')"
  shows "(pc_weight p' y', pc_weight p y) \<in> triple_order"
proof (cases p)
  case Enter
  with assms enter_step_lighter show ?thesis by simp
next
  case (Writing r os k s)
  with assms show ?thesis
    by (auto simp: writing_step_def more_bytes_def split: option.splits if_splits sum.splits)
next
  case (Compacting dev es events)
  with assms show ?thesis
    by (auto simp: compacting_step_def split: option.splits if_splits sum.splits list.splits)
next
  case (Rewriting dev entries s k)
  with assms show ?thesis
    by (auto simp: rewriting_step_def more_bytes_def split: option.splits if_splits sum.splits list.splits prod.splits)
next
  case (Flushing dev r s k)
  with assms show ?thesis
    by (auto simp: flushing_step_def more_bytes_def Let_def split: option.splits if_splits sum.splits)
next
  case (Scanning ord i keys)
  with assms show ?thesis by (auto simp: scanning_step_def entries_of_def Let_def)
next
  case (Sizing ord i n)
  with assms show ?thesis by (auto simp: sizing_step_def entries_of_def Let_def)
qed (use assms in \<open>auto simp: apply_step_def applying_step_def applied_step_def opening_step_def swapping_step_def
    reading_step_def replacing_step_def Let_def split: option.splits if_splits sum.splits prod.splits\<close>)

interpretation db_ends: terminating_calls call_writes "\<lambda>_. Enter" "db_body ty" pc_answer
    "\<lambda>y. \<not> log_mutex y" "db_atomic ty" pc_weight for ty
  by unfold_locales (auto simp: db_body_def intro: db_step_lighter)

end
