(* ===== verification/Db_Threads.thy ===== *)
theory Db_Threads
  imports Db_Solo
begin

text \<open>
  Any number of threads on one database: under the lock, whatever they do is linearizable to the
  operations of \<^verbatim>\<open>Radish_DB\<close>, conflicting calls never overlap, and threads never block one another
  for good. Schedules make the step relation executable.
\<close>

section \<open>Threads on one database\<close>

definition threads_reach :: "TType \<Rightarrow> RadishDB \<times> FileSystem \<Rightarrow> (Call, Pc, Db_Object, Answer) system \<Rightarrow> bool" where
  "threads_reach ty st y \<longleftrightarrow>
     system_reach call_writes (\<lambda>_. Enter) (db_body ty) pc_answer \<lparr>object = fst st, files = snd st, log_mutex = False\<rparr> y"

definition threads_advance :: "TType \<Rightarrow> nat \<Rightarrow> (Call, Pc, Db_Object, Answer) system \<Rightarrow> (Call, Pc, Db_Object, Answer) system \<Rightarrow> bool" where
  "threads_advance ty = advance call_writes (\<lambda>_. Enter) (db_body ty) pc_answer"

definition database_of :: "(Call, Pc, Db_Object, Answer) system \<Rightarrow> RadishDB \<times> FileSystem" where
  "database_of y = (object (shared y), files (shared y))"

text \<open>The answered calls executed one after the other, each at once.\<close>

abbreviation serial_calls :: "TType \<Rightarrow> RadishDB \<times> FileSystem \<Rightarrow> (nat \<times> Call \<times> Timestamp list \<times> Answer) list \<Rightarrow> RadishDB \<times> FileSystem \<Rightarrow> bool" where
  "serial_calls ty \<equiv> serial (db_call ty)"

lemma serial_db_atomic:
  assumes "serial (db_atomic ty) y0 h y"
  shows "serial_calls ty (object y0, files y0) h (object y, files y)"
  using assms
proof (induction rule: serial.induct)
  case none
  show ?case by (rule serial.none)
next
  case (next_call h s1 c T a s2 t)
  from serial.next_call [OF next_call.IH next_call(2) [unfolded db_atomic_def]] show ?case .
qed

text \<open>A schedule: the next thread to call an operation or to go on, with one choice of the outside for all steps.\<close>

definition run_thread :: "TType \<Rightarrow> Choice \<Rightarrow> nat \<Rightarrow> (Call, Pc, Db_Object, Answer) system \<Rightarrow> (Call, Pc, Db_Object, Answer) system option" where
  "run_thread ty ch t y =
     (case thread y t of
        Outside \<Rightarrow> None
      | Waiting c \<Rightarrow>
          if may_acquire (call_writes c) (mutex y)
          then Some (y\<lparr>mutex := acquire (call_writes c) t (mutex y), thread := (thread y)(t := Inside c [] Enter)\<rparr>)
          else None
      | Inside c T l \<Rightarrow>
          (case pc_answer l of
             Some a \<Rightarrow>
               Some (y\<lparr>mutex := release (call_writes c) t (mutex y), thread := (thread y)(t := Leaving a),
                 trace := trace y @ [Answered t c T a]\<rparr>)
           | None \<Rightarrow>
               (case db_step ty ch c (wall_clock y) (l, shared y) of
                  None \<Rightarrow> None
                | Some (l', s') \<Rightarrow> Some (y\<lparr>thread := (thread y)(t := Inside c (T @ [wall_clock y]) l'), shared := s'\<rparr>)))
      | Leaving a \<Rightarrow> Some (y\<lparr>thread := (thread y)(t := Outside), trace := trace y @ [Returned t a]\<rparr>))"

fun schedule :: "TType \<Rightarrow> Choice \<Rightarrow> (nat \<times> Call option) list \<Rightarrow> (Call, Pc, Db_Object, Answer) system \<Rightarrow>
    (Call, Pc, Db_Object, Answer) system option" where
  "schedule ty ch [] y = Some y"
| "schedule ty ch ((t, Some c) # xs) y =
     (case thread y t of
        Outside \<Rightarrow> schedule ty ch xs (y\<lparr>thread := (thread y)(t := Waiting c), trace := trace y @ [Invoked t c]\<rparr>)
      | _ \<Rightarrow> None)"
| "schedule ty ch ((t, None) # xs) y = (case run_thread ty ch t y of None \<Rightarrow> None | Some y' \<Rightarrow> schedule ty ch xs y')"

lemma run_thread_advance:
  assumes "run_thread ty ch t y = Some y'" and "iteration_order (ch_data ch)" and "iteration_order (ch_events ch)"
  shows "threads_advance ty t y y'"
proof (cases "thread y t")
  case Outside
  with assms(1) show ?thesis by (simp add: run_thread_def)
next
  case (Waiting c)
  with assms(1) show ?thesis
    by (auto simp: run_thread_def threads_advance_def split: if_splits intro: advance.acquires)
next
  case (Inside c T l)
  show ?thesis
  proof (cases "pc_answer l")
    case None
    with Inside assms(1) obtain l' s' where "db_step ty ch c (wall_clock y) (l, shared y) = Some (l', s')"
      and y': "y' = y\<lparr>thread := (thread y)(t := Inside c (T @ [wall_clock y]) l'), shared := s'\<rparr>"
      by (auto simp: run_thread_def split: option.splits)
    with assms(2,3) have "db_body ty c (wall_clock y) (l, shared y) (l', s')" unfolding db_body_def by blast
    from advance.steps [where body = "db_body ty", OF Inside this] show ?thesis unfolding threads_advance_def y' .
  next
    case (Some a)
    with Inside assms(1) show ?thesis
      by (auto simp: run_thread_def threads_advance_def intro: advance.releases)
  qed
next
  case (Leaving a)
  with assms(1) show ?thesis by (auto simp: run_thread_def threads_advance_def intro: advance.returns)
qed

lemma schedule_reach:
  assumes "schedule ty ch xs y = Some y'" and "iteration_order (ch_data ch)" and "iteration_order (ch_events ch)"
    and "threads_reach ty st y"
  shows "threads_reach ty st y'"
  using assms
proof (induction ty ch xs y rule: schedule.induct)
  case (2 ty ch t c xs y)
  have "threads_reach ty st (y\<lparr>thread := (thread y)(t := Waiting c), trace := trace y @ [Invoked t c]\<rparr>)"
    if "thread y t = Outside"
    using that 2(5) unfolding threads_reach_def by (blast intro: system_reach.runs system_step.invokes)
  with 2(1-4) show ?case by (simp split: thread.splits)
next
  case (3 ty ch t xs y)
  then obtain y1 where y1: "run_thread ty ch t y = Some y1" "schedule ty ch xs y1 = Some y'"
    by (auto split: option.splits)
  from run_thread_advance [OF y1(1) 3(3,4)] 3(5) have "threads_reach ty st y1"
    unfolding threads_reach_def threads_advance_def by (blast intro: system_reach.runs system_step.advances)
  with 3(1) [OF y1(1)] y1(2) 3(3,4) show ?case by simp
qed simp

definition demo_choice :: Choice where
  "demo_choice = \<lparr>ch_dev = healthy, ch_data = (\<lambda>xs. xs), ch_events = (\<lambda>xs. xs), ch_bytes = 1\<rparr>"

text \<open>An empty database without persistence.\<close>

definition demo_database :: "RadishDB \<times> FileSystem" where
  "demo_database = (\<lparr>m_store = RadishStore_new (-1), m_persistence = None\<rparr>, Map.empty)"

definition demo_system :: "(Call, Pc, Db_Object, Answer) system" where
  "demo_system = system_start 7 \<lparr>object = fst demo_database, files = snd demo_database, log_mutex = False\<rparr>"

lemma demo_orders: "iteration_order (ch_data demo_choice)" "iteration_order (ch_events demo_choice)"
  by (simp_all add: demo_choice_def iteration_order_def)

lemma demo_threads:
  assumes "schedule std_string demo_choice xs demo_system = Some y"
  shows "threads_reach std_string demo_database y"
  by (rule schedule_reach [OF assms demo_orders])
    (simp add: threads_reach_def demo_system_def system_reach.starts)

section \<open>Properties\<close>

text \<open>
  (C4) Whatever any number of threads call, and however their statements interleave, the answered calls
  executed one after the other, each at once with readings of the clock it took, in the order in which
  they left the lock, give the same answers and, while no call holds the lock exclusively, the same
  database and files. The order agrees with that of each thread and with real time, because every
  answer lies between the invocation and the return of its call.
\<close>

theorem threads_are_linearizable:
  assumes "threads_reach ty st y"
  shows "orderly (trace y) \<and>
    (\<exists>st1. serial_calls ty st (answers (trace y)) st1 \<and> (exclusive (mutex y) = None \<longrightarrow> database_of y = st1))"
proof -
  from db_calls.linearizable [OF assms [unfolded threads_reach_def]] obtain s1 where
    "orderly (trace y)" "serial (db_atomic ty) \<lparr>object = fst st, files = snd st, log_mutex = False\<rparr> (answers (trace y)) s1"
    "exclusive (mutex y) = None \<longrightarrow> shared y = s1" by auto
  with serial_db_atomic show ?thesis by (fastforce simp: database_of_def)
qed

text \<open>A writer and a reader wait; the writer gets the lock first.\<close>

definition demo_schedule :: "(nat \<times> Call option) list" where
  "demo_schedule = [(0, Some (CallCreate ''k'' ''v'')), (1, Some (CallGet ''k''))] @ replicate 7 (0, None) @ replicate 5 (1, None)"

theorem threads_are_linearizable_witness:
  "\<exists>y st1. threads_reach std_string demo_database y \<and>
     serial_calls std_string demo_database
       [(0, CallCreate ''k'' ''v'', [7, 7, 7, 7, 7], AnsUnit), (1, CallGet ''k'', [7, 7, 7], AnsValue (Some ''v''))] st1"
proof -
  have "map_option trace (schedule std_string demo_choice demo_schedule demo_system) =
    Some [Invoked 0 (CallCreate ''k'' ''v''), Invoked 1 (CallGet ''k''),
      Answered 0 (CallCreate ''k'' ''v'') [7, 7, 7, 7, 7] AnsUnit, Answered 1 (CallGet ''k'') [7, 7, 7] (AnsValue (Some ''v''))]"
    by code_simp
  then obtain y where y: "schedule std_string demo_choice demo_schedule demo_system = Some y"
    "trace y = [Invoked 0 (CallCreate ''k'' ''v''), Invoked 1 (CallGet ''k''),
      Answered 0 (CallCreate ''k'' ''v'') [7, 7, 7, 7, 7] AnsUnit, Answered 1 (CallGet ''k'') [7, 7, 7] (AnsValue (Some ''v''))]"
    by blast
  from threads_are_linearizable [OF demo_threads [OF y(1)]] demo_threads [OF y(1)] show ?thesis by (auto simp: y(2))
qed

text \<open>
  (C18) Two calls are inside of the database at the same time only when each is one of \<^verbatim>\<open>Get\<close>,
  \<^verbatim>\<open>Scan\<close>, \<^verbatim>\<open>Size\<close>, \<^verbatim>\<open>Exists\<close> and \<^verbatim>\<open>IsExpired\<close>, never a mutation or a compaction beside
  any other call, and as long as two calls are inside no statement of any thread changes the database, the
  mutex of the log or a file.
\<close>

theorem conflicting_calls_never_overlap:
  assumes "threads_reach ty st y" and "inside (thread y t) = Some c" and "inside (thread y u) = Some d" and "t \<noteq> u"
  shows "{c, d} \<subseteq> range CallGet \<union> {CallScan, CallSize} \<union> range CallExists \<union> range CallIsExpired \<and>
    (\<forall>v y'. threads_advance ty v y y' \<longrightarrow> shared y' = shared y)"
proof -
  note reach = assms(1) [unfolded threads_reach_def]
  note unique = holder_unique [OF reach_holders [OF reach]]
  have read: "e \<in> range CallGet \<union> {CallScan, CallSize} \<union> range CallExists \<union> range CallIsExpired" if "\<not> call_writes e" for e
    using that by (cases e) auto
  from unique [OF assms(2) _ assms(3)] unique [OF assms(3) _ assms(2)] assms(4) have "\<not> call_writes c" "\<not> call_writes d" by blast+
  moreover have "shared y' = shared y" if "threads_advance ty v y y'" for v y'
    by (rule db_calls.readers_change_nothing [OF reach _ that [unfolded threads_advance_def] assms(2-4)]) simp
  ultimately show ?thesis using read by blast
qed

text \<open>Two readers inside at the same time.\<close>

theorem conflicting_calls_never_overlap_witness:
  "\<exists>y. threads_reach std_string demo_database y \<and> inside (thread y 0) = Some CallSize \<and> inside (thread y 1) = Some (CallGet ''k'') \<and>
     (\<forall>v y'. threads_advance std_string v y y' \<longrightarrow> shared y' = shared y)"
proof -
  let ?xs = "[(0, Some CallSize), (1, Some (CallGet ''k'')), (0, None), (1, None)]"
  have "map_option (\<lambda>y. (inside (thread y 0), inside (thread y 1))) (schedule std_string demo_choice ?xs demo_system) =
      Some (Some CallSize, Some (CallGet ''k''))" by code_simp
  then obtain y where y: "schedule std_string demo_choice ?xs demo_system = Some y"
    "inside (thread y 0) = Some CallSize" "inside (thread y 1) = Some (CallGet ''k'')" by blast
  from conflicting_calls_never_overlap [OF demo_threads [OF y(1)] y(2,3)] demo_threads [OF y(1)] y(2,3) show ?thesis by auto
qed

text \<open>
  (C17) Threads never block one another for good: the lock of the database and the one of the log inside
  of it cannot deadlock, and if no further calls are made, all threads return after finitely many
  statements.
\<close>

theorem threads_come_to_rest:
  assumes "threads_reach ty st y" and "finite {t. thread y t \<noteq> Outside}"
  shows "(thread y t \<noteq> Outside \<longrightarrow> (\<exists>u y'. threads_advance ty u y y')) \<and>
    (\<nexists>f. f 0 = y \<and> (\<forall>i. \<exists>u. threads_advance ty u (f i) (f (Suc i))))"
proof -
  note reach = assms(1) [unfolded threads_reach_def]
  have "False" if f: "f 0 = y" "\<And>i. \<exists>u. threads_advance ty u (f i) (f (Suc i))" for f
    by (rule db_ends.comes_to_rest [where f = f, OF reach [folded f(1)]])
      (use assms(2) f in \<open>simp_all add: threads_advance_def\<close>)
  then have "\<nexists>f. f 0 = y \<and> (\<forall>i. \<exists>u. threads_advance ty u (f i) (f (Suc i)))" by blast
  moreover have "thread y t \<noteq> Outside \<longrightarrow> (\<exists>u y'. threads_advance ty u y y')"
    using db_calls.never_stuck [OF reach, of t] by (simp add: threads_advance_def)
  ultimately show ?thesis by blast
qed

theorem threads_come_to_rest_witness:
  "\<exists>y. threads_reach std_string demo_database y \<and> thread y 0 = Waiting CallClear \<and> (\<exists>u y'. threads_advance std_string u y y') \<and>
     (\<nexists>f. f 0 = y \<and> (\<forall>i. \<exists>u. threads_advance std_string u (f i) (f (Suc i))))"
proof -
  let ?y = "demo_system\<lparr>thread := (thread demo_system)(0 := Waiting CallClear), trace := [Invoked 0 CallClear]\<rparr>"
  have "schedule std_string demo_choice [(0, Some CallClear)] demo_system = Some ?y"
    by (simp add: demo_system_def system_start_def)
  from demo_threads [OF this] have r: "threads_reach std_string demo_database ?y" .
  have "{t. thread ?y t \<noteq> Outside} = {0}" by (auto simp: demo_system_def system_start_def)
  with threads_come_to_rest [OF r, of 0] r show ?thesis by (intro exI [of _ ?y]) simp
qed

end
