(* ===== verification/Db_Crash.thy ===== *)
theory Db_Crash
  imports Db_Threads
begin

text \<open>
  Threads on a database with a log and without a time to live, and a process that may die between any
  two statements of any thread: between two bytes of a record, in the middle of a compaction, after
  the record is on disk but before the store in memory has changed.

  Shown here: what the threads are told is what a map answers, and at every instant the files restore
  that map, except that the one mutation in progress may already be in it.
\<close>

section \<open>The specification: a map and the answers it gives\<close>

fun call_map :: "Call \<Rightarrow> (string \<Rightarrow> char list option) \<Rightarrow> string \<Rightarrow> char list option" where
  "call_map (CallCreate k v) m = m(k \<mapsto> v)"
| "call_map (CallRename a b) m = (if m a = None then m else (m(b := m a))(a := None))"
| "call_map (CallDelete k) m = m(k := None)"
| "call_map CallClear m = Map.empty"
| "call_map _ m = m"

fun call_answer :: "Call \<Rightarrow> (string \<Rightarrow> char list option) \<Rightarrow> Answer \<Rightarrow> bool" where
  "call_answer (CallCreate k v) m a = (a = AnsUnit)"
| "call_answer (CallRename x y) m a = (a = AnsBool (m x \<noteq> None))"
| "call_answer (CallDelete k) m a = (a = AnsBool (m k \<noteq> None))"
| "call_answer CallClear m a = (a = AnsBool (\<exists>k. m k \<noteq> None))"
| "call_answer CallCompact m a = (a = AnsUnit \<or> (\<exists>e. a = AnsThrown e))"
| "call_answer (CallGet k) m a = (a = AnsValue (m k))"
| "call_answer CallScan m a = (\<exists>ks. a = AnsKeys ks \<and> set ks = dom m \<and> distinct ks)"
| "call_answer CallSize m a = (a = AnsSize (card (dom m)))"
| "call_answer (CallExists k) m a = (a = AnsBool (m k \<noteq> None))"
| "call_answer (CallIsExpired k) m a = (a = AnsBool False)"

inductive spec_calls :: "(string \<Rightarrow> char list option) \<Rightarrow> (nat \<times> Call \<times> Timestamp list \<times> Answer) list \<Rightarrow>
    (string \<Rightarrow> char list option) \<Rightarrow> bool" for m0 where
  none: "spec_calls m0 [] m0"
| next_call: "spec_calls m0 h m \<Longrightarrow> call_answer c m a \<Longrightarrow> spec_calls m0 (h @ [(t, c, T, a)]) (call_map c m)"

text \<open>
  The calls in question: keys and values that fit into a record, and no key renamed onto itself. A
  mutation that throws is a failure of the disk, after which the log may end in an unfinished record;
  a compaction may throw.
\<close>

fun call_ok :: "TType \<Rightarrow> Call \<Rightarrow> bool" where
  "call_ok ty (CallCreate k v) = record_ok ty (create_event (-1) k v)"
| "call_ok ty (CallRename a b) = (record_ok ty (rename_event a b) \<and> a \<noteq> b)"
| "call_ok ty (CallDelete k) = record_ok ty (delete_event k)"
| "call_ok ty _ = True"

fun call_threw :: "Call \<Rightarrow> Answer \<Rightarrow> bool" where
  "call_threw CallCompact a = False"
| "call_threw c (AnsThrown e) = True"
| "call_threw c a = False"

lemma call_threw_iff: "call_threw c a \<longleftrightarrow> c \<noteq> CallCompact \<and> (\<exists>e. a = AnsThrown e)"
  by (cases a; cases c) auto

text \<open>The calls that were made in a run, and the answers that were given.\<close>

definition calls_made :: "(Call, Answer) event list \<Rightarrow> Call set" where
  "calls_made es = {c. \<exists>t. Invoked t c \<in> set es}"

definition no_failure :: "(Call, Answer) event list \<Rightarrow> bool" where
  "no_failure es \<longleftrightarrow> (\<forall>(t, c, T, a) \<in> set (answers es). \<not> call_threw c a)"

inductive_cases spec_calls_NilE: "spec_calls m0 [] m"

section \<open>One call\<close>

lemma db_inv_apply:
  assumes "db_inv ty filename (db, fs) m"
  shows "opened filename db" and "store_ok (m_store db)" and "\<not> RadishStore_HasTimeToLive (m_store db)"
    and "store_view (m_store db) = plain_view m"
  using assms by (simp_all add: db_inv_def)

lemma view_get_plain_view: "view_get now (plain_view m) k = m k"
  by (cases "m k") (simp_all add: view_get_def plain_view_def)

lemma call_event:
  assumes "built c T db e" and "call_ok ty c" and "\<not> RadishStore_HasTimeToLive (m_store db)"
  shows "record_ok ty e" and "no_self_rename e" and "no_expiry e"
    and "event_view False now e (plain_view m) = plain_view (call_map c m)"
  using assms record_ok_clear [of ty]
  by (cases c; auto simp: built_def RadishStore_NewExpiryTimestamp_def event_view_plain)+

text \<open>The result of a commit, when it returns.\<close>

lemma commit_result:
  assumes "db_inv ty filename (db, fs) m" and "built c T db e" and "call_ok ty c"
    and "RadishDB_Commit ty now dev e (db, fs) = (Inr b, st')"
  shows "call_answer c m (committed c b)"
proof -
  note inv = db_inv_apply [OF assms(1)] and ev = call_event [OF assms(2,3) db_inv_apply(3) [OF assms(1)]]
  have e: "event_ok ty e" using ev(1) by (simp add: record_ok_def)
  obtain s' where s': "LogWriter_ApplyEvent now (m_store db) e = Inr (b, s')"
    using Commit_opened [OF inv(1) e inv(2), of now dev fs] assms(4) by (auto split: if_splits prod.splits sum.splits)
  have live: "view_get now (store_view (m_store db)) k = m k" for k by (simp add: inv(4) view_get_plain_view)
  have stored: "store_view (m_store db) k \<noteq> None \<longleftrightarrow> m k \<noteq> None" for k by (cases "m k") (simp_all add: inv(4) plain_view_def)
  show ?thesis
  proof (cases c)
    case (CallRename x y)
    with assms(2) s' have "RadishStore_Rename now x y (m_store db) = (b, s')" by (simp add: built_def LogWriter_ApplyEvent_def)
    with view_of_rename_total(1) [OF inv(2), of now x y] live CallRename show ?thesis by simp
  next
    case (CallDelete k)
    with assms(2) s' have "RadishStore_Delete k (m_store db) = (b, s')" by (simp add: built_def LogWriter_ApplyEvent_def)
    with view_of_delete(1) [of k "m_store db"] stored CallDelete show ?thesis by simp
  next
    case CallClear
    with assms(2) s' have "RadishStore_Clear (m_store db) = (b, s')" by (simp add: built_def LogWriter_ApplyEvent_def)
    with view_of_clear(1) [of "m_store db"] stored CallClear show ?thesis by simp
  qed (use assms(2) in \<open>simp_all add: built_def\<close>)
qed

lemma Create_is_commit:
  assumes "\<not> RadishStore_HasTimeToLive (m_store db)"
  shows "RadishDB_Create ty now dev k v (db, fs) =
    (case RadishDB_Commit ty now dev (create_event (-1) k v) (db, fs) of
       (Inl e, st) \<Rightarrow> (Inl e, st) | (Inr b, st) \<Rightarrow> (Inr (), st))"
  using assms by (simp add: RadishDB_Create_def RadishStore_NewExpiryTimestamp_def sbind_def split: prod.split sum.split)

text \<open>A mutation as the commit of its event.\<close>

lemma db_call_writes:
  assumes "db_call ty c T (db, fs) a st'" and "\<not> RadishStore_HasTimeToLive (m_store db)" and "call_writes c" and "c \<noteq> CallCompact"
  obtains e now dev r where "built c T db e" and "RadishDB_Commit ty now dev e (db, fs) = (r, st')"
    and "a = answer_of (committed c) r"
  using assms(1)
proof (cases rule: db_call.cases)
  case (create k v now dev r)
  obtain rc where "RadishDB_Commit ty now dev (create_event (-1) k v) (db, fs) = (rc, st')"
    "r = (case rc of Inl e \<Rightarrow> Inl e | Inr _ \<Rightarrow> Inr ())"
    using create(4) Create_is_commit [OF assms(2), of ty now dev k v fs] by (auto split: prod.splits sum.splits)
  moreover have "built c T db (create_event (-1) k v)"
    using create(2,3) assms(2) by (auto simp: built_def RadishStore_NewExpiryTimestamp_def)
  ultimately show thesis using create(1,2) by (intro that) (auto split: sum.splits)
next
  case (rename x y now dev r)
  then show thesis by (intro that [of "rename_event x y" now dev r]) (cases r; simp add: built_def RadishDB_Rename_def)+
next
  case (delete k now dev r)
  then show thesis by (intro that [of "delete_event k" now dev r]) (cases r; simp add: built_def RadishDB_Delete_def)+
next
  case (clear now dev r)
  then show thesis by (intro that [of "clear_event" now dev r]) (cases r; simp add: built_def RadishDB_Clear_def)+
qed (use assms(3,4) in auto)

lemma db_inv_call:
  assumes "db_inv ty filename (db, fs) m" and "call_ok ty c" and "db_call ty c T (db, fs) a st'" and "\<not> call_threw c a"
  shows "db_inv ty filename st' (call_map c m)" and "call_answer c m a"
proof -
  note nt = db_inv_apply(3) [OF assms(1)]
  have "db_inv ty filename st' (call_map c m) \<and> call_answer c m a"
  proof (cases "call_writes c \<and> c \<noteq> CallCompact")
    case True
    with db_call_writes [OF assms(3) nt] obtain e now dev r where bu: "built c T db e"
      and co: "RadishDB_Commit ty now dev e (db, fs) = (r, st')" and a: "a = answer_of (committed c) r" by blast
    obtain b where r: "r = Inr b" using True a assms(4) by (cases r) (auto simp: call_threw_iff)
    note ev = call_event [OF bu assms(2) nt]
    have "event_view False n e (plain_view m) = plain_view (call_map c m)" for n
      using call_event(4) [OF bu assms(2) nt] by (cases c) (use bu in \<open>auto simp: built_def event_view_plain\<close>)
    from db_inv_commit [OF assms(1) ev(1-3) this co [unfolded r]] commit_result [OF assms(1) bu assms(2) co [unfolded r]] a r
    show ?thesis by simp
  next
    case False
    from assms(3) show ?thesis
    proof (cases rule: db_call.cases)
      case (compact clock1 clock2 ord dev r)
      with db_inv_compact [OF assms(1) compact(5,6)] show ?thesis by (cases r) auto
    next
      case (get k now)
      with assms(1) db_inv_apply [OF assms(1)] show ?thesis by (simp add: RadishDB_Get_def Get_view view_get_plain_view)
    next
      case (scan clock ord)
      with assms(1) db_inv_scan [OF assms(1) scan(5)] show ?thesis by auto
    next
      case (size clock ord)
      with assms(1) db_inv_scan [OF assms(1) size(5)] show ?thesis by auto
    next
      case (exists k now)
      with assms(1) db_inv_apply [OF assms(1)] show ?thesis
        by (simp add: RadishDB_Exists_def Exists_Get Get_view view_get_plain_view)
    next
      case (is_expired k now)
      with assms(1) db_inv_apply [OF assms(1)] show ?thesis by (simp add: RadishDB_IsExpired_def IsExpired_no_ttl)
    qed (use False in auto)
  qed
  then show "db_inv ty filename st' (call_map c m)" "call_answer c m a" by blast+
qed

section \<open>The files at any instant\<close>

definition log_restores :: "TType \<Rightarrow> string \<Rightarrow> FileSystem \<Rightarrow> (string \<Rightarrow> char list option) \<Rightarrow> bool" where
  "log_restores ty filename fs m \<longleftrightarrow>
     (\<exists>es tail. fs (log_name filename) = Some (log_bytes ty es @ tail) \<and> torn_tail tail \<and> list_all (record_ok ty) es \<and>
        (\<forall>r i. replay_view False r i es Map.empty = plain_view m))"

lemma log_restores_open:
  assumes "log_restores ty filename fs m" and "readable dev"
  shows "\<exists>db. RadishDB_new ty filename Flush dev clock fs = (Inr db, fs) \<and> (\<forall>now k. RadishDB_Get now db k = m k)"
proof -
  from assms(1) obtain es tail where es: "fs (log_name filename) = Some (log_bytes ty es @ tail)" "torn_tail tail"
    "list_all (record_ok ty) es" "\<And>r i. replay_view False r i es Map.empty = plain_view m"
    unfolding log_restores_def by blast
  from open_existing [where fs = fs and filename = filename and ttl = "-1" and now = clock, OF assms(2) es(1-3)] obtain db where
    db: "RadishDB_new_ttl ty filename (-1) Flush dev clock fs = (Inr db, fs)"
    "LogWriter_Replay_loop clock 0 es (RadishStore_new (-1)) = Inr (m_store db)" by blast
  from Replay_loop_view [OF record_ok_events [OF es(3)] store_ok_new, of clock 0 "-1"] db(2) es(4)
  have "store_ok (m_store db)" "store_view (m_store db) = plain_view m" by auto
  then have "RadishDB_Get now db k = m k" for now k by (simp add: RadishDB_Get_def Get_view view_get_plain_view)
  with db(1) show ?thesis by (auto simp: RadishDB_new_is_ttl)
qed

lemma inv_restores: "db_inv ty filename (db, fs) m \<Longrightarrow> log_restores ty filename fs m"
  unfolding db_inv_def log_restores_def using torn_tail_Nil by (metis append_Nil2 snd_conv)

lemma restores_same: "log_restores ty filename fs m \<Longrightarrow> fs' (log_name filename) = fs (log_name filename) \<Longrightarrow> log_restores ty filename fs' m"
  by (simp add: log_restores_def)

text \<open>Part of a record behind a clean log: either it is unfinished, or it is the whole record.\<close>

lemma part_restores:
  assumes "db_inv ty filename (db, fs) m" and "record_ok ty e"
    and "\<And>now. event_view False now e (plain_view m) = plain_view m'"
    and "fs' (log_name filename) = Some (file_content fs (log_name filename) @ take n (frame ty e))"
  shows "log_restores ty filename fs' m \<or> log_restores ty filename fs' m'"
proof -
  from assms(1) obtain es where es: "fs (log_name filename) = Some (log_bytes ty es)" "list_all (record_ok ty) es"
      "\<And>r i. replay_view False r i es Map.empty = plain_view m"
    by (auto simp: db_inv_def)
  show ?thesis
  proof (cases "n < length (frame ty e)")
    case True
    with assms(4) es frame_prefix_torn [OF assms(2) True] have "log_restores ty filename fs' m"
      unfolding log_restores_def by (intro exI [of _ es] exI [of _ "take n (frame ty e)"]) (simp add: file_content_def)
    then show ?thesis ..
  next
    case False
    have "replay_view False r i (es @ [e]) Map.empty = plain_view m'" for r i
      by (simp add: replay_view_snoc es(3) assms(3))
    moreover have "fs' (log_name filename) = Some (log_bytes ty (es @ [e]))"
      using assms(4) es(1) False by (simp add: file_content_def log_bytes_def)
    ultimately have "log_restores ty filename fs' m'"
      unfolding log_restores_def using es(2) assms(2) by (intro exI [of _ "es @ [e]"] exI [of _ "[]"]) simp
    then show ?thesis ..
  qed
qed

lemma WriteRecord_part:
  assumes "record_ok ty e" and "LogWriter_WriteRecord ty e (ofstream room) = (r, os)"
  shows "\<exists>n. obuf os = take n (frame ty e)"
proof (cases room)
  case None
  with assms show ?thesis by (auto simp: WriteRecord_ok ostream_write_limited Let_def intro!: exI [of _ "length (frame ty e)"])
next
  case (Some n)
  with assms show ?thesis
    by (auto simp: WriteRecord_ok ostream_write_limited Let_def intro!: exI [of _ n] split: if_splits)
qed

lemma thrown_restores:
  assumes "db_inv ty filename (db, fs) m" and "call_ok ty c" and "db_call ty c T (db, fs) a (db', fs')" and "call_threw c a"
  shows "log_restores ty filename fs' m"
proof -
  note nt = db_inv_apply(3) [OF assms(1)]
  from assms(3) have "call_writes c" by (cases rule: db_call.cases) (use assms(4) in \<open>auto simp: call_threw_iff\<close>)
  moreover have "c \<noteq> CallCompact" using assms(4) by (simp add: call_threw_iff)
  ultimately obtain e now dev r where bu: "built c T db e" and co: "RadishDB_Commit ty now dev e (db, fs) = (r, (db', fs'))"
    and a: "a = answer_of (committed c) r"
    using db_call_writes [OF assms(3) nt] by blast
  obtain err where r: "r = Inl err" using a assms(4) by (cases r; cases c) (auto simp: call_threw_iff)
  have e: "event_ok ty e" using call_event(1) [OF bu assms(2) nt] by (simp add: record_ok_def)
  from failed_commit [OF assms(1) e co [unfolded r]] obtain tail where
    "fs' (log_name filename) = Some (file_content fs (log_name filename) @ tail)" "torn_tail tail" by blast
  moreover from assms(1) obtain es where "fs (log_name filename) = Some (log_bytes ty es)" "list_all (record_ok ty) es"
    "\<forall>r i. replay_view False r i es Map.empty = plain_view m"
    by (auto simp: db_inv_def)
  ultimately show ?thesis unfolding log_restores_def by (intro exI [of _ es] exI [of _ tail]) (simp add: file_content_def)
qed

lemma disk_at:
  assumes "pc_at ty c T y0 p y" and "\<not> log_mutex y0" and "db_inv ty filename (object y0, files y0) m" and "call_ok ty c"
  shows "log_restores ty filename (files y) m \<or> call_writes c \<and> log_restores ty filename (files y) (call_map c m)"
proof -
  note nt = db_inv_apply(3) [OF assms(3)] and rest = inv_restores [OF assms(3)]
  have per: "log_file log = log_name filename" if "m_persistence (object y0) = Some log" for log
    using db_inv_apply(1) [OF assms(3)] that by (auto simp: opened_def)
  show ?thesis
  proof (cases p)
    case (Writing r os k s)
    with assms(1) obtain log e and dev :: Device where log: "m_persistence (object y0) = Some log" and bu: "built c T (object y0) e"
      and w: "LogWriter_WriteRecord ty e (ofstream (dev_room dev)) = (r, os)" and g: "log_grown y0 log os k y" by auto
    note ev = call_event [OF bu assms(4) nt]
    obtain n where n: "obuf os = take n (frame ty e)" using WriteRecord_part [OF ev(1) w] by blast
    have "files y (log_name filename) = Some (file_content (files y0) (log_name filename) @ take (min k n) (frame ty e))"
      using g n per [OF log] by (simp add: log_grown_def)
    from part_restores [where m' = "call_map c m" and fs' = "files y" and m = m, OF assms(3) ev(1) call_event(4) [OF bu assms(4) nt] this] built_writes [OF bu] show ?thesis by blast
  next
    case (Swapping s)
    with assms(1) obtain e dev fs1 where bu: "built c T (object y0) e" and y: "y = y0\<lparr>files := fs1\<rparr>"
      and app: "case m_persistence (object y0) of None \<Rightarrow> fs1 = files y0
        | Some log \<Rightarrow> PersistenceLog_Append ty log dev e (files y0) = (Inr (), fs1)" by auto
    note ev = call_event [OF bu assms(4) nt]
    obtain log where log: "m_persistence (object y0) = Some log"
      using db_inv_apply(1) [OF assms(3)] by (auto simp: opened_def)
    from assms(3) obtain es where es: "files y0 (log_file log) = Some (log_bytes ty es)"
      using per [OF log] by (auto simp: db_inv_def)
    from app log have "LogWriter_Append ty (m_writer log) dev e (files y0) = (Inr (), fs1)" by (simp add: PersistenceLog_Append_def)
    from Append_Inr [OF es _ this] ev(1) have "fs1 (log_file log) = Some (log_bytes ty (es @ [e]))" by (simp add: record_ok_def)
    then have "files y (log_name filename) = Some (file_content (files y0) (log_name filename) @ take (length (frame ty e)) (frame ty e))"
      using per [OF log] y es by (simp add: file_content_def log_bytes_def)
    from part_restores [where m' = "call_map c m" and fs' = "files y" and m = m, OF assms(3) ev(1) call_event(4) [OF bu assms(4) nt] this] built_writes [OF bu] show ?thesis by blast
  next
    case (Leave a)
    with assms(1) have call: "db_call ty c T (object y0, files y0) a (object y, files y)" by (simp add: db_atomic_def)
    show ?thesis
    proof (cases "call_threw c a")
      case True
      with thrown_restores [OF assms(3,4) call] show ?thesis by blast
    next
      case False
      have "log_restores ty filename (files y) (call_map c m)"
        by (rule inv_restores [OF db_inv_call(1) [OF assms(3,4) call False]])
      moreover have "call_map c m = m" if "\<not> call_writes c" using that by (cases c) simp_all
      ultimately show ?thesis by (cases "call_writes c") auto
    qed
  qed (use assms(1) rest per in \<open>auto simp: tmp_grown_def intro: restores_same\<close>)
qed

section \<open>Runs of threads\<close>

lemma serial_spec:
  assumes "serial_calls ty st h st'" and "db_inv ty filename st m0"
    and "\<forall>(t, c, T, a) \<in> set h. call_ok ty c \<and> \<not> call_threw c a"
  shows "\<exists>m. spec_calls m0 h m \<and> db_inv ty filename st' m"
  using assms
proof (induction rule: serial.induct)
  case none
  then show ?case using spec_calls.none by blast
next
  case (next_call h s1 c T a s2 t)
  then obtain m where m: "spec_calls m0 h m" "db_inv ty filename (fst s1, snd s1) m" by auto
  have c: "call_ok ty c" "\<not> call_threw c a" using next_call.prems(2) by auto
  have "db_call ty c T (fst s1, snd s1) a s2" using next_call(2) by simp
  from db_inv_call [OF m(2) c(1) this c(2)] spec_calls.next_call [OF m(1)] show ?case by blast
qed

lemma threads_spec:
  assumes "db_inv ty filename st m0" and "threads_reach ty st y" and "\<forall>c \<in> calls_made (trace y). call_ok ty c"
    and "no_failure (trace y)"
  shows "\<exists>m. spec_calls m0 (answers (trace y)) m \<and> (exclusive (mutex y) = None \<longrightarrow> db_inv ty filename (database_of y) m) \<and>
    (log_restores ty filename (files (shared y)) m \<or>
     (\<exists>t c. inside (thread y t) = Some c \<and> call_writes c \<and> log_restores ty filename (files (shared y)) (call_map c m)))"
proof -
  let ?s0 = "\<lparr>object = fst st, files = snd st, log_mutex = False\<rparr>"
  note reach = assms(2) [unfolded threads_reach_def]
  from db_calls.reach_inv [OF reach] obtain s1 where inv: "db_calls.system_inv ty ?s0 y s1" by auto
  have h: "\<forall>(t, c, T, a) \<in> set (answers (trace y)). call_ok ty c \<and> \<not> call_threw c a"
    using assms(3,4) reach_invoked(2) [OF reach] by (fastforce simp: no_failure_def calls_made_def)
  have "serial (db_atomic ty) ?s0 (answers (trace y)) s1" "\<not> log_mutex s1"
    using inv by (simp_all add: db_calls.system_inv_def)
  from serial_spec [OF serial_db_atomic [OF this(1)] _ h, of filename m0] assms(1) obtain m where
    m: "spec_calls m0 (answers (trace y)) m" "db_inv ty filename (object s1, files s1) m" by auto
  show ?thesis
  proof (cases "exclusive (mutex y)")
    case None
    then have "shared y = s1" using inv by (simp add: db_calls.system_inv_def)
    with m inv_restores [OF m(2)] show ?thesis by (auto simp: database_of_def)
  next
    case (Some t)
    then obtain c where c: "inside (thread y t) = Some c" "call_writes c"
      using reach_holders [OF reach] unfolding holders_ok_def by blast
    then obtain T l where "thread y t = Inside c T l" by (auto simp: inside_Some)
    then have "solo (\<lambda>_. Enter) (db_body ty) c s1 T l (shared y)" using inv by (simp add: db_calls.system_inv_def)
    from solo_at [OF this \<open>\<not> log_mutex s1\<close>] have "pc_at ty c T s1 l (shared y)" ..
    moreover have "call_ok ty c" using assms(3) reach_invoked(1) [OF reach c(1)] by (auto simp: calls_made_def)
    ultimately have "log_restores ty filename (files (shared y)) m \<or>
        call_writes c \<and> log_restores ty filename (files (shared y)) (call_map c m)"
      by (rule disk_at [OF _ \<open>\<not> log_mutex s1\<close> m(2)])
    with m(1) c Some show ?thesis by auto
  qed
qed

section \<open>Properties\<close>

text \<open>
  (C5) Any number of threads work on a database without a time to live that a run from an empty log
  has reached. Their keys and values fit into a record, their renames are onto another key, and none of
  the mutations answered so far threw (compactions may throw). Then they are answered as by a map
  that the answered calls update one after the other, and a process that dies at any instant, between any two
  statements and with any part of a record or of a compacted log on disk, leaves files from which the
  next start restores that map, or the map after the one mutation that was in progress.
\<close>

theorem crash_at_any_instant_restores_map:
  assumes "db_reach ty filename st m0" and "threads_reach ty st y" and "\<forall>c \<in> calls_made (trace y). call_ok ty c"
    and "no_failure (trace y)" and "readable dev"
  shows "\<exists>m m' db. spec_calls m0 (answers (trace y)) m \<and>
    (m' = m \<or> (\<exists>t c. inside (thread y t) = Some c \<and> call_writes c \<and> m' = call_map c m)) \<and>
    RadishDB_new ty filename Flush dev clock (files (shared y)) = (Inr db, files (shared y)) \<and>
    (\<forall>now k. RadishDB_Get now db k = m' k)"
proof -
  from threads_spec [OF db_reach_inv [OF assms(1)] assms(2-4)] obtain m m' where
    m: "spec_calls m0 (answers (trace y)) m" "log_restores ty filename (files (shared y)) m'"
      "m' = m \<or> (\<exists>t c. inside (thread y t) = Some c \<and> call_writes c \<and> m' = call_map c m)" by blast
  from log_restores_open [OF m(2) assms(5), of clock] m(1,3) show ?thesis by blast
qed

text \<open>A process that dies when one byte of the record of a first \<^verbatim>\<open>Create\<close> is on disk.\<close>

lemma reach_inside:
  assumes "threads_reach ty st y" and "thread y t = Inside c T l" and "db_body ty c (wall_clock y) (l, shared y) (l', s')"
  shows "\<exists>y' T'. threads_reach ty st y' \<and> thread y' t = Inside c T' l' \<and> shared y' = s' \<and> trace y' = trace y \<and> wall_clock y' = wall_clock y"
proof -
  let ?y = "y\<lparr>thread := (thread y)(t := Inside c (T @ [wall_clock y]) l'), shared := s'\<rparr>"
  have "threads_reach ty st ?y"
    using assms unfolding threads_reach_def by (blast intro: system_reach.runs system_step.advances advance.steps)
  then show ?thesis by (intro exI [of _ ?y]) simp
qed

fun db_steps :: "TType \<Rightarrow> Choice \<Rightarrow> Call \<Rightarrow> Timestamp \<Rightarrow> nat \<Rightarrow> Pc \<times> Db_Object \<Rightarrow> (Pc \<times> Db_Object) option" where
  "db_steps ty ch c now 0 x = Some x"
| "db_steps ty ch c now (Suc n) x = (case db_step ty ch c now x of None \<Rightarrow> None | Some x' \<Rightarrow> db_steps ty ch c now n x')"

lemma reach_db_steps:
  assumes "db_steps ty demo_choice c (wall_clock y) n (l, shared y) = Some (l', s')" and "threads_reach ty st y" and "thread y t = Inside c T l"
  shows "\<exists>y' T'. threads_reach ty st y' \<and> thread y' t = Inside c T' l' \<and> shared y' = s' \<and> trace y' = trace y"
  using assms
proof (induction n arbitrary: y l T)
  case 0
  then show ?case by auto
next
  case (Suc n)
  then obtain l1 s1 where step: "db_step ty demo_choice c (wall_clock y) (l, shared y) = Some (l1, s1)"
    and rest: "db_steps ty demo_choice c (wall_clock y) n (l1, s1) = Some (l', s')"
    by (auto split: option.splits)
  have "db_body ty c (wall_clock y) (l, shared y) (l1, s1)"
    unfolding db_body_def using step demo_orders by blast
  from reach_inside [OF Suc.prems(2,3) this] obtain y1 T1 where y1: "threads_reach ty st y1" "thread y1 t = Inside c T1 l1"
    "shared y1 = s1" "trace y1 = trace y" "wall_clock y1 = wall_clock y" by blast
  with Suc.IH [of y1 l1 T1] rest show ?case by auto
qed

lemma demo_torn_create:
  assumes "opened ''db'' db" and "m_store db = RadishStore_new (-1)" and "fs (log_name ''db'') = Some (log_bytes std_string [])"
  obtains y where "threads_reach std_string (db, fs) y" and "trace y = [Invoked 0 (CallCreate ''k'' ''v'')]"
    and "files (shared y) (log_name ''db'') = Some (log_bytes std_string [] @ take 1 (frame std_string (create_event (-1) ''k'' ''v'')))"
proof -
  let ?c = "CallCreate ''k'' ''v''" and ?e = "create_event (-1) ''k'' ''v''"
  let ?x = "\<lparr>object = db, files = fs, log_mutex = False\<rparr>"
  let ?y = "(system_start 7 ?x :: (Call, Pc, Db_Object, Answer) system)\<lparr>mutex := acquire True 0 shared_mutex_new,
    thread := (\<lambda>_. Outside)(0 := Inside ?c [] Enter), trace := [Invoked 0 ?c]\<rparr>"
  obtain log where log: "m_persistence db = Some log" "log_file log = log_name ''db''" using assms(1) by (auto simp: opened_def)
  have ok: "record_ok std_string ?e" by (rule small_record_ok) simp_all
  let ?w = "ostream_write (frame std_string ?e) (ofstream None)"
  have w: "LogWriter_WriteRecord std_string ?e (ofstream None) = (Inr (), ?w)" "obuf ?w = frame std_string ?e"
    using WriteRecord_ok [OF ok, of "ofstream None"] by (simp_all add: ostream_write_limited)
  obtain s where s: "LogWriter_ApplyEvent 7 (RadishStore_new (-1)) ?e = Inr (True, s)" using ApplyEvent_create by blast
  have enter: "db_step std_string demo_choice ?c 7 (Enter, ?x) = Some (Built ?e, ?x)"
    using assms(2) by (simp add: store_of_def RadishStore_NewExpiryTimestamp_def RadishStore_HasTimeToLive_def RadishStore_new_def)
  have "db_step std_string demo_choice ?c 7 (Staged ?e (RadishStore_new (-1)), ?x) = Some (Applying ?e (RadishStore_new (-1)), ?x\<lparr>log_mutex := True\<rparr>)"
    "db_step std_string demo_choice ?c 7 (Applying ?e (RadishStore_new (-1)), ?x\<lparr>log_mutex := True\<rparr>) = Some (Applied ?e True s, ?x)"
    "db_step std_string demo_choice ?c 7 (Applied ?e True s, ?x) = Some (Opening ?e s, ?x\<lparr>log_mutex := True\<rparr>)"
    "db_step std_string demo_choice ?c 7 (Opening ?e s, ?x\<lparr>log_mutex := True\<rparr>) =
      Some (Writing (Inr ()) ?w 0 s, ?x\<lparr>log_mutex := True, files := fs(log_name ''db'' \<mapsto> log_bytes std_string [])\<rparr>)"
    using log s w assms(3) by (simp_all add: apply_step_def applying_step_def applied_step_def opening_step_def PersistenceLog_Apply_def
        demo_choice_def healthy_def file_content_def)
  moreover have "db_step std_string demo_choice ?c 7 (Built ?e, ?x) = Some (Staged ?e (RadishStore_new (-1)), ?x)"
    using assms(2) by (simp add: store_of_def)
  moreover have "db_step std_string demo_choice ?c 7 (Writing (Inr ()) ?w 0 s, ?x\<lparr>log_mutex := True, files := fs(log_name ''db'' \<mapsto> log_bytes std_string [])\<rparr>) =
      Some (Writing (Inr ()) ?w 1 s, ?x\<lparr>log_mutex := True,
        files := fs(log_name ''db'' \<mapsto> log_bytes std_string [] @ take 1 (frame std_string ?e))\<rparr>)"
    using log w by (simp add: writing_step_def more_bytes_def demo_choice_def file_content_def frame_def event_bytes_def)
  ultimately have "db_steps std_string demo_choice ?c 7 7 (Enter, ?x) =
      Some (Writing (Inr ()) ?w 1 s, ?x\<lparr>log_mutex := True,
        files := fs(log_name ''db'' \<mapsto> log_bytes std_string [] @ take 1 (frame std_string ?e))\<rparr>)"
    using enter by (simp only: eval_nat_numeral BitM.simps db_steps.simps option.case)
  moreover have "threads_reach std_string (db, fs) ?y"
  proof (rule schedule_reach)
    show "schedule std_string demo_choice [(0, Some ?c), (0, None)] (system_start 7 ?x) = Some ?y"
      by (simp add: system_start_def run_thread_def shared_mutex_new_def may_acquire_def)
    show "threads_reach std_string (db, fs) (system_start 7 ?x)" by (simp add: threads_reach_def system_reach.starts)
  qed (rule demo_orders)+
  ultimately show thesis
    using reach_db_steps [of std_string ?c ?y 7 Enter _ _ "(db, fs)" 0 "[]"] that by (fastforce simp: system_start_def)
qed

theorem crash_at_any_instant_restores_map_witness:
  "\<exists>st y db. db_reach std_string ''db'' st Map.empty \<and> threads_reach std_string st y \<and>
     files (shared y) (log_name ''db'') = Some (log_bytes std_string [] @ take 1 (frame std_string (create_event (-1) ''k'' ''v''))) \<and>
     RadishDB_new std_string ''db'' Flush healthy (\<lambda>_. 0) (files (shared y)) = (Inr db, files (shared y)) \<and>
     RadishDB_Get 9 db ''other'' = None"
proof -
  obtain db0 where n: "RadishDB_new std_string ''db'' Flush healthy (\<lambda>_. 0) Map.empty = (Inr db0, [log_name ''db'' \<mapsto> log_bytes std_string []])"
    and db0: "opened ''db'' db0" "m_store db0 = RadishStore_new (-1)"
    using open_fresh [OF readable_healthy, of Map.empty "''db''" std_string "-1" "\<lambda>_. 0"]
    by (auto simp: writable_def healthy_def RadishDB_new_is_ttl)
  let ?fs = "[log_name ''db'' \<mapsto> log_bytes std_string []]"
  have r: "db_reach std_string ''db'' (db0, ?fs) Map.empty" by (rule db_reach.start [OF _ n]) simp
  obtain y where y: "threads_reach std_string (db0, ?fs) y" "trace y = [Invoked 0 (CallCreate ''k'' ''v'')]"
    "files (shared y) (log_name ''db'') = Some (log_bytes std_string [] @ take 1 (frame std_string (create_event (-1) ''k'' ''v'')))"
    by (rule demo_torn_create [OF db0, of ?fs]) simp
  have "record_ok std_string (create_event (-1) ''k'' ''v'')" by (rule small_record_ok) simp_all
  then have "\<forall>c \<in> calls_made (trace y). call_ok std_string c" "no_failure (trace y)"
    by (simp_all add: y(2) calls_made_def no_failure_def)
  from crash_at_any_instant_restores_map [OF r y(1) this readable_healthy, of "\<lambda>_. 0"] obtain m m' db where
    m: "spec_calls Map.empty (answers (trace y)) m"
      "m' = m \<or> (\<exists>t c. inside (thread y t) = Some c \<and> call_writes c \<and> m' = call_map c m)"
      "RadishDB_new std_string ''db'' Flush healthy (\<lambda>_. 0) (files (shared y)) = (Inr db, files (shared y))"
      "\<forall>now k. RadishDB_Get now db k = m' k"
    by blast
  have "m = Map.empty" using m(1) unfolding y(2) answers.simps by (rule spec_calls_NilE) simp
  moreover have "c = CallCreate ''k'' ''v''" if "inside (thread y t) = Some c" for t c
    using reach_invoked(1) [OF y(1) [unfolded threads_reach_def] that] by (simp add: y(2))
  ultimately have "m' = Map.empty \<or> m' = call_map (CallCreate ''k'' ''v'') Map.empty" using m(2) by metis
  then have "m' ''other'' = None" by auto
  with m(3,4) r y(1,3) show ?thesis by metis
qed

end
