(* ===== verification/Double_Rounding.thy ===== *)
theory Double_Rounding
  imports Radish_Prelude Complex_Main
begin

text \<open>
  The arithmetic of \<^verbatim>\<open>double\<close> that \<^verbatim>\<open>include/benchmark/BenchmarkStatistics.h\<close>
  uses: a finite number is a rational, and the result of an operation is the exact result rounded to
  53 significant bits, ties to even. The exponent is not bounded: the program only forms quotients and
  products of counts, nanoseconds and constants, which lie far inside of the range of the format.

  Shown here: rounding is monotone, exact on small integers, and its relative error is at most
  \<open>2 ^ -53\<close>.
\<close>

type_synonym double = rat

section \<open>Rounding\<close>

function log2_int :: "int \<Rightarrow> nat" where
  "log2_int n = (if n < 2 then 0 else Suc (log2_int (n div 2)))"
  by auto
termination by (relation "measure nat") auto

declare log2_int.simps [simp del]

text \<open>The binary exponent of a positive rational.\<close>

definition exponent :: "rat \<Rightarrow> int" where
  "exponent x =
     (let (a, b) = quotient_of x;
          e = int (log2_int a) - int (log2_int b)
      in if 2 powi e \<le> x then e else e - 1)"

definition round_even :: "rat \<Rightarrow> int" where
  "round_even x =
     (let f = \<lfloor>x\<rfloor>; d = x - of_int f
      in if d < 1 / 2 then f else if 1 / 2 < d then f + 1 else if even f then f else f + 1)"

definition to_double :: "rat \<Rightarrow> double" where
  "to_double x =
     (if x = 0 then 0
      else let unit = 2 powi (exponent \<bar>x\<bar> - 52) in of_int (round_even (x / unit)) * unit)"

abbreviation double_of_int :: "int \<Rightarrow> double" where
  "double_of_int i \<equiv> to_double (of_int i)"

definition double_mult :: "double \<Rightarrow> double \<Rightarrow> double" where
  "double_mult x y = to_double (x * y)"

definition double_divide :: "double \<Rightarrow> double \<Rightarrow> double" where
  "double_divide x y = to_double (x / y)"

section \<open>Lemmas\<close>

lemma log2_int_bounds: "0 < n \<Longrightarrow> 2 ^ log2_int n \<le> n \<and> n < 2 ^ Suc (log2_int n)"
proof (induction n rule: log2_int.induct)
  case (1 n)
  show ?case
  proof (cases "n < 2")
    case True
    with 1 show ?thesis by (simp add: log2_int.simps)
  next
    case False
    with 1 have "2 ^ log2_int (n div 2) \<le> n div 2" "n div 2 < 2 ^ Suc (log2_int (n div 2))" by simp_all
    then have "2 * 2 ^ log2_int (n div 2) \<le> n" "n < 2 * 2 ^ Suc (log2_int (n div 2))" by linarith+
    with False show ?thesis by (subst (1 2) log2_int.simps) simp
  qed
qed

lemma exponent_bounds:
  assumes "0 < x"
  shows "2 powi exponent x \<le> x" and "x < 2 powi (exponent x + 1)"
proof -
  obtain a b where q: "quotient_of x = (a, b)" by (cases "quotient_of x") auto
  from q have b: "0 < b" by (rule quotient_of_denom_pos)
  from q have x: "x = of_int a / of_int b" by (rule quotient_of_div)
  with assms b have a: "0 < a" by (simp add: zero_less_divide_iff)
  define i j where "i = log2_int a" and "j = log2_int b"
  from log2_int_bounds [OF a] have ia: "2 ^ i \<le> a" "a < 2 ^ Suc i" by (simp_all add: i_def)
  from log2_int_bounds [OF b] have jb: "2 ^ j \<le> b" "b < 2 ^ Suc j" by (simp_all add: j_def)
  have A1: "(2::rat) ^ i \<le> of_int a" and A2: "of_int a < (2::rat) ^ Suc i"
    using ia by (metis of_int_le_iff of_int_less_iff of_int_numeral of_int_power)+
  have B1: "(2::rat) ^ j \<le> of_int b" and B2: "of_int b < (2::rat) ^ Suc j"
    using jb by (metis of_int_le_iff of_int_less_iff of_int_numeral of_int_power)+
  define e where "e = int i - int j"
  have p0: "(2::rat) powi e = 2 ^ i / 2 ^ j" by (simp add: e_def power_int_diff)
  have pm: "(2::rat) powi (e - 1) = 2 ^ i / 2 ^ Suc j" by (simp add: p0 power_int_diff)
  have pp: "(2::rat) powi (e + 1) = 2 ^ Suc i / 2 ^ j" by (simp add: p0 power_int_add)
  have lo: "2 powi (e - 1) \<le> x"
    unfolding pm x using A1 B2 a b by (intro frac_le) simp_all
  have hi: "x < 2 powi (e + 1)"
    unfolding pp x using A2 B1 a b by (intro frac_less) simp_all
  have ex: "exponent x = (if 2 powi e \<le> x then e else e - 1)"
    by (simp add: exponent_def q e_def i_def j_def)
  show "2 powi exponent x \<le> x" using lo by (simp add: ex)
  show "x < 2 powi (exponent x + 1)" using hi by (simp add: ex)
qed

lemma powi_less_imp_less: "(2::rat) powi m < 2 powi n \<Longrightarrow> m < n"
  using power_int_increasing [of n m "2::rat"] by (cases "m < n") simp_all

lemma exponent_mono:
  assumes "0 < x" and "x \<le> y"
  shows "exponent x \<le> exponent y"
proof -
  have "(2::rat) powi exponent x < 2 powi (exponent y + 1)"
    using exponent_bounds(1) [OF assms(1)] exponent_bounds(2) [of y] assms by linarith
  from powi_less_imp_less [OF this] show ?thesis by simp
qed

lemma round_even_error: "\<bar>of_int (round_even x) - x\<bar> \<le> 1 / 2"
proof -
  have "of_int \<lfloor>x\<rfloor> \<le> x" "x < of_int \<lfloor>x\<rfloor> + 1" by linarith+
  then show ?thesis unfolding round_even_def Let_def by (simp add: abs_le_iff field_simps)
qed

lemma round_even_of_int [simp]: "round_even (of_int i) = i"
  by (simp add: round_even_def)

lemma round_even_mono:
  assumes "x \<le> y"
  shows "round_even x \<le> round_even y"
proof (cases "\<lfloor>x\<rfloor> = \<lfloor>y\<rfloor>")
  case True
  with assms show ?thesis by (auto simp: round_even_def Let_def)
next
  case False
  with assms have "\<lfloor>x\<rfloor> + 1 \<le> \<lfloor>y\<rfloor>" using floor_mono [OF assms] by linarith
  moreover have "round_even x \<le> \<lfloor>x\<rfloor> + 1" "\<lfloor>y\<rfloor> \<le> round_even y" by (simp_all add: round_even_def Let_def)
  ultimately show ?thesis by linarith
qed

lemma to_double_0 [simp]: "to_double 0 = 0"
  by (simp add: to_double_def)

lemma to_double_error:
  assumes "0 \<le> x"
  shows "\<bar>to_double x - x\<bar> \<le> x / 2 ^ 53"
proof (cases "x = 0")
  case False
  with assms have x: "0 < x" by simp
  define u where "u = (2::rat) powi (exponent x - 52)"
  have u: "0 < u" by (simp add: u_def)
  have "\<bar>of_int (round_even (x / u)) - x / u\<bar> * u \<le> 1 / 2 * u"
    by (rule mult_right_mono) (use u round_even_error in auto)
  then have "\<bar>of_int (round_even (x / u)) * u - x\<bar> \<le> u / 2"
    using u by (simp add: abs_mult_pos' [symmetric] field_simps abs_mult)
  moreover have "u / 2 \<le> x / 2 ^ 53"
    using exponent_bounds(1) [OF x] by (simp add: u_def power_int_diff field_simps)
  moreover have "to_double x = of_int (round_even (x / u)) * u" using x by (simp add: to_double_def Let_def u_def)
  ultimately show ?thesis by linarith
qed simp

text \<open>Below and at a power of two the rounding stays there.\<close>

lemma to_double_bounds:
  assumes "0 < x"
  shows "2 powi exponent x \<le> to_double x" and "to_double x \<le> 2 powi (exponent x + 1)"
proof -
  define u where "u = (2::rat) powi (exponent x - 52)"
  have u: "0 < u" by (simp add: u_def)
  have d: "to_double x = of_int (round_even (x / u)) * u" using assms by (simp add: to_double_def Let_def u_def)
  have lo: "of_int (2 ^ 52) * u = 2 powi exponent x" and hi: "of_int (2 ^ 53) * u = 2 powi (exponent x + 1)"
    by (simp_all add: u_def power_int_diff power_int_add)
  have "of_int (2 ^ 52) \<le> x / u" "x / u \<le> of_int (2 ^ 53)"
    using exponent_bounds [OF assms] lo hi u by (simp_all add: field_simps)
  then have r: "2 ^ 52 \<le> round_even (x / u)" "round_even (x / u) \<le> 2 ^ 53"
    using round_even_mono [of "of_int (2 ^ 52)" "x / u"] round_even_mono [of "x / u" "of_int (2 ^ 53)"]
    unfolding round_even_of_int by blast+
  show "2 powi exponent x \<le> to_double x" unfolding d lo [symmetric]
    by (rule mult_right_mono) (use r(1) u in \<open>simp_all only: of_int_le_iff less_imp_le\<close>)
  show "to_double x \<le> 2 powi (exponent x + 1)" unfolding d hi [symmetric]
    by (rule mult_right_mono) (use r(2) u in \<open>simp_all only: of_int_le_iff less_imp_le\<close>)
qed

lemma to_double_nonneg: "0 \<le> x \<Longrightarrow> 0 \<le> to_double x"
  using to_double_bounds(1) [of x] by (cases "x = 0") (auto intro: order_trans [rotated])

lemma to_double_pos: "0 < x \<Longrightarrow> 0 < to_double x"
  using to_double_bounds(1) [of x] by (auto intro: less_le_trans [rotated])

lemma to_double_mono:
  assumes "0 \<le> x" and "x \<le> y"
  shows "to_double x \<le> to_double y"
proof (cases "x = 0")
  case True
  with assms to_double_nonneg show ?thesis by simp
next
  case False
  with assms have x: "0 < x" and y: "0 < y" by simp_all
  show ?thesis
  proof (cases "exponent x = exponent y")
    case True
    define u where "u = (2::rat) powi (exponent x - 52)"
    have "x / u \<le> y / u" using assms(2) by (simp add: u_def divide_right_mono)
    then have "of_int (round_even (x / u)) * u \<le> of_int (round_even (y / u)) * u"
      by (intro mult_right_mono) (simp_all add: round_even_mono u_def)
    with x y True show ?thesis by (simp add: to_double_def Let_def u_def)
  next
    case False
    with exponent_mono [OF x assms(2)] have "exponent x + 1 \<le> exponent y" by simp
    then have "(2::rat) powi (exponent x + 1) \<le> 2 powi exponent y" by (simp add: power_int_increasing)
    with to_double_bounds(2) [OF x] to_double_bounds(1) [OF y] show ?thesis by linarith
  qed
qed

lemma to_double_of_int:
  assumes "0 \<le> i" and "i < 2 ^ 53"
  shows "double_of_int i = of_int i"
proof (cases "i = 0")
  case False
  with assms have i: "0 < i" by simp
  have "(2::rat) powi exponent (of_int i) < 2 powi 53"
  proof -
    have "(of_int i :: rat) < of_int (2 ^ 53)" using assms(2) by (simp only: of_int_less_iff)
    with exponent_bounds(1) [of "of_int i"] i show ?thesis by simp
  qed
  then have "exponent (of_int i) < 53" by (rule powi_less_imp_less)
  then obtain k where k: "exponent (of_int i) - 52 = - int k" using that [of "nat (52 - exponent (of_int i))"] by simp
  define u where "u = (2::rat) powi (exponent (of_int i) - 52)"
  have u: "u = 1 / 2 ^ k" unfolding u_def k by (simp add: power_int_minus divide_inverse)
  then have "of_int i / u = of_int (i * 2 ^ k)" by simp
  then have "of_int (round_even (of_int i / u)) * u = of_int i" unfolding u using round_even_of_int [of "i * 2 ^ k"] by simp
  with i show ?thesis by (simp add: to_double_def Let_def u_def)
qed simp

end
