(* ===== verification/Bench_Statistics.thy ===== *)
theory Bench_Statistics
  imports Double_Rounding
begin

text \<open>
  \<^verbatim>\<open>include/benchmark/BenchmarkStatistics.h\<close>: throughput, minimum, mean, percentiles and maximum
  of a list of latencies in nanoseconds.

  Shown here: for fewer than \<open>2 ^ 44\<close> samples the rounding of \<^verbatim>\<open>percentile * samples.size()\<close> never
  selects a wrong sample, so each percentile is the least sample such that at least that part of the
  samples is not greater; the results are in order; the mean is exact up to three roundings.
\<close>

section \<open>Definitions\<close>

record BenchmarkStatistics =
  bs_operations :: nat
  bs_errors :: nat
  bs_throughput :: double
  bs_minimumMilliseconds :: double
  bs_meanMilliseconds :: double
  bs_p50Milliseconds :: double
  bs_p99Milliseconds :: double
  bs_p995Milliseconds :: double
  bs_maximumMilliseconds :: double

text \<open>A number of nanoseconds is a signed 64-bit integer; the sum of two may overflow.\<close>

type_synonym BenchmarkNanoseconds = int

definition add_ns :: "BenchmarkNanoseconds \<Rightarrow> BenchmarkNanoseconds \<Rightarrow> BenchmarkNanoseconds result" where
  "add_ns a b =
     (if - (2 ^ 63) \<le> a + b \<and> a + b < 2 ^ 63 then Inr (a + b) else Inl (UndefinedBehaviour ''signed overflow''))"

text \<open>\<^verbatim>\<open>duration_cast\<close> from nanoseconds to milliseconds as a \<^verbatim>\<open>double\<close> divides by 1000000.\<close>

definition BenchmarkMilliseconds :: "BenchmarkNanoseconds \<Rightarrow> double" where
  "BenchmarkMilliseconds v = double_divide (double_of_int v) (double_of_int 1000000)"

definition BenchmarkPercentile :: "BenchmarkNanoseconds list \<Rightarrow> double \<Rightarrow> BenchmarkNanoseconds result" where
  "BenchmarkPercentile samples percentile =
     (let rank = nat \<lceil>double_mult percentile (double_of_int (int (length samples)))\<rceil>;
          index = max rank 1 - 1
      in if index < length samples then Inr (samples ! index) else Inl (UndefinedBehaviour ''vector index out of range''))"

fun total_loop :: "BenchmarkNanoseconds list \<Rightarrow> BenchmarkNanoseconds \<Rightarrow> BenchmarkNanoseconds result" where
  "total_loop [] acc = Inr acc"
| "total_loop (sample # samples) acc = rbind (add_ns acc sample) (total_loop samples)"

definition p50 :: double where "p50 = to_double (50 / 100)"
definition p99 :: double where "p99 = to_double (99 / 100)"
definition p995 :: double where "p995 = to_double (995 / 1000)"

definition CalculateBenchmarkStatistics :: "BenchmarkNanoseconds list \<Rightarrow> nat \<Rightarrow> double \<Rightarrow> BenchmarkStatistics result" where
  "CalculateBenchmarkStatistics samples0 errors durationSeconds =
     (if samples0 = [] \<or> durationSeconds \<le> 0
      then Inl (InvalidArgument ''Benchmark statistics require samples and positive duration'')
      else
        let samples = sort samples0;
            n = double_of_int (int (length samples))
        in rbind (total_loop samples 0) (\<lambda>tot.
           rbind (BenchmarkPercentile samples p50) (\<lambda>v50.
           rbind (BenchmarkPercentile samples p99) (\<lambda>v99.
           rbind (BenchmarkPercentile samples p995) (\<lambda>v995.
             Inr \<lparr>bs_operations = length samples, bs_errors = errors, bs_throughput = double_divide n durationSeconds,
               bs_minimumMilliseconds = BenchmarkMilliseconds (hd samples),
               bs_meanMilliseconds = double_divide (BenchmarkMilliseconds tot) n,
               bs_p50Milliseconds = BenchmarkMilliseconds v50,
               bs_p99Milliseconds = BenchmarkMilliseconds v99,
               bs_p995Milliseconds = BenchmarkMilliseconds v995,
               bs_maximumMilliseconds = BenchmarkMilliseconds (last samples)\<rparr>)))))"

section \<open>Specification\<close>

text \<open>The least sample such that at least the part \<open>p\<close> of all samples is not greater.\<close>

definition nearest_rank :: "rat \<Rightarrow> BenchmarkNanoseconds list \<Rightarrow> BenchmarkNanoseconds \<Rightarrow> bool" where
  "nearest_rank p samples v \<longleftrightarrow> v \<in> set samples \<and>
     p * of_nat (length samples) \<le> of_nat (length (filter (\<lambda>x. x \<le> v) samples)) \<and>
     (\<forall>u \<in> set samples. p * of_nat (length samples) \<le> of_nat (length (filter (\<lambda>x. x \<le> u) samples)) \<longrightarrow> v \<le> u)"

section \<open>Lemmas: the rank\<close>

lemma percentile_values:
  "p50 = 1 / 2" "p99 = 4458563631096791 / 4503599627370496" "p995 = 8962163258467287 / 9007199254740992"
  by (code_simp)+

text \<open>A percentile of 200ths that is rounded down selects the exact rank.\<close>

lemma rank_exact:
  assumes "0 < d" and "d \<le> p" and "p \<le> d + 1 / 2 ^ 54" and "p \<le> 1" and "p * 200 = of_int k" and "n < 2 ^ 44"
  shows "\<lceil>double_mult d (double_of_int (int n))\<rceil> = \<lceil>p * of_nat n\<rceil>"
proof (rule ceiling_unique)
  define N where "N = (of_nat n :: rat)"
  define x where "x = d * N"
  define r where "r = \<lceil>p * N\<rceil>"
  have N0: "0 \<le> N" by (simp add: N_def)
  have "of_nat n < (of_nat (2 ^ 44) :: rat)" using assms(6) by (simp only: of_nat_less_iff)
  then have N: "N < 2 ^ 44" by (simp add: N_def)
  from assms(6) have "n < 2 ^ 53" by (rule less_le_trans) simp
  then have "int n < int (2 ^ 53)" by (simp only: of_nat_less_iff)
  then have n: "int n < 2 ^ 53" by simp
  have m: "double_mult d (double_of_int (int n)) = to_double x"
    using to_double_of_int [OF of_nat_0_le_iff n] by (simp add: double_mult_def x_def N_def)
  have x0: "0 \<le> x" using assms(1) N0 by (simp add: x_def)
  have x1: "x \<le> p * N" unfolding x_def by (rule mult_right_mono [OF assms(2) N0])
  have pn: "p * N \<le> N" using mult_right_mono [OF assms(4) N0] by simp
  have r1: "p * N \<le> of_int r" unfolding r_def by (rule le_of_int_ceiling)
  with x0 x1 have "(of_int 0 :: rat) \<le> of_int r" unfolding of_int_0 by (meson order_trans)
  then have r0: "0 \<le> r" by (simp only: of_int_le_iff)
  have "r \<le> int n" unfolding r_def using pn by (simp add: ceiling_le_iff N_def)
  from this n have "r < 2 ^ 53" by (rule le_less_trans)
  with r0 have r: "double_of_int r = of_int r" by (rule to_double_of_int)
  from x1 r1 have "x \<le> of_int r" by (rule order_trans)
  from to_double_mono [OF x0 this] r show "double_mult d (double_of_int (int n)) \<le> of_int \<lceil>p * of_nat n\<rceil>"
    unfolding m r_def N_def by metis
  have k: "p * N * 200 = of_int (k * int n)" using assms(5) by (simp add: N_def mult.commute mult.left_commute)
  have "of_int r - 1 < p * N" unfolding r_def by linarith
  with k have "(of_int (200 * (r - 1)) :: rat) < of_int (k * int n)" by simp
  then have "200 * (r - 1) + 1 \<le> k * int n" unfolding of_int_less_iff by simp
  then have "(of_int (200 * (r - 1) + 1) :: rat) \<le> of_int (k * int n)" by (simp only: of_int_le_iff)
  with k have gap: "of_int r - 1 + 1 / 200 \<le> p * N" by simp
  have "p * N - x \<le> 1 / 2 ^ 54 * N"
    unfolding x_def left_diff_distrib [symmetric] by (rule mult_right_mono [OF _ N0]) (use assms(3) in linarith)
  moreover have "x - to_double x \<le> x / 2 ^ 53" using to_double_error [OF x0] by linarith
  moreover have "x / 2 ^ 53 \<le> N / 2 ^ 53" by (rule divide_right_mono) (use x1 pn in linarith, simp)
  ultimately have "p * N - to_double x \<le> 1 / 2 ^ 54 * N + N / 2 ^ 53" by linarith
  moreover have "1 / 2 ^ 54 * N + N / 2 ^ 53 \<le> 3 / 1024" using N by (simp add: field_simps)
  ultimately have "of_int r - 1 < to_double x" using gap by linarith
  then show "of_int \<lceil>p * of_nat n\<rceil> - 1 < double_mult d (double_of_int (int n))"
    unfolding m r_def N_def .
qed

section \<open>Lemmas: order statistics\<close>

lemma count_sort: "length (filter P (sort xs)) = length (filter P xs)"
  by (metis mset_filter mset_sort size_mset)

lemma sorted_count_le:
  assumes "sorted xs" and "i < length xs"
  shows "i < length (filter (\<lambda>x. x \<le> xs ! i) xs)"
proof -
  have "filter (\<lambda>x. x \<le> xs ! i) (take (Suc i) xs) = take (Suc i) xs"
    using assms by (auto simp: in_set_conv_nth intro!: filter_True sorted_nth_mono)
  then have "filter (\<lambda>x. x \<le> xs ! i) xs = take (Suc i) xs @ filter (\<lambda>x. x \<le> xs ! i) (drop (Suc i) xs)"
    by (metis append_take_drop_id filter_append)
  then show ?thesis using assms(2) by simp
qed

lemma sorted_count_less:
  assumes "sorted xs" and "i < length xs" and "u < xs ! i"
  shows "length (filter (\<lambda>x. x \<le> u) xs) \<le> i"
proof -
  have "xs ! i \<le> y" if "y \<in> set (drop i xs)" for y
    using assms(1,2) that by (auto simp: in_set_conv_nth intro!: sorted_nth_mono)
  with assms(3) have "filter (\<lambda>x. x \<le> u) (drop i xs) = []" by (fastforce simp: filter_empty_conv)
  then have "filter (\<lambda>x. x \<le> u) xs = filter (\<lambda>x. x \<le> u) (take i xs)"
    by (metis append_Nil2 append_take_drop_id filter_append)
  then show ?thesis using length_filter_le [of "\<lambda>x. x \<le> u" "take i xs"] by simp
qed

lemma sorted_ends:
  assumes "sorted xs" and "xs \<noteq> []"
  shows "hd xs = Min (set xs)" and "last xs = Max (set xs)"
proof -
  show "hd xs = Min (set xs)" by (rule Min_eqI [symmetric]) (use assms in \<open>cases xs; auto\<close>)+
  have "y \<le> last xs" if "y \<in> set xs" for y
    using assms that by (auto simp: in_set_conv_nth last_conv_nth intro: sorted_nth_mono)
  with assms(2) show "last xs = Max (set xs)" by (intro Max_eqI [symmetric]) simp_all
qed

lemma nearest_rank_nth:
  assumes "samples \<noteq> []" and "0 < p" and "p \<le> 1" and "i = nat \<lceil>p * of_nat (length samples)\<rceil> - 1"
  shows "i < length samples" and "nearest_rank p samples (sort samples ! i)"
proof -
  let ?n = "of_nat (length samples) :: rat"
  have n: "0 < ?n" using assms(1) by simp
  with assms(2) have pos: "0 < p * ?n" by simp
  then have r1: "1 \<le> \<lceil>p * ?n\<rceil>" by (simp add: le_ceiling_iff)
  have "p * ?n \<le> ?n" using assms(3) n by simp
  then have "\<lceil>p * ?n\<rceil> \<le> int (length samples)" by (simp add: ceiling_le_iff)
  with r1 assms(4) show i: "i < length samples" by linarith
  have i1: "int (Suc i) = \<lceil>p * ?n\<rceil>" using r1 assms(4) by simp
  let ?s = "sort samples" and ?v = "sort samples ! i"
  have "Suc i \<le> length (filter (\<lambda>x. x \<le> ?v) samples)"
    using sorted_count_le [of ?s i] i by (simp add: count_sort)
  moreover have "p * ?n \<le> of_nat (Suc i)" using le_of_int_ceiling [of "p * ?n"] i1 by (metis of_int_of_nat_eq)
  ultimately have enough: "p * ?n \<le> of_nat (length (filter (\<lambda>x. x \<le> ?v) samples))"
    by (meson of_nat_mono order_trans)
  have "?v \<le> u" if "p * ?n \<le> of_nat (length (filter (\<lambda>x. x \<le> u) samples))" for u
  proof (rule ccontr)
    assume "\<not> ?v \<le> u"
    then have "length (filter (\<lambda>x. x \<le> u) samples) \<le> i"
      using sorted_count_less [of ?s i u] i by (simp add: count_sort)
    moreover from that have "\<lceil>p * ?n\<rceil> \<le> int (length (filter (\<lambda>x. x \<le> u) samples))" by (simp add: ceiling_le_iff)
    ultimately show False using i1 by linarith
  qed
  moreover have "?v \<in> set samples" using i by (metis length_sort nth_mem set_sort)
  ultimately show "nearest_rank p samples ?v" using enough by (simp add: nearest_rank_def)
qed

lemma Percentile_exact:
  assumes "samples \<noteq> []" and "length samples < 2 ^ 44"
    and "0 < d" and "d \<le> p" and "p \<le> d + 1 / 2 ^ 54" and "p \<le> 1" and "p * 200 = of_int k"
  shows "BenchmarkPercentile (sort samples) d = Inr (sort samples ! (nat \<lceil>p * of_nat (length samples)\<rceil> - 1))"
proof -
  have "0 < p" using assms(3,4) by simp
  note i = nearest_rank_nth(1) [OF assms(1) this assms(6) refl]
  have "max (nat \<lceil>p * of_nat (length samples)\<rceil>) 1 - 1 = nat \<lceil>p * of_nat (length samples)\<rceil> - 1" by simp
  with i rank_exact [OF assms(3-7,2)] show ?thesis by (simp add: BenchmarkPercentile_def Let_def)
qed

section \<open>Lemmas: sums and means\<close>

lemma total_loop_sum: "total_loop xs acc = Inr t \<Longrightarrow> t = acc + sum_list xs"
  by (induction xs arbitrary: acc) (fastforce simp: add_ns_def result_simps split: if_splits)+

lemma total_loop_total:
  assumes "\<forall>x \<in> set xs. 0 \<le> x" and "0 \<le> acc" and "acc + sum_list xs < 2 ^ 63"
  shows "total_loop xs acc = Inr (acc + sum_list xs)"
  using assms
proof (induction xs arbitrary: acc)
  case (Cons x xs)
  then have "0 \<le> sum_list xs" by (simp add: sum_list_nonneg)
  with Cons show ?case by (simp add: add_ns_def)
qed simp

lemma ms_mono: "0 \<le> a \<Longrightarrow> a \<le> b \<Longrightarrow> BenchmarkMilliseconds a \<le> BenchmarkMilliseconds b"
  unfolding BenchmarkMilliseconds_def double_divide_def
  by (intro to_double_mono divide_right_mono divide_nonneg_pos to_double_nonneg to_double_pos) simp_all

text \<open>A value after \<open>k\<close> roundings.\<close>

definition rounded :: "nat \<Rightarrow> rat \<Rightarrow> rat \<Rightarrow> bool" where
  "rounded k y x \<longleftrightarrow> (1 - 1 / 2 ^ 53) ^ k * y \<le> x \<and> x \<le> (1 + 1 / 2 ^ 53) ^ k * y"

lemma rounded_step:
  assumes "rounded k y x" and "0 \<le> y"
  shows "rounded (Suc k) y (to_double x)"
proof -
  define u where "u = (1 / 2 ^ 53 :: rat)"
  have u: "0 \<le> 1 - u" "0 \<le> 1 + u" by (simp_all add: u_def)
  from assms(1) have b: "(1 - u) ^ k * y \<le> x" "x \<le> (1 + u) ^ k * y" by (simp_all add: rounded_def u_def)
  have "0 \<le> (1 - u) ^ k * y" using u(1) assms(2) by simp
  with b(1) have "0 \<le> x" by simp
  from to_double_error [OF this] have "\<bar>to_double x - x\<bar> \<le> x * u" by (simp add: u_def)
  then have "x - x * u \<le> to_double x" "to_double x \<le> x + x * u" by linarith+
  moreover have "(1 - u) * ((1 - u) ^ k * y) \<le> (1 - u) * x" "(1 + u) * x \<le> (1 + u) * ((1 + u) ^ k * y)"
    by (rule mult_left_mono, rule b, rule u)+
  ultimately show ?thesis unfolding rounded_def u_def [symmetric] by (simp add: algebra_simps)
qed

lemma rounded_divide: "rounded k y x \<Longrightarrow> 0 < c \<Longrightarrow> rounded k (y / c) (x / c)"
  unfolding rounded_def by (simp add: divide_right_mono)

lemma mean_close:
  assumes "0 \<le> S" and "0 < n" and "n < 2 ^ 53"
  shows "\<bar>double_divide (BenchmarkMilliseconds S) (double_of_int n) - of_int S / 1000000 / of_int n\<bar>
    \<le> of_int S / 1000000 / of_int n / 2 ^ 51"
proof -
  define q where "q = of_int S / 1000000 / (of_int n :: rat)"
  have q: "0 \<le> q" using assms by (simp add: q_def)
  have n: "double_of_int n = of_int n" using assms by (intro to_double_of_int) simp_all
  have million: "double_of_int 1000000 = 1000000" using to_double_of_int [of 1000000] by simp
  have "rounded 0 (of_int S) (of_int S)" by (simp add: rounded_def)
  from rounded_step [OF this] have "rounded 1 (of_int S) (double_of_int S)" using assms(1) by simp
  from rounded_step [OF rounded_divide [OF this]] have "rounded 2 (of_int S / 1000000) (BenchmarkMilliseconds S)"
    using assms(1) million by (simp add: BenchmarkMilliseconds_def double_divide_def numeral_2_eq_2)
  from rounded_step [OF rounded_divide [OF this, of "of_int n"]]
  have "rounded 3 q (double_divide (BenchmarkMilliseconds S) (double_of_int n))"
    using assms by (simp add: double_divide_def n q_def numeral_3_eq_3 numeral_2_eq_2)
  moreover have "(1 - 1 / 2 ^ 51) * q \<le> (1 - 1 / 2 ^ 53) ^ 3 * q" "(1 + 1 / 2 ^ 53) ^ 3 * q \<le> (1 + 1 / 2 ^ 51) * q"
    by (rule mult_right_mono [OF _ q]; simp add: power3_eq_cube)+
  ultimately have "q - q / 2 ^ 51 \<le> double_divide (BenchmarkMilliseconds S) (double_of_int n)"
    "double_divide (BenchmarkMilliseconds S) (double_of_int n) \<le> q + q / 2 ^ 51"
    unfolding rounded_def by (simp_all add: left_diff_distrib distrib_right)
  then show ?thesis unfolding q_def [symmetric] by linarith
qed

section \<open>Properties\<close>

lemma percentile_ranks:
  assumes "samples \<noteq> []" and "length samples < 2 ^ 44"
  shows "BenchmarkPercentile (sort samples) p50 = Inr (sort samples ! (nat \<lceil>1 / 2 * (of_nat (length samples) :: rat)\<rceil> - 1))"
    and "BenchmarkPercentile (sort samples) p99 = Inr (sort samples ! (nat \<lceil>99 / 100 * (of_nat (length samples) :: rat)\<rceil> - 1))"
    and "BenchmarkPercentile (sort samples) p995 = Inr (sort samples ! (nat \<lceil>199 / 200 * (of_nat (length samples) :: rat)\<rceil> - 1))"
  by (rule Percentile_exact [where k = 100, OF assms] Percentile_exact [where k = 198, OF assms]
      Percentile_exact [where k = 199, OF assms]; simp add: percentile_values)+

lemma sorted_nth_rank_mono:
  fixes samples :: "BenchmarkNanoseconds list"
  assumes "samples \<noteq> []" and "0 < p" and "p \<le> q" and "q \<le> (1 :: rat)"
  shows "sort samples ! (nat \<lceil>p * of_nat (length samples)\<rceil> - 1) \<le> sort samples ! (nat \<lceil>q * of_nat (length samples)\<rceil> - 1)"
proof (rule sorted_nth_mono)
  have "p * of_nat (length samples) \<le> q * of_nat (length samples)" by (rule mult_right_mono) (use assms(3) in simp_all)
  then show "nat \<lceil>p * of_nat (length samples)\<rceil> - 1 \<le> nat \<lceil>q * of_nat (length samples)\<rceil> - 1"
    by (intro diff_le_mono nat_mono ceiling_mono)
next
  show "nat \<lceil>q * of_nat (length samples)\<rceil> - 1 < length (sort samples)"
    using nearest_rank_nth(1) [OF assms(1) less_le_trans [OF assms(2,3)] assms(4) refl] by simp
qed simp

text \<open>
  (C34) For samples that are not negative and whose sum fits into 64 bits, the statistics are computed:
  the counts are those of the samples and errors; minimum and maximum are those of the samples; the
  three percentiles are exact nearest ranks, in spite of the rounding of 0.99, of 0.995 and of their
  products with the number of samples; the mean is that of the samples up to three roundings; and the
  results are in order.
\<close>

theorem percentiles_are_nearest_ranks:
  assumes "samples \<noteq> []" and "\<forall>x \<in> set samples. 0 \<le> x" and "sum_list samples < 2 ^ 63" and "length samples < 2 ^ 44"
    and "0 < durationSeconds"
  shows "\<exists>st v50 v99 v995. CalculateBenchmarkStatistics samples errors durationSeconds = Inr st \<and>
    bs_operations st = length samples \<and> bs_errors st = errors \<and>
    nearest_rank (1 / 2) samples v50 \<and> bs_p50Milliseconds st = BenchmarkMilliseconds v50 \<and>
    nearest_rank (99 / 100) samples v99 \<and> bs_p99Milliseconds st = BenchmarkMilliseconds v99 \<and>
    nearest_rank (995 / 1000) samples v995 \<and> bs_p995Milliseconds st = BenchmarkMilliseconds v995 \<and>
    bs_minimumMilliseconds st = BenchmarkMilliseconds (Min (set samples)) \<and>
    bs_maximumMilliseconds st = BenchmarkMilliseconds (Max (set samples)) \<and>
    \<bar>bs_meanMilliseconds st - of_int (sum_list samples) / 1000000 / of_nat (length samples)\<bar>
      \<le> of_int (sum_list samples) / 1000000 / of_nat (length samples) / 2 ^ 51 \<and>
    bs_minimumMilliseconds st \<le> bs_p50Milliseconds st \<and> bs_p50Milliseconds st \<le> bs_p99Milliseconds st \<and>
    bs_p99Milliseconds st \<le> bs_p995Milliseconds st \<and> bs_p995Milliseconds st \<le> bs_maximumMilliseconds st"
proof -
  let ?s = "sort samples"
  define v50 where "v50 = ?s ! (nat \<lceil>1 / 2 * (of_nat (length samples) :: rat)\<rceil> - 1)"
  define v99 where "v99 = ?s ! (nat \<lceil>99 / 100 * (of_nat (length samples) :: rat)\<rceil> - 1)"
  define v995 where "v995 = ?s ! (nat \<lceil>199 / 200 * (of_nat (length samples) :: rat)\<rceil> - 1)"
  note pc = percentile_ranks [OF assms(1,4), folded v50_def v99_def v995_def]
  have ranks: "nearest_rank (1 / 2) samples v50" "nearest_rank (99 / 100) samples v99" "nearest_rank (199 / 200) samples v995"
    unfolding v50_def v99_def v995_def by (rule nearest_rank_nth [OF assms(1) _ _ refl]; simp)+
  have mem: "v50 \<in> set samples" "v99 \<in> set samples" "v995 \<in> set samples" using ranks by (simp_all add: nearest_rank_def)
  have order: "v50 \<le> v99" "v99 \<le> v995"
    unfolding v50_def v99_def v995_def by (rule sorted_nth_rank_mono [OF assms(1)]; simp)+
  have ends: "hd ?s = Min (set samples)" "last ?s = Max (set samples)"
    using sorted_ends [OF sorted_sort, of samples] assms(1) by (metis set_empty set_sort)+
  have "\<forall>x \<in> set ?s. 0 \<le> x" "sum_list ?s = sum_list samples"
    using assms(2) by (simp_all flip: sum_mset_sum_list)
  with assms(3) have total: "total_loop ?s 0 = Inr (sum_list samples)" using total_loop_total [of ?s 0] by simp
  have nonneg: "0 \<le> Min (set samples)" "0 \<le> v50" "0 \<le> v99" "0 \<le> v995" using assms(1,2) mem by simp_all
  have bounds: "Min (set samples) \<le> v50" "v995 \<le> Max (set samples)" using mem by simp_all
  note mono = ms_mono [OF nonneg(1) bounds(1)] ms_mono [OF nonneg(2) order(1)] ms_mono [OF nonneg(3) order(2)] ms_mono [OF nonneg(4) bounds(2)]
  from assms(4) have "length samples < 2 ^ 53" by (rule less_le_trans) simp
  then have "int (length samples) < int (2 ^ 53)" by (simp only: of_nat_less_iff)
  then have "int (length samples) < 2 ^ 53" by simp
  moreover have "0 \<le> sum_list samples" using assms(2) by (simp add: sum_list_nonneg)
  ultimately have mean: "\<bar>double_divide (BenchmarkMilliseconds (sum_list samples)) (double_of_int (int (length samples)))
      - of_int (sum_list samples) / 1000000 / of_nat (length samples)\<bar>
      \<le> of_int (sum_list samples) / 1000000 / of_nat (length samples) / 2 ^ 51"
    using mean_close [of "sum_list samples" "int (length samples)"] assms(1) by simp
  show ?thesis
    using assms(1,5) ranks mono mean by (simp add: CalculateBenchmarkStatistics_def pc total ends Let_def) blast
qed

text \<open>The latencies of the test in \<^verbatim>\<open>tests/BenchmarkStatisticsTests.cpp\<close>.\<close>

theorem percentiles_are_nearest_ranks_witness:
  "\<exists>st v99. CalculateBenchmarkStatistics [4000000, 1000000, 3000000, 2000000] 2 2 = Inr st \<and> bs_operations st = 4 \<and>
     bs_errors st = 2 \<and> nearest_rank (99 / 100) [4000000, 1000000, 3000000, 2000000] v99 \<and>
     bs_p99Milliseconds st = BenchmarkMilliseconds v99 \<and> bs_minimumMilliseconds st = BenchmarkMilliseconds 1000000 \<and>
     bs_maximumMilliseconds st = BenchmarkMilliseconds 4000000"
  using percentiles_are_nearest_ranks [of "[4000000, 1000000, 3000000, 2000000]" 2 2] by fastforce

lemma statistics_example:
  "CalculateBenchmarkStatistics [4000000, 1000000, 3000000, 2000000] 2 2 =
    Inr \<lparr>bs_operations = 4, bs_errors = 2, bs_throughput = 2, bs_minimumMilliseconds = 1, bs_meanMilliseconds = 5 / 2,
      bs_p50Milliseconds = 2, bs_p99Milliseconds = 4, bs_p995Milliseconds = 4, bs_maximumMilliseconds = 4\<rparr>"
  by code_simp

lemma statistics_reject:
  "CalculateBenchmarkStatistics [] errors d = Inl (InvalidArgument ''Benchmark statistics require samples and positive duration'')"
  "d \<le> 0 \<Longrightarrow> CalculateBenchmarkStatistics samples errors d = Inl (InvalidArgument ''Benchmark statistics require samples and positive duration'')"
  by (simp_all add: CalculateBenchmarkStatistics_def)

end
