(* ===== verification/Bench_Workload.thy ===== *)
theory Bench_Workload
  imports Resp_Client Kv_Service Bench_Statistics
begin

text \<open>
  \<^verbatim>\<open>benchmarks/RadishBench.cpp\<close> without the reading of replies (\<open>Resp_Client\<close>): the
  command line, keys and values, the commands of each workload, filling the database, the loop of one
  client with its clock readings, how the results of all clients are merged, and the files of results.

  A connection is what the server will have sent and what the client has sent; one that breaks ends
  what arrives. The generator of random
  numbers and \<^verbatim>\<open>std::uniform_int_distribution\<close> are a parameter: a function from the ends of
  an interval and a state to a number of the interval and the next state. The readings of the clock
  are a function from their number. A loop that waits for the clock may not end, so its value is optional.
\<close>

section \<open>The command line\<close>

record Options =
  bo_host :: string
  bo_port :: string
  bo_workload :: string
  bo_outputPrefix :: string
  bo_label :: string
  bo_clients :: nat
  bo_pipeline :: nat
  bo_durationSeconds :: nat
  bo_warmupSeconds :: nat
  bo_keyCount :: nat
  bo_keySize :: nat
  bo_valueSize :: nat
  bo_seed :: nat
  bo_preload :: bool

definition bench_defaults :: Options where
  "bench_defaults = \<lparr>bo_host = ''127.0.0.1'', bo_port = ''6379'', bo_workload = ''GET_HIT'', bo_outputPrefix = ''benchmark-result'',
     bo_label = ''unspecified'', bo_clients = 1, bo_pipeline = 1, bo_durationSeconds = 60, bo_warmupSeconds = 30,
     bo_keyCount = 100000, bo_keySize = 32, bo_valueSize = 128, bo_seed = 1, bo_preload = True\<rparr>"

definition stoull :: "string \<Rightarrow> nat result" where
  "stoull s = parse_unsigned ''stoull'' s"

definition BenchOption :: "string \<Rightarrow> string \<Rightarrow> Options \<Rightarrow> Options result" where
  "BenchOption option v options =
     (let number = (\<lambda>update. rbind (stoull v) (\<lambda>n. Inr (update n options)))
      in if option = ''--host'' then Inr (options\<lparr>bo_host := v\<rparr>)
         else if option = ''--port'' then Inr (options\<lparr>bo_port := v\<rparr>)
         else if option = ''--workload'' then Inr (options\<lparr>bo_workload := v\<rparr>)
         else if option = ''--clients'' then number (\<lambda>n. bo_clients_update (\<lambda>_. n))
         else if option = ''--pipeline'' then number (\<lambda>n. bo_pipeline_update (\<lambda>_. n))
         else if option = ''--duration'' then number (\<lambda>n. bo_durationSeconds_update (\<lambda>_. n))
         else if option = ''--warmup'' then number (\<lambda>n. bo_warmupSeconds_update (\<lambda>_. n))
         else if option = ''--key-count'' then number (\<lambda>n. bo_keyCount_update (\<lambda>_. n))
         else if option = ''--key-size'' then number (\<lambda>n. bo_keySize_update (\<lambda>_. n))
         else if option = ''--value-size'' then number (\<lambda>n. bo_valueSize_update (\<lambda>_. n))
         else if option = ''--seed'' then number (\<lambda>n. bo_seed_update (\<lambda>_. n))
         else if option = ''--output'' then Inr (options\<lparr>bo_outputPrefix := v\<rparr>)
         else if option = ''--label'' then Inr (options\<lparr>bo_label := v\<rparr>)
         else if option = ''--preload'' then Inr (options\<lparr>bo_preload := (v \<noteq> ''off'')\<rparr>)
         else Inl (InvalidArgument (''Unknown option: '' @ option)))"

fun BenchParseOptions_loop :: "string list \<Rightarrow> Options \<Rightarrow> Options result" where
  "BenchParseOptions_loop [] options = Inr options"
| "BenchParseOptions_loop [argument] options = Inl (InvalidArgument (''Missing value for '' @ argument))"
| "BenchParseOptions_loop (option # v # arguments) options =
     rbind (BenchOption option v options) (BenchParseOptions_loop arguments)"

text \<open>The arguments without the name of the program.\<close>

definition BenchParseOptions :: "string list \<Rightarrow> Options result" where
  "BenchParseOptions arguments =
     rbind (BenchParseOptions_loop arguments bench_defaults) (\<lambda>options.
       if bo_clients options = 0 \<or> bo_pipeline options = 0 \<or> bo_keyCount options = 0 \<or> bo_keySize options = 0
       then Inl (InvalidArgument ''clients, pipeline, key-count, and key-size must be positive'')
       else Inr options)"

section \<open>Keys, values and commands\<close>

definition MakeKey :: "nat \<Rightarrow> nat \<Rightarrow> string" where
  "MakeKey index n =
     (let key = ''bench:'' @ to_string_nat index
      in if n \<le> length key then take n key else key @ replicate (n - length key) (CHR ''k''))"

definition MakeValue :: "nat \<Rightarrow> string" where
  "MakeValue n = replicate n (CHR ''v'')"

type_synonym 'g uniform = "nat \<Rightarrow> nat \<Rightarrow> 'g \<Rightarrow> nat \<times> 'g"

text \<open>What the standard promises of \<^verbatim>\<open>std::uniform_int_distribution\<close>.\<close>

definition uniform_ok :: "'g uniform \<Rightarrow> bool" where
  "uniform_ok uniform \<longleftrightarrow> (\<forall>a b g. a \<le> b \<longrightarrow> a \<le> fst (uniform a b g) \<and> fst (uniform a b g) \<le> b)"

definition BuildCommand :: "'g uniform \<Rightarrow> Options \<Rightarrow> 'g \<Rightarrow> nat \<Rightarrow> string list result \<times> 'g" where
  "BuildCommand uniform options generator sequence =
     (let (index, generator1) = uniform 0 (bo_keyCount options - 1) generator;
          key = MakeKey index (bo_keySize options);
          workload = bo_workload options
      in if workload = ''PING'' then (Inr [''PING''], generator1)
         else if workload = ''SET'' then (Inr [''SET'', key, MakeValue (bo_valueSize options)], generator1)
         else if workload = ''GET_HIT'' then (Inr [''GET'', key], generator1)
         else if workload = ''GET_MISS''
         then (let (index2, generator2) = uniform 0 (bo_keyCount options - 1) generator1
               in (Inr [''GET'', MakeKey ((bo_keyCount options + index2) mod 2 ^ 64) (bo_keySize options)], generator2))
         else if workload = ''DEL'' then (Inr [''DEL'', key], generator1)
         else if workload = ''EXISTS'' then (Inr [''EXISTS'', key], generator1)
         else if workload = ''DBSIZE'' then (Inr [''DBSIZE''], generator1)
         else if workload = ''KEYS'' then (Inr [''KEYS'', ''*''], generator1)
         else if workload = ''RENAME''
         then (Inr [''RENAME'', key, MakeKey ((bo_keyCount options * 2 + sequence) mod 2 ^ 64) (bo_keySize options)], generator1)
         else if workload = ''MIX50'' \<or> workload = ''READ95'' \<or> workload = ''WRITE95''
         then (let writePercent = (if workload = ''MIX50'' then 50 else if workload = ''READ95'' then 5 else 95);
                   (percentage, generator2) = uniform 1 100 generator1
               in (if percentage \<le> writePercent then Inr [''SET'', key, MakeValue (bo_valueSize options)]
                   else Inr [''GET'', key], generator2))
         else (Inl (InvalidArgument (''Unsupported workload: '' @ workload)), generator1))"

section \<open>Connections\<close>

record Connection =
  cn_incoming :: string
  cn_sent :: string

definition receive :: "(string \<Rightarrow> 'a result \<times> string) \<Rightarrow> Connection \<Rightarrow> 'a result \<times> Connection" where
  "receive read c = (case read (cn_incoming c) of (r, rest) \<Rightarrow> (r, c\<lparr>cn_incoming := rest\<rparr>))"

definition RespConnection_Execute :: "string list \<Rightarrow> Connection \<Rightarrow> bool result \<times> Connection" where
  "RespConnection_Execute command c =
     receive (RespConnection_ReadResponse 33) (c\<lparr>cn_sent := cn_sent c @ EncodeCommand command\<rparr>)"

text \<open>One reply and one reading of the clock for each command.\<close>

fun pipeline_loop :: "(nat \<Rightarrow> int) \<Rightarrow> nat \<Rightarrow> Connection \<times> nat \<Rightarrow> (bool list \<times> int list) result \<times> (Connection \<times> nat)" where
  "pipeline_loop clock 0 st = (Inr ([], []), st)"
| "pipeline_loop clock (Suc n) (c, i) =
     (case receive (RespConnection_ReadResponse 33) c of
        (Inl e, c1) \<Rightarrow> (Inl e, (c1, i))
      | (Inr response, c1) \<Rightarrow>
          sbind (pipeline_loop clock n (c1, Suc i)) (\<lambda>(responses, completions) st1.
            (Inr (response # responses, clock i # completions), st1)))"

definition RespConnection_ExecutePipeline ::
    "(nat \<Rightarrow> int) \<Rightarrow> string list list \<Rightarrow> Connection \<times> nat \<Rightarrow> (bool list \<times> int list) result \<times> (Connection \<times> nat)" where
  "RespConnection_ExecutePipeline clock commands st =
     pipeline_loop clock (length commands)
       ((fst st)\<lparr>cn_sent := cn_sent (fst st) @ RespConnection_pipeline commands\<rparr>, snd st)"

section \<open>Filling the database\<close>

definition Preload_commands :: "Options \<Rightarrow> string list list" where
  "Preload_commands options =
     map (\<lambda>index. [''SET'', MakeKey index (bo_keySize options), MakeValue (bo_valueSize options)]) [0..<bo_keyCount options]"

fun Preload_loop :: "string list list \<Rightarrow> Connection \<Rightarrow> unit result \<times> Connection" where
  "Preload_loop [] c = (Inr (), c)"
| "Preload_loop (command # commands) c =
     sbind (RespConnection_Execute command c) (\<lambda>success c1.
       if \<not> success then (Inl (RuntimeError ''Preload SET failed''), c1) else Preload_loop commands c1)"

definition Preload :: "Options \<Rightarrow> Connection \<Rightarrow> unit result \<times> Connection" where
  "Preload options c = (if \<not> bo_preload options then (Inr (), c) else Preload_loop (Preload_commands options) c)"

section \<open>One client\<close>

record WorkerResult =
  wr_latencies :: "int list"
  wr_errors :: nat

record 'g Worker =
  wk_generator :: 'g
  wk_sequence :: nat
  wk_connection :: Connection
  wk_readings :: nat

fun build_loop :: "'g uniform \<Rightarrow> Options \<Rightarrow> nat \<Rightarrow> 'g Worker \<Rightarrow> string list list result \<times> 'g Worker" where
  "build_loop uniform options 0 w = (Inr [], w)"
| "build_loop uniform options (Suc n) w =
     (case BuildCommand uniform options (wk_generator w) (wk_sequence w) of
        (r, generator) \<Rightarrow>
          sbind (r, w\<lparr>wk_generator := generator, wk_sequence := (wk_sequence w + 1) mod 2 ^ 64\<rparr>) (\<lambda>command w1.
          sbind (build_loop uniform options n w1) (\<lambda>commands w2. (Inr (command # commands), w2))))"

fun tally_loop :: "int \<Rightarrow> (bool \<times> int) list \<Rightarrow> WorkerResult \<Rightarrow> WorkerResult" where
  "tally_loop started [] result = result"
| "tally_loop started ((response, completion) # rest) result =
     tally_loop started rest
       (if response then result\<lparr>wr_latencies := wr_latencies result @ [completion - started]\<rparr>
        else result\<lparr>wr_errors := wr_errors result + 1\<rparr>)"

text \<open>One round of the loop: the commands, the reading at which they are sent, the replies.\<close>

definition worker_batch :: "'g uniform \<Rightarrow> (nat \<Rightarrow> int) \<Rightarrow> Options \<Rightarrow> bool \<Rightarrow> WorkerResult \<Rightarrow> 'g Worker \<Rightarrow>
    WorkerResult result \<times> 'g Worker" where
  "worker_batch uniform clock options measured result w =
     sbind (build_loop uniform options (bo_pipeline options) w) (\<lambda>commands w1.
       let started = clock (wk_readings w1)
       in case RespConnection_ExecutePipeline clock commands (wk_connection w1, Suc (wk_readings w1)) of
            (r, (c, i)) \<Rightarrow>
              sbind (r, w1\<lparr>wk_connection := c, wk_readings := i\<rparr>) (\<lambda>(responses, completions) w2.
                (Inr (if measured then tally_loop started (zip responses completions) result else result), w2)))"

partial_function (option) run_until :: "'g uniform \<Rightarrow> (nat \<Rightarrow> int) \<Rightarrow> Options \<Rightarrow> int \<Rightarrow> bool \<Rightarrow> WorkerResult \<Rightarrow> 'g Worker \<Rightarrow>
    (WorkerResult result \<times> 'g Worker) option" where
  "run_until uniform clock options until measured result w =
     (let w1 = w\<lparr>wk_readings := Suc (wk_readings w)\<rparr>
      in if until \<le> clock (wk_readings w) then Some (Inr result, w1)
         else case worker_batch uniform clock options measured result w1 of
                (Inl e, w2) \<Rightarrow> Some (Inl e, w2)
              | (Inr result2, w2) \<Rightarrow> run_until uniform clock options until measured result2 w2)"

text \<open>\<^verbatim>\<open>Clock::now() + std::chrono::seconds(n)\<close> in nanoseconds.\<close>

definition deadline :: "int \<Rightarrow> nat \<Rightarrow> int result" where
  "deadline start seconds =
     (let t = start + int seconds * 1000000000
      in if t < 2 ^ 63 then Inr t else Inl (UndefinedBehaviour ''signed overflow''))"

text \<open>The generator starts from a seed, by the function \<open>seeded\<close>.\<close>

definition RunWorker :: "'g uniform \<Rightarrow> (nat \<Rightarrow> 'g) \<Rightarrow> (nat \<Rightarrow> int) \<Rightarrow> Options \<Rightarrow> Connection \<Rightarrow> nat \<Rightarrow> int \<Rightarrow> int \<Rightarrow>
    (WorkerResult result \<times> 'g Worker) option" where
  "RunWorker uniform seeded clock options connection workerId warmupEnd measurementEnd =
     (case run_until uniform clock options warmupEnd False \<lparr>wr_latencies = [], wr_errors = 0\<rparr>
             \<lparr>wk_generator = seeded ((bo_seed options + workerId) mod 2 ^ 64), wk_sequence = 0, wk_connection = connection,
               wk_readings = 0\<rparr> of
        None \<Rightarrow> None
      | Some (Inl e, w) \<Rightarrow> Some (Inl e, w)
      | Some (Inr result, w) \<Rightarrow> run_until uniform clock options measurementEnd True result w)"

section \<open>All clients\<close>

text \<open>Opening the connections, one after the other.\<close>

fun connect_loop :: "Connection result list \<Rightarrow> Connection list result" where
  "connect_loop [] = Inr []"
| "connect_loop (c # cs) = rbind c (\<lambda>connection. rbind (connect_loop cs) (\<lambda>connections. Inr (connection # connections)))"

text \<open>
  Each worker has its own connection, generator, result slot and clock readings, so the threads do not
  interact; joining waits for all of them, and then the first failure is thrown again.
\<close>

fun join_loop :: "(WorkerResult result \<times> 'g Worker) option list \<Rightarrow> WorkerResult result list option" where
  "join_loop [] = Some []"
| "join_loop (x # xs) = (case x of None \<Rightarrow> None | Some (r, w) \<Rightarrow> map_option (\<lambda>rs. r # rs) (join_loop xs))"

fun failures_loop :: "WorkerResult result list \<Rightarrow> WorkerResult list result" where
  "failures_loop [] = Inr []"
| "failures_loop (r # rs) = rbind r (\<lambda>result. rbind (failures_loop rs) (\<lambda>results. Inr (result # results)))"

fun merge_loop :: "WorkerResult list \<Rightarrow> int list \<times> nat \<Rightarrow> int list \<times> nat" where
  "merge_loop [] acc = acc"
| "merge_loop (r # rs) (samples, errors) = merge_loop rs (samples @ wr_latencies r, errors + wr_errors r)"

definition bench_workers :: "'g uniform \<Rightarrow> (nat \<Rightarrow> 'g) \<Rightarrow> (nat \<Rightarrow> nat \<Rightarrow> int) \<Rightarrow> Options \<Rightarrow> Connection list \<Rightarrow> int \<Rightarrow> int \<Rightarrow>
    BenchmarkStatistics result option" where
  "bench_workers uniform seeded clocks options connections warmupEnd measurementEnd =
     map_option (\<lambda>rs.
         rbind (failures_loop rs) (\<lambda>results.
           case merge_loop results ([], 0) of
             (samples, errors) \<Rightarrow>
               CalculateBenchmarkStatistics samples errors (double_of_int (int (bo_durationSeconds options)))))
       (join_loop (map (\<lambda>index. RunWorker uniform seeded (clocks index) options (connections ! index) index warmupEnd measurementEnd)
         [0..<bo_clients options]))"

section \<open>The files of results\<close>

text \<open>
  How a \<^verbatim>\<open>double\<close> is printed and what \<^verbatim>\<open>uname\<close> answers are parameters. Strings are put
  between quotes as they are.
\<close>

definition quoted :: "string \<Rightarrow> string" where
  "quoted s = [CHR 0x22] @ s @ [CHR 0x22]"

definition json_line :: "string \<Rightarrow> string \<Rightarrow> string" where
  "json_line name v = ''  '' @ quoted name @ '': '' @ v @ '','' @ [LF]"

definition results_json :: "(double \<Rightarrow> string) \<Rightarrow> string \<Rightarrow> Options \<Rightarrow> BenchmarkStatistics \<Rightarrow> string" where
  "results_json print environment options statistics =
     ''{'' @ [LF] @
     json_line ''host'' (quoted (bo_host options)) @
     json_line ''port'' (quoted (bo_port options)) @
     json_line ''label'' (quoted (bo_label options)) @
     json_line ''workload'' (quoted (bo_workload options)) @
     json_line ''clients'' (to_string_nat (bo_clients options)) @
     json_line ''pipeline'' (to_string_nat (bo_pipeline options)) @
     json_line ''duration_seconds'' (to_string_nat (bo_durationSeconds options)) @
     json_line ''warmup_seconds'' (to_string_nat (bo_warmupSeconds options)) @
     json_line ''key_count'' (to_string_nat (bo_keyCount options)) @
     json_line ''key_size'' (to_string_nat (bo_keySize options)) @
     json_line ''value_size'' (to_string_nat (bo_valueSize options)) @
     json_line ''seed'' (to_string_nat (bo_seed options)) @
     json_line ''environment'' (quoted environment) @
     json_line ''operations'' (to_string_nat (bs_operations statistics)) @
     json_line ''errors'' (to_string_nat (bs_errors statistics)) @
     json_line ''throughput_ops_per_second'' (print (bs_throughput statistics)) @
     ''  '' @ quoted ''latency_ms'' @ '': { '' @ quoted ''min'' @ '': '' @ print (bs_minimumMilliseconds statistics) @
     '', '' @ quoted ''mean'' @ '': '' @ print (bs_meanMilliseconds statistics) @
     '', '' @ quoted ''p50'' @ '': '' @ print (bs_p50Milliseconds statistics) @
     '', '' @ quoted ''p99'' @ '': '' @ print (bs_p99Milliseconds statistics) @
     '', '' @ quoted ''p99_5'' @ '': '' @ print (bs_p995Milliseconds statistics) @
     '', '' @ quoted ''max'' @ '': '' @ print (bs_maximumMilliseconds statistics) @ '' }'' @ [LF] @
     ''}'' @ [LF]"

definition results_csv :: "(double \<Rightarrow> string) \<Rightarrow> Options \<Rightarrow> BenchmarkStatistics \<Rightarrow> string" where
  "results_csv print options statistics =
     ''workload,clients,pipeline,operations,errors,throughput_ops_per_second,min_ms,mean_ms,p50_ms,p99_ms,p99_5_ms,max_ms'' @ [LF] @
     bo_workload options @ '','' @ to_string_nat (bo_clients options) @ '','' @ to_string_nat (bo_pipeline options) @ '','' @
     to_string_nat (bs_operations statistics) @ '','' @ to_string_nat (bs_errors statistics) @ '','' @
     print (bs_throughput statistics) @ '','' @ print (bs_minimumMilliseconds statistics) @ '','' @
     print (bs_meanMilliseconds statistics) @ '','' @ print (bs_p50Milliseconds statistics) @ '','' @
     print (bs_p99Milliseconds statistics) @ '','' @ print (bs_p995Milliseconds statistics) @ '','' @
     print (bs_maximumMilliseconds statistics) @ [LF]"

text \<open>Both files are opened, and so emptied, before it is checked whether that worked.\<close>

definition WriteResults :: "(double \<Rightarrow> string) \<Rightarrow> string \<Rightarrow> bool \<Rightarrow> bool \<Rightarrow> Options \<Rightarrow> BenchmarkStatistics \<Rightarrow> FileSystem \<Rightarrow>
    unit result \<times> FileSystem" where
  "WriteResults print environment json_opens csv_opens options statistics fs =
     (let jsonPath = bo_outputPrefix options @ ''.json'';
          csvPath = bo_outputPrefix options @ ''.csv'';
          fs1 = (if json_opens then fs(jsonPath \<mapsto> []) else fs);
          fs2 = (if csv_opens then fs1(csvPath \<mapsto> []) else fs1)
      in if \<not> json_opens \<or> \<not> csv_opens then (Inl (RuntimeError ''Failed to create benchmark result files''), fs2)
         else (Inr (), fs2(jsonPath \<mapsto> results_json print environment options statistics,
                           csvPath \<mapsto> results_csv print options statistics)))"

text \<open>
  The exit code, the statistics and the files; \<open>start\<close> is the reading of the clock of the main thread,
  \<open>first\<close> the connection that fills the database.
\<close>

definition bench_main :: "'g uniform \<Rightarrow> (nat \<Rightarrow> 'g) \<Rightarrow> (nat \<Rightarrow> nat \<Rightarrow> int) \<Rightarrow> int \<Rightarrow> Connection result \<Rightarrow>
    (nat \<Rightarrow> Connection result) \<Rightarrow> (double \<Rightarrow> string) \<Rightarrow> string \<Rightarrow> bool \<Rightarrow> bool \<Rightarrow> string list \<Rightarrow> FileSystem \<Rightarrow>
    (int \<times> BenchmarkStatistics option \<times> FileSystem) option" where
  "bench_main uniform seeded clocks start first connect print environment json_opens csv_opens arguments fs =
     (if arguments = [''--help''] then Some (0, None, fs)
      else
        case rbind (BenchParseOptions arguments) (\<lambda>options.
               rbind (if bo_preload options then rbind first (\<lambda>c. fst (Preload options c)) else Inr ()) (\<lambda>_.
               rbind (connect_loop (map connect [0..<bo_clients options])) (\<lambda>connections.
               rbind (deadline start (bo_warmupSeconds options)) (\<lambda>warmupEnd.
               rbind (deadline warmupEnd (bo_durationSeconds options)) (\<lambda>measurementEnd.
                 Inr (options, connections, warmupEnd, measurementEnd)))))) of
          Inl e \<Rightarrow> Some (1, None, fs)
        | Inr (options, connections, warmupEnd, measurementEnd) \<Rightarrow>
            map_option (\<lambda>r.
                case r of
                  Inl e \<Rightarrow> (1, None, fs)
                | Inr st \<Rightarrow>
                    (case WriteResults print environment json_opens csv_opens options st fs of
                       (Inl e, fs1) \<Rightarrow> (1, None, fs1)
                     | (Inr _, fs1) \<Rightarrow> (0, Some st, fs1)))
              (bench_workers uniform seeded clocks options connections warmupEnd measurementEnd))"

section \<open>Lemmas: one round\<close>

lemma ReadResponses_append:
  "RespConnection_ReadResponses m s = (Inr fs, s1) \<Longrightarrow> RespConnection_ReadResponses n s1 = (Inr gs, s2) \<Longrightarrow>
   RespConnection_ReadResponses (m + n) s = (Inr (fs @ gs), s2)"
proof (induction m arbitrary: s fs)
  case (Suc m)
  from Suc.prems(1) obtain b s' fs' where "RespConnection_ReadResponse 33 s = (Inr b, s')"
    "RespConnection_ReadResponses m s' = (Inr fs', s1)" "fs = b # fs'"
    by (auto simp: result_simps simp del: RespConnection_ReadResponse.simps)
  with Suc.IH [OF _ Suc.prems(2), of s' fs'] show ?case by (simp del: RespConnection_ReadResponse.simps)
qed simp

lemma ReadResponses_length: "RespConnection_ReadResponses n s = (Inr fs, s') \<Longrightarrow> length fs = n"
  by (induction n arbitrary: s fs) (auto simp: result_simps simp del: RespConnection_ReadResponse.simps)

lemma pipeline_loop_reads:
  "pipeline_loop clock n (c, i) = (Inr (fs, ts), (c', i')) \<Longrightarrow>
   RespConnection_ReadResponses n (cn_incoming c) = (Inr fs, cn_incoming c') \<and> cn_sent c' = cn_sent c \<and>
   i' = i + n \<and> ts = map clock [i..<i + n]"
proof (induction n arbitrary: c i fs ts)
  case (Suc n)
  from Suc.prems obtain b rest fs' ts' where b: "RespConnection_ReadResponse 33 (cn_incoming c) = (Inr b, rest)"
    and more: "pipeline_loop clock n (c\<lparr>cn_incoming := rest\<rparr>, Suc i) = (Inr (fs', ts'), (c', i'))"
    and eq: "fs = b # fs'" "ts = clock i # ts'"
    by (auto simp: receive_def result_simps split: prod.splits sum.splits simp del: RespConnection_ReadResponse.simps)
  have "[i..<i + Suc n] = i # [Suc i..<Suc i + n]" by (simp add: upt_conv_Cons del: upt_Suc)
  with Suc.IH [OF more] b eq show ?case by (simp del: RespConnection_ReadResponse.simps upt_Suc)
qed simp

lemma build_loop_frame:
  "build_loop uniform options n w = (Inr commands, w') \<Longrightarrow>
   length commands = n \<and> wk_connection w' = wk_connection w \<and> wk_readings w' = wk_readings w \<and>
   build_loop uniform options n (w\<lparr>wk_connection := c, wk_readings := i\<rparr>) = (Inr commands, w'\<lparr>wk_connection := c, wk_readings := i\<rparr>)"
proof (induction n arbitrary: w commands)
  case (Suc n)
  obtain r g where b: "BuildCommand uniform options (wk_generator w) (wk_sequence w) = (r, g)" by fastforce
  with Suc.prems obtain command commands' where r: "r = Inr command" and eq: "commands = command # commands'"
    and more: "build_loop uniform options n (w\<lparr>wk_generator := g, wk_sequence := (wk_sequence w + 1) mod 2 ^ 64\<rparr>) = (Inr commands', w')"
    by (cases r) (auto simp: sbind_eq_Inr)
  have swap: "w\<lparr>wk_connection := c, wk_readings := i, wk_generator := g, wk_sequence := q\<rparr> =
      w\<lparr>wk_generator := g, wk_sequence := q, wk_connection := c, wk_readings := i\<rparr>" for q by simp
  from Suc.IH [OF more] b r eq show ?case by (simp add: swap)
qed simp

lemma build_loop_append:
  "build_loop uniform options m w = (Inr xs, w1) \<Longrightarrow> build_loop uniform options n w1 = (Inr ys, w2) \<Longrightarrow>
   build_loop uniform options (m + n) w = (Inr (xs @ ys), w2)"
proof (induction m arbitrary: w xs)
  case (Suc m)
  obtain r g where b: "BuildCommand uniform options (wk_generator w) (wk_sequence w) = (r, g)" by fastforce
  with Suc.prems(1) obtain x xs' where r: "r = Inr x" and eq: "xs = x # xs'"
    and more: "build_loop uniform options m (w\<lparr>wk_generator := g, wk_sequence := (wk_sequence w + 1) mod 2 ^ 64\<rparr>) = (Inr xs', w1)"
    by (cases r) (auto simp: sbind_eq_Inr)
  from Suc.IH [OF more Suc.prems(2)] b r eq show ?case by simp
qed simp

text \<open>The replies of one round that started at reading \<open>started\<close>, the first of them complete at reading \<open>i\<close>.\<close>

lemma tally_loop_eq:
  "tally_loop started (zip flags (map clock [i..<i + length flags])) r =
   r\<lparr>wr_latencies := wr_latencies r @
        concat (map (\<lambda>j. if flags ! j then [clock (i + j) - started] else []) [0..<length flags]),
     wr_errors := wr_errors r + length (filter Not flags)\<rparr>"
proof (induction flags arbitrary: i r)
  case (Cons b flags)
  have 1: "[i..<i + length (b # flags)] = i # [Suc i..<Suc i + length flags]" by (simp add: upt_conv_Cons del: upt_Suc)
  have 2: "[0..<length (b # flags)] = 0 # map Suc [0..<length flags]"
    by (simp add: upt_conv_Cons map_Suc_upt del: upt_Suc)
  show ?case
    unfolding 1 2 using Cons.IH [of "Suc i"] by (simp add: comp_def del: upt_Suc cong: if_cong)
qed simp

text \<open>What a number of commands has done to a connection.\<close>

definition exchanged :: "Connection \<Rightarrow> string list list \<Rightarrow> bool list \<Rightarrow> Connection \<Rightarrow> bool" where
  "exchanged c commands flags c' \<longleftrightarrow>
     cn_sent c' = cn_sent c @ RespConnection_pipeline commands \<and>
     RespConnection_ReadResponses (length commands) (cn_incoming c) = (Inr flags, cn_incoming c')"

lemma exchanged_none: "exchanged c [] [] c"
  by (simp add: exchanged_def pipeline_eq)

lemma exchanged_append: "exchanged c xs fs c1 \<Longrightarrow> exchanged c1 ys gs c2 \<Longrightarrow> exchanged c (xs @ ys) (fs @ gs) c2"
  using ReadResponses_append [of "length xs" "cn_incoming c" fs "cn_incoming c1" "length ys" gs "cn_incoming c2"]
  by (simp add: exchanged_def pipeline_eq)

text \<open>
  The specification of a client, over the readings of its clock. A round takes one reading to see
  whether it is time to stop, one when its commands are sent, and one as each of its
  replies is complete. So round \<open>r\<close> of a loop that begins at reading \<open>s\<close> looks at the clock at
  reading \<open>s + r * (p + 2)\<close> when \<open>p\<close> commands are sent together. \<open>rounds_until\<close> is the number of rounds
  begun before the end, and \<open>round_samples\<close> has one latency for each successful reply.
\<close>

definition rounds_until :: "(nat \<Rightarrow> int) \<Rightarrow> nat \<Rightarrow> int \<Rightarrow> nat \<Rightarrow> nat \<Rightarrow> bool" where
  "rounds_until clock p until s k \<longleftrightarrow>
     until \<le> clock (s + k * (p + 2)) \<and> (\<forall>r < k. clock (s + r * (p + 2)) < until)"

definition round_samples :: "(nat \<Rightarrow> int) \<Rightarrow> nat \<Rightarrow> nat \<Rightarrow> bool list \<Rightarrow> int list" where
  "round_samples clock p s flags =
     concat (map (\<lambda>j. let begin = s + (j div p) * (p + 2)
                      in if flags ! j then [clock (begin + 2 + j mod p) - clock (begin + 1)] else [])
       [0..<length flags])"

lemma rounds_until_none: "until \<le> clock s \<Longrightarrow> rounds_until clock p until s 0"
  by (simp add: rounds_until_def)

lemma rounds_until_more:
  "clock s < until \<Longrightarrow> rounds_until clock p until (s + p + 2) k \<Longrightarrow> rounds_until clock p until s (Suc k)"
  by (auto simp: rounds_until_def less_Suc_eq_0_disj algebra_simps)

lemma round_samples_none: "round_samples clock p s [] = []"
  by (simp add: round_samples_def)

lemma round_samples_one:
  "length flags = p \<Longrightarrow> round_samples clock p s flags =
     concat (map (\<lambda>j. if flags ! j then [clock (s + 2 + j) - clock (s + 1)] else []) [0..<length flags])"
  unfolding round_samples_def by (intro arg_cong [of _ _ concat] map_cong refl) simp

lemma round_samples_append:
  assumes "length fs = p" and "length gs = k * p"
  shows "round_samples clock p s (fs @ gs) = round_samples clock p s fs @ round_samples clock p (s + p + 2) gs"
proof (cases "p = 0")
  case True
  with assms show ?thesis by (simp add: round_samples_none)
next
  case False
  have upt: "[0..<length (fs @ gs)] = [0..<p] @ map (\<lambda>j. p + j) [0..<length gs]"
  proof -
    have "[0..<p + length gs] = [0..<p] @ [p..<p + length gs]" by (rule upt_add_eq_append) simp
    moreover have "[p..<p + length gs] = map (\<lambda>j. p + j) [0..<length gs]" by (simp add: map_add_upt add.commute)
    ultimately show ?thesis by (simp add: assms(1))
  qed
  have "map (\<lambda>j. let begin = s + (j div p) * (p + 2)
        in if (fs @ gs) ! j then [clock (begin + 2 + j mod p) - clock (begin + 1)] else []) [0..<p] =
      map (\<lambda>j. let begin = s + (j div p) * (p + 2)
        in if fs ! j then [clock (begin + 2 + j mod p) - clock (begin + 1)] else []) [0..<length fs]"
    using assms(1) by (intro map_cong) (auto simp: nth_append)
  moreover have "map ((\<lambda>j. let begin = s + (j div p) * (p + 2)
        in if (fs @ gs) ! j then [clock (begin + 2 + j mod p) - clock (begin + 1)] else []) \<circ> (\<lambda>j. p + j)) [0..<length gs] =
      map (\<lambda>j. let begin = s + p + 2 + (j div p) * (p + 2)
        in if gs ! j then [clock (begin + 2 + j mod p) - clock (begin + 1)] else []) [0..<length gs]"
    using assms(1) False by (intro map_cong refl) (simp add: nth_append Let_def algebra_simps)
  ultimately show ?thesis unfolding round_samples_def upt by (simp only: map_append concat_append map_map)
qed

text \<open>\<open>k\<close> rounds took a worker from \<open>w\<close> and the result \<open>r\<close> to \<open>w'\<close> and \<open>r'\<close>.\<close>

definition rounds_ran :: "'g uniform \<Rightarrow> (nat \<Rightarrow> int) \<Rightarrow> Options \<Rightarrow> bool \<Rightarrow> nat \<Rightarrow> string list list \<Rightarrow> bool list \<Rightarrow>
    WorkerResult \<Rightarrow> 'g Worker \<Rightarrow> WorkerResult \<Rightarrow> 'g Worker \<Rightarrow> bool" where
  "rounds_ran uniform clock options measured k commands flags r w r' w' \<longleftrightarrow>
     length flags = k * bo_pipeline options \<and>
     build_loop uniform options (k * bo_pipeline options) w =
       (Inr commands, w'\<lparr>wk_connection := wk_connection w, wk_readings := wk_readings w\<rparr>) \<and>
     exchanged (wk_connection w) commands flags (wk_connection w') \<and>
     r' = (if measured
           then r\<lparr>wr_latencies := wr_latencies r @ round_samples clock (bo_pipeline options) (wk_readings w) flags,
                  wr_errors := wr_errors r + length (filter Not flags)\<rparr>
           else r)"

lemma rounds_ran_none:
  "rounds_ran uniform clock options measured 0 [] [] r w r (w\<lparr>wk_readings := i\<rparr>)"
  by (simp add: rounds_ran_def round_samples_none exchanged_none)

lemma rounds_ran_more:
  assumes "rounds_ran uniform clock options measured 1 xs fs r w r1 w1" and "wk_readings w1 = wk_readings w + bo_pipeline options + 2"
    and "rounds_ran uniform clock options measured k ys gs r1 w1 r2 w2"
  shows "rounds_ran uniform clock options measured (Suc k) (xs @ ys) (fs @ gs) r w r2 w2"
proof -
  let ?p = "bo_pipeline options"
  let ?v = "w1\<lparr>wk_connection := wk_connection w, wk_readings := wk_readings w\<rparr>"
  from assms(1) have 1: "length fs = ?p" "build_loop uniform options ?p w = (Inr xs, ?v)"
    "exchanged (wk_connection w) xs fs (wk_connection w1)" by (simp_all add: rounds_ran_def)
  from assms(3) have 2: "length gs = k * ?p" "exchanged (wk_connection w1) ys gs (wk_connection w2)"
    and b: "build_loop uniform options (k * ?p) w1 = (Inr ys, w2\<lparr>wk_connection := wk_connection w1, wk_readings := wk_readings w1\<rparr>)"
    by (simp_all add: rounds_ran_def)
  from build_loop_frame [OF b, where c = "wk_connection w" and i = "wk_readings w"]
  have "build_loop uniform options (k * ?p) ?v = (Inr ys, w2\<lparr>wk_connection := wk_connection w, wk_readings := wk_readings w\<rparr>)" by simp
  from build_loop_append [OF 1(2) this]
  have "build_loop uniform options (Suc k * ?p) w = (Inr (xs @ ys), w2\<lparr>wk_connection := wk_connection w, wk_readings := wk_readings w\<rparr>)"
    by simp
  moreover have "exchanged (wk_connection w) (xs @ ys) (fs @ gs) (wk_connection w2)" using 1(3) 2(2) by (rule exchanged_append)
  moreover have "r2 = (if measured
      then r\<lparr>wr_latencies := wr_latencies r @ round_samples clock ?p (wk_readings w) (fs @ gs),
             wr_errors := wr_errors r + length (filter Not (fs @ gs))\<rparr> else r)"
    using assms round_samples_append [OF 1(1) 2(1), of clock "wk_readings w"] by (simp add: rounds_ran_def)
  ultimately show ?thesis using 1(1) 2(1) by (simp add: rounds_ran_def)
qed

lemma worker_batch_ran:
  assumes "worker_batch uniform clock options measured r (w\<lparr>wk_readings := Suc (wk_readings w)\<rparr>) = (Inr r', w')"
  shows "wk_readings w' = wk_readings w + bo_pipeline options + 2 \<and>
    (\<exists>commands flags. rounds_ran uniform clock options measured 1 commands flags r w r' w')"
proof -
  let ?n = "bo_pipeline options" and ?w = "w\<lparr>wk_readings := Suc (wk_readings w)\<rparr>"
  from assms obtain commands w1 where b: "build_loop uniform options ?n ?w = (Inr commands, w1)"
    by (auto simp: worker_batch_def sbind_eq_Inr)
  from build_loop_frame [OF b, where c = "wk_connection w" and i = "wk_readings w"]
  have bl: "length commands = ?n" "wk_connection w1 = wk_connection w" "wk_readings w1 = Suc (wk_readings w)"
    and bw: "build_loop uniform options ?n w = (Inr commands, w1\<lparr>wk_connection := wk_connection w, wk_readings := wk_readings w\<rparr>)"
    by simp_all
  let ?i = "Suc (wk_readings w1)"
  let ?c = "(wk_connection w1)\<lparr>cn_sent := cn_sent (wk_connection w1) @ RespConnection_pipeline commands\<rparr>"
  obtain x c i' where ex: "pipeline_loop clock (length commands) (?c, ?i) = (x, (c, i'))" by (metis prod.exhaust)
  with assms b obtain fs ts where x: "x = Inr (fs, ts)" and w': "w' = w1\<lparr>wk_connection := c, wk_readings := i'\<rparr>"
    and r': "r' = (if measured then tally_loop (clock (wk_readings w1)) (zip fs ts) r else r)"
    by (cases x) (auto simp: worker_batch_def RespConnection_ExecutePipeline_def Let_def)
  note pl = pipeline_loop_reads [OF ex [unfolded x]]
  from pl bl have len: "length fs = ?n" using ReadResponses_length by metis
  have exch: "exchanged (wk_connection w) commands fs (wk_connection w')" using pl bl by (simp add: exchanged_def w')
  from pl bl len have ts: "ts = map clock [?i..<?i + length fs]" by simp
  have "r' = (if measured
      then r\<lparr>wr_latencies := wr_latencies r @ round_samples clock ?n (wk_readings w) fs,
             wr_errors := wr_errors r + length (filter Not fs)\<rparr> else r)"
    unfolding r' ts tally_loop_eq by (simp add: round_samples_one [OF len] bl cong: if_cong)
  with bw exch len have "rounds_ran uniform clock options measured 1 commands fs r w r' w'"
    by (simp add: rounds_ran_def w')
  moreover from pl bl have "wk_readings w' = wk_readings w + ?n + 2" by (simp add: w')
  ultimately show ?thesis by blast
qed

section \<open>Lemmas: the loop\<close>

lemma run_until_ran:
  assumes "run_until uniform clock options until measured r w = Some (Inr r', w')"
  shows "\<exists>k commands flags. rounds_until clock (bo_pipeline options) until (wk_readings w) k \<and>
    wk_readings w' = wk_readings w + k * (bo_pipeline options + 2) + 1 \<and>
    rounds_ran uniform clock options measured k commands flags r w r' w'"
proof -
  define P where "P = (\<lambda>(uniform :: 'a uniform) (clock :: nat \<Rightarrow> int) options until measured r (w :: 'a Worker) (y :: WorkerResult result \<times> 'a Worker).
    \<forall>r' w'. y = (Inr r', w') \<longrightarrow> (\<exists>k commands flags. rounds_until clock (bo_pipeline options) until (wk_readings w) k \<and>
      wk_readings w' = wk_readings w + k * (bo_pipeline options + 2) + 1 \<and>
      rounds_ran uniform clock options measured k commands flags r w r' w'))"
  have step: "P uniform clock options until measured r w y"
    if IH: "\<And>uniform clock options until measured r w y. run uniform clock options until measured r w = Some y \<Longrightarrow>
        P uniform clock options until measured r w y"
      and eq: "(let w1 = w\<lparr>wk_readings := Suc (wk_readings w)\<rparr>
        in if until \<le> clock (wk_readings w) then Some (Inr r, w1)
           else case worker_batch uniform clock options measured r w1 of
                  (Inl e, w2) \<Rightarrow> Some (Inl e, w2)
                | (Inr r2, w2) \<Rightarrow> run uniform clock options until measured r2 w2) = Some y"
    for run uniform clock options until measured r w y
  proof (cases "until \<le> clock (wk_readings w)")
    case True
    with eq have "y = (Inr r, w\<lparr>wk_readings := Suc (wk_readings w)\<rparr>)" by (simp add: Let_def)
    with True show ?thesis unfolding P_def
      by (auto intro!: exI [of _ 0] exI [of _ "[]"] simp: rounds_until_none rounds_ran_none)
  next
    case False
    let ?w1 = "w\<lparr>wk_readings := Suc (wk_readings w)\<rparr>"
    obtain x w2 where b: "worker_batch uniform clock options measured r ?w1 = (x, w2)" by fastforce
    show ?thesis
    proof (cases x)
      case (Inl e)
      with eq False b have "y = (Inl e, w2)" by (simp add: Let_def)
      then show ?thesis by (simp add: P_def)
    next
      case (Inr r2)
      with eq False b have "run uniform clock options until measured r2 w2 = Some y" by (simp add: Let_def)
      from IH [OF this] have later: "P uniform clock options until measured r2 w2 y" .
      from worker_batch_ran [OF b [unfolded Inr]] obtain cs fs where
        w2: "wk_readings w2 = wk_readings w + bo_pipeline options + 2"
        and one: "rounds_ran uniform clock options measured 1 cs fs r w r2 w2" by blast
      show ?thesis unfolding P_def
      proof (intro allI impI)
        fix r' w'
        assume "y = (Inr r', w')"
        with later obtain k ds gs where k: "rounds_until clock (bo_pipeline options) until (wk_readings w2) k"
          "wk_readings w' = wk_readings w2 + k * (bo_pipeline options + 2) + 1"
          "rounds_ran uniform clock options measured k ds gs r2 w2 r' w'"
          unfolding P_def by blast
        from k(1) False w2 have "rounds_until clock (bo_pipeline options) until (wk_readings w) (Suc k)"
          by (intro rounds_until_more) simp_all
        moreover have "wk_readings w' = wk_readings w + Suc k * (bo_pipeline options + 2) + 1" using k(2) w2 by simp
        ultimately show "\<exists>k commands flags. rounds_until clock (bo_pipeline options) until (wk_readings w) k \<and>
            wk_readings w' = wk_readings w + k * (bo_pipeline options + 2) + 1 \<and>
            rounds_ran uniform clock options measured k commands flags r w r' w'"
          using rounds_ran_more [OF one w2 k(3)] by blast
      qed
    qed
  qed
  have "P uniform clock options until measured r w (Inr r', w')"
    by (rule run_until.raw_induct [where P = P, OF _ assms]) (rule step)
  then show ?thesis by (simp add: P_def)
qed

lemma run_until_returns:
  assumes "\<forall>j \<ge> k. until \<le> clock j"
  shows "run_until uniform clock options until measured r w \<noteq> None"
proof (induction "k - wk_readings w" arbitrary: r w rule: less_induct)
  case less
  let ?w1 = "w\<lparr>wk_readings := Suc (wk_readings w)\<rparr>"
  show ?case
  proof (cases "until \<le> clock (wk_readings w)")
    case True
    then show ?thesis by (subst run_until.simps) (simp add: Let_def)
  next
    case False
    with assms have k: "wk_readings w < k" using not_le by blast
    obtain x w2 where b: "worker_batch uniform clock options measured r ?w1 = (x, w2)" by fastforce
    show ?thesis
    proof (cases x)
      case (Inl e)
      with False b show ?thesis by (subst run_until.simps) (simp add: Let_def)
    next
      case (Inr r2)
      from worker_batch_ran [OF b [unfolded Inr]] have "wk_readings w < wk_readings w2" by auto
      with k have "k - wk_readings w2 < k - wk_readings w" by simp
      from less [OF this, of r2] False b Inr show ?thesis by (subst run_until.simps) (simp add: Let_def)
    qed
  qed
qed

section \<open>Lemmas: all clients\<close>

text \<open>
  What client \<open>i\<close> measures: the warm-up has the rounds that begin before \<open>warmupEnd\<close>, and then come the
  \<open>k\<close> rounds that begin before \<open>measurementEnd\<close>. The commands are built one after the other from the
  seed of the client, and the replies are those of its connection in order, the first ones to the warm-up.
\<close>

definition client_measured :: "'g uniform \<Rightarrow> (nat \<Rightarrow> 'g) \<Rightarrow> Options \<Rightarrow> (nat \<Rightarrow> int) \<Rightarrow> Connection \<Rightarrow> nat \<Rightarrow> int \<Rightarrow> int \<Rightarrow>
    nat \<Rightarrow> int list \<Rightarrow> nat \<Rightarrow> bool" where
  "client_measured uniform seeded options clock c i warmupEnd measurementEnd k samples errors \<longleftrightarrow>
     (\<exists>n warmup measured flags0 flags c'.
        let p = bo_pipeline options; s = n * (p + 2) + 1;
            start = \<lparr>wk_generator = seeded ((bo_seed options + i) mod 2 ^ 64), wk_sequence = 0, wk_connection = c, wk_readings = 0\<rparr>
        in rounds_until clock p warmupEnd 0 n \<and> rounds_until clock p measurementEnd s k \<and>
           length warmup = n * p \<and> length measured = k * p \<and> length flags0 = n * p \<and> length flags = k * p \<and>
           fst (build_loop uniform options ((n + k) * p) start) = Inr (warmup @ measured) \<and>
           exchanged c (warmup @ measured) (flags0 @ flags) c' \<and>
           samples = round_samples clock p s flags \<and> errors = length (filter Not flags))"

lemma RunWorker_measured:
  assumes "RunWorker uniform seeded clock options c i warmupEnd measurementEnd = Some (Inr r, w)"
  shows "\<exists>k. client_measured uniform seeded options clock c i warmupEnd measurementEnd k (wr_latencies r) (wr_errors r)"
proof -
  let ?r = "\<lparr>wr_latencies = [], wr_errors = 0\<rparr>" and ?p = "bo_pipeline options"
  let ?w = "\<lparr>wk_generator = seeded ((bo_seed options + i) mod 2 ^ 64), wk_sequence = 0, wk_connection = c, wk_readings = 0\<rparr>"
  from assms obtain r1 w1 where "run_until uniform clock options warmupEnd False ?r ?w = Some (Inr r1, w1)"
    and 2: "run_until uniform clock options measurementEnd True r1 w1 = Some (Inr r, w)"
    by (auto simp: RunWorker_def split: option.splits sum.splits prod.splits)
  from run_until_ran [OF this(1)] obtain n cs fs where a: "rounds_until clock ?p warmupEnd 0 n"
    "wk_readings w1 = n * (?p + 2) + 1" "rounds_ran uniform clock options False n cs fs ?r ?w r1 w1" by auto
  from run_until_ran [OF 2] obtain k ds gs where b: "rounds_until clock ?p measurementEnd (wk_readings w1) k"
    "rounds_ran uniform clock options True k ds gs r1 w1 r w" by blast
  from a(3) have a3: "length fs = n * ?p" "exchanged c cs fs (wk_connection w1)" "r1 = ?r"
    and a4: "build_loop uniform options (n * ?p) ?w = (Inr cs, w1\<lparr>wk_connection := c, wk_readings := 0\<rparr>)"
    by (simp_all add: rounds_ran_def)
  from b(2) have b2: "length gs = k * ?p" "exchanged (wk_connection w1) ds gs (wk_connection w)"
    "r = r1\<lparr>wr_latencies := wr_latencies r1 @ round_samples clock ?p (wk_readings w1) gs, wr_errors := wr_errors r1 + length (filter Not gs)\<rparr>"
    and b3: "build_loop uniform options (k * ?p) w1 = (Inr ds, w\<lparr>wk_connection := wk_connection w1, wk_readings := wk_readings w1\<rparr>)"
    by (simp_all add: rounds_ran_def)
  from build_loop_frame [OF b3, where c = c and i = 0] build_loop_append [OF a4]
  have "build_loop uniform options (n * ?p + k * ?p) ?w = (Inr (cs @ ds), w\<lparr>wk_connection := c, wk_readings := 0\<rparr>)" by simp
  moreover have "length cs = n * ?p" "length ds = k * ?p" using build_loop_frame [OF a4] build_loop_frame [OF b3] by simp_all
  moreover have "exchanged c (cs @ ds) (fs @ gs) (wk_connection w)" using a3(2) b2(2) by (rule exchanged_append)
  ultimately show ?thesis
    unfolding client_measured_def Let_def using a a3 b b2
    by (intro exI [of _ k] exI [of _ n] exI [of _ cs] exI [of _ ds] exI [of _ fs] exI [of _ gs] exI [of _ "wk_connection w"])
      (simp add: distrib_right)
qed

lemma round_samples_count: "length (round_samples clock p s flags) + length (filter Not flags) = length flags"
proof -
  have "length (round_samples clock p s flags) = sum_list (map (\<lambda>j. if flags ! j then 1 else 0) [0..<length flags])"
    by (simp add: round_samples_def length_concat comp_def Let_def if_distrib cong: if_cong)
  also have "map (\<lambda>j. if flags ! j then 1 else 0) [0..<length flags] = map (\<lambda>b. if b then 1 else (0 :: nat)) (map ((!) flags) [0..<length flags])"
    by simp
  also have "map ((!) flags) [0..<length flags] = flags" by (rule map_nth)
  also have "sum_list (map (\<lambda>b. if b then 1 else 0) flags) + length (filter Not flags) = length flags"
    by (induction flags) simp_all
  finally show ?thesis .
qed

lemma client_measured_count:
  "client_measured uniform seeded options clock c i warmupEnd measurementEnd k samples errors \<Longrightarrow>
   length samples + errors = bo_pipeline options * k"
  by (auto simp: client_measured_def Let_def round_samples_count)

lemma RunWorker_returns:
  assumes "\<forall>j \<ge> k. measurementEnd \<le> clock j" and "warmupEnd \<le> measurementEnd"
  shows "RunWorker uniform seeded clock options c i warmupEnd measurementEnd \<noteq> None"
proof -
  have "\<forall>j \<ge> k. warmupEnd \<le> clock j" using assms order_trans by blast
  from run_until_returns [OF this] run_until_returns [OF assms(1)] show ?thesis
    unfolding RunWorker_def by (auto split: option.splits prod.splits sum.splits)
qed

lemma join_loop_total: "None \<notin> set xs \<Longrightarrow> join_loop xs \<noteq> None"
proof (induction xs)
  case (Cons x xs)
  then show ?case by (cases x) auto
qed simp

lemma join_loop_map: "join_loop xs = Some rs \<Longrightarrow> map (map_option fst) xs = map Some rs"
  by (induction xs arbitrary: rs) (auto split: option.splits prod.splits)

lemma failures_loop_Inr: "failures_loop rs = Inr results \<longleftrightarrow> rs = map Inr results"
  by (induction rs arbitrary: results) (auto simp: result_simps Cons_eq_map_conv)

lemma merge_loop_eq:
  "merge_loop rs (samples, errors) = (samples @ concat (map wr_latencies rs), errors + sum_list (map wr_errors rs))"
  by (induction rs arbitrary: samples errors) simp_all

lemma Calculate_counts:
  "CalculateBenchmarkStatistics samples errors d = Inr st \<Longrightarrow> bs_operations st = length samples \<and> bs_errors st = errors"
  by (auto simp: CalculateBenchmarkStatistics_def Let_def result_simps split: if_splits)

section \<open>Properties\<close>

text \<open>
  (C33) The measurement of the benchmark ends when the clocks of all clients pass the end of the
  measurement, and if it yields statistics, they are those of exactly the measured rounds. A client
  first spends the rounds that begin before the end of the warm-up, whose replies count for nothing; of each
  of its next rounds, those that begin before the end of the measurement, every reply counts
  once: a successful one as an operation, whose latency is the time from the sending of its round to the reading
  taken when it was complete, and an error reply as an error. Operations and errors together are as many as the
  commands of the measured rounds of all clients.
\<close>

theorem benchmark_counts_every_reply_once:
  assumes "\<forall>i < bo_clients options. \<exists>k. \<forall>j \<ge> k. measurementEnd \<le> clocks i j" and "warmupEnd \<le> measurementEnd"
  shows "\<exists>r. bench_workers uniform seeded clocks options connections warmupEnd measurementEnd = Some r \<and>
    (\<forall>st. r = Inr st \<longrightarrow> (\<exists>rounds samples errors.
       length rounds = bo_clients options \<and> length samples = bo_clients options \<and> length errors = bo_clients options \<and>
       (\<forall>i < bo_clients options. client_measured uniform seeded options (clocks i) (connections ! i) i warmupEnd measurementEnd
          (rounds ! i) (samples ! i) (errors ! i)) \<and>
       CalculateBenchmarkStatistics (concat samples) (sum_list errors) (double_of_int (int (bo_durationSeconds options))) = Inr st \<and>
       bs_operations st = length (concat samples) \<and> bs_errors st = sum_list errors \<and>
       bs_operations st + bs_errors st = bo_pipeline options * sum_list rounds))"
proof -
  let ?n = "bo_clients options"
  define run where "run = (\<lambda>i. RunWorker uniform seeded (clocks i) options (connections ! i) i warmupEnd measurementEnd)"
  have "run i \<noteq> None" if "i < ?n" for i
    using assms that RunWorker_returns unfolding run_def by blast
  then have "\<forall>x \<in> set (map run [0..<?n]). x \<noteq> None" by simp
  then have "None \<notin> set (map run [0..<?n])" by blast
  from join_loop_total [OF this] obtain rs where rs: "join_loop (map run [0..<?n]) = Some rs" by blast
  define r where "r = rbind (failures_loop rs) (\<lambda>results. case merge_loop results ([], 0) of
    (samples, errors) \<Rightarrow> CalculateBenchmarkStatistics samples errors (double_of_int (int (bo_durationSeconds options))))"
  have bw: "bench_workers uniform seeded clocks options connections warmupEnd measurementEnd = Some r"
    using rs by (simp add: bench_workers_def r_def run_def)
  define M where "M = (\<lambda>i k. client_measured uniform seeded options (clocks i) (connections ! i) i warmupEnd measurementEnd k)"
  have "\<exists>rounds samples errors. length rounds = ?n \<and> length samples = ?n \<and> length errors = ?n \<and>
      (\<forall>i < ?n. M i (rounds ! i) (samples ! i) (errors ! i)) \<and>
      CalculateBenchmarkStatistics (concat samples) (sum_list errors) (double_of_int (int (bo_durationSeconds options))) = Inr st \<and>
      bs_operations st = length (concat samples) \<and> bs_errors st = sum_list errors \<and>
      bs_operations st + bs_errors st = bo_pipeline options * sum_list rounds"
    if "r = Inr st" for st
  proof -
    from that obtain results where res: "rs = map Inr results"
      and st: "CalculateBenchmarkStatistics (concat (map wr_latencies results)) (sum_list (map wr_errors results))
        (double_of_int (int (bo_durationSeconds options))) = Inr st"
      by (auto simp: r_def result_simps failures_loop_Inr merge_loop_eq)
    have maps: "map (map_option fst \<circ> run) [0..<?n] = map (Some \<circ> Inr) results"
      using join_loop_map [OF rs] by (simp add: res)
    from arg_cong [OF maps, of length] have len: "length results = ?n" by simp
    have "\<exists>k. M i k (wr_latencies (results ! i)) (wr_errors (results ! i))" if "i < ?n" for i
    proof -
      from arg_cong [OF maps, of "\<lambda>xs. xs ! i"] that len have "map_option fst (run i) = Some (Inr (results ! i))" by simp
      then obtain w where "run i = Some (Inr (results ! i), w)" by auto
      from RunWorker_measured [OF this [unfolded run_def]] show ?thesis unfolding M_def by blast
    qed
    then obtain k where k: "\<And>i. i < ?n \<Longrightarrow> M i (k i) (wr_latencies (results ! i)) (wr_errors (results ! i))" by metis
    let ?rounds = "map k [0..<?n]"
    have "map (\<lambda>r. length (wr_latencies r) + wr_errors r) results = map (\<lambda>k. bo_pipeline options * k) ?rounds"
      using client_measured_count [OF k [unfolded M_def]] by (intro nth_equalityI) (simp_all add: len)
    from arg_cong [OF this, of sum_list]
    have "length (concat (map wr_latencies results)) + sum_list (map wr_errors results) = bo_pipeline options * sum_list ?rounds"
      by (simp add: sum_list_addf sum_list_const_mult length_concat comp_def)
    then show ?thesis using Calculate_counts [OF st] st k len
      by (intro exI [of _ ?rounds] exI [of _ "map wr_latencies results"] exI [of _ "map wr_errors results"]) simp
  qed
  with bw show ?thesis unfolding M_def by blast
qed

text \<open>One client that measures a successful reply; a second reply stays unread.\<close>

definition demo_options :: Options where
  "demo_options = bench_defaults\<lparr>bo_workload := ''PING''\<rparr>"

definition demo_connection :: Connection where
  "demo_connection = \<lparr>cn_incoming = RespCodec_SimpleString ''PONG'' @ RespCodec_Error ''late'', cn_sent = []\<rparr>"

lemma demo_worker:
  "\<exists>w. RunWorker (\<lambda>a b g. (a, g)) id int demo_options demo_connection 0 0 2 = Some (Inr \<lparr>wr_latencies = [1], wr_errors = 0\<rparr>, w)"
proof -
  have "RespConnection_ReadResponse (Suc 32) (RespCodec_SimpleString ''PONG'' @ RespCodec_Error ''late'') = (Inr True, RespCodec_Error ''late'')"
    by (rule read_simple)
  then have read: "RespConnection_ReadResponse 33 (RespCodec_SimpleString ''PONG'' @ RespCodec_Error ''late'') = (Inr True, RespCodec_Error ''late'')"
    by simp
  have options: "bo_pipeline demo_options = 1" "bo_workload demo_options = ''PING''" by (simp_all add: demo_options_def bench_defaults_def)
  let ?r = "\<lparr>wr_latencies = [], wr_errors = 0\<rparr>"
  have build: "build_loop (\<lambda>a b g. (a, g)) demo_options (Suc 0) w =
      (Inr [[''PING'']], w\<lparr>wk_sequence := (wk_sequence w + 1) mod 2 ^ 64\<rparr>)" for w :: "nat Worker"
    by (simp add: BuildCommand_def options)
  have batch: "worker_batch (\<lambda>a b g. (a, g)) int demo_options True ?r
      \<lparr>wk_generator = g, wk_sequence = 0, wk_connection = demo_connection, wk_readings = 2\<rparr> =
      (Inr \<lparr>wr_latencies = [1], wr_errors = 0\<rparr>, \<lparr>wk_generator = g, wk_sequence = 1,
        wk_connection = \<lparr>cn_incoming = RespCodec_Error ''late'', cn_sent = RespConnection_pipeline [[''PING'']]\<rparr>, wk_readings = 4\<rparr>)"
    for g :: nat
    by (simp add: worker_batch_def options build RespConnection_ExecutePipeline_def receive_def demo_connection_def read
        del: RespConnection_ReadResponse.simps build_loop.simps)
  show ?thesis
    by (simp add: RunWorker_def run_until.simps [of _ _ _ 0] run_until.simps [of _ _ _ 2] batch numeral_2_eq_2 [symmetric]
        del: RespConnection_ReadResponse.simps)
qed

theorem benchmark_counts_every_reply_once_witness:
  "\<exists>st. bench_workers (\<lambda>a b g. (a, g)) id (\<lambda>_. int) demo_options [demo_connection] 0 2 = Some (Inr st) \<and>
     bs_operations st = 1 \<and> bs_errors st = 0 \<and>
     (\<exists>samples errors. client_measured ((\<lambda>a b g. (a, g)) :: nat uniform) id demo_options int demo_connection 0 0 2 1 samples errors)"
proof -
  let ?u = "(\<lambda>a b g. (a, g)) :: nat uniform"
  have clients: "bo_clients demo_options = 1" "bo_durationSeconds demo_options = 60" "bo_pipeline demo_options = 1"
    by (simp_all add: demo_options_def bench_defaults_def)
  have "is_ok (CalculateBenchmarkStatistics [1] 0 (double_of_int 60))" by code_simp
  then obtain st where st: "CalculateBenchmarkStatistics [1] 0 (double_of_int 60) = Inr st"
    by (cases "CalculateBenchmarkStatistics [1] 0 (double_of_int 60)") simp_all
  obtain w where w: "RunWorker ?u id int demo_options demo_connection 0 0 2 = Some (Inr \<lparr>wr_latencies = [1], wr_errors = 0\<rparr>, w)"
    using demo_worker by blast
  have bw: "bench_workers ?u id (\<lambda>_. int) demo_options [demo_connection] 0 2 = Some (Inr st)"
    using st by (simp add: bench_workers_def clients w)
  have "\<forall>i < bo_clients demo_options. \<exists>k. \<forall>j \<ge> k. (2 :: int) \<le> int j" by (intro allI impI exI [of _ 2]) simp
  from benchmark_counts_every_reply_once [where clocks = "\<lambda>_. int" and measurementEnd = 2 and warmupEnd = 0 and uniform = ?u
      and seeded = id and connections = "[demo_connection]", OF this] bw
  obtain rounds samples errors where "length rounds = 1"
    and cm: "client_measured ?u id demo_options int demo_connection 0 0 2 (rounds ! 0) (samples ! 0) (errors ! 0)"
    and sum: "bs_operations st + bs_errors st = sum_list rounds"
    by (auto simp: clients)
  then have rounds: "rounds = [rounds ! 0]" by (cases rounds) simp_all
  have counts: "bs_operations st = 1" "bs_errors st = 0" using Calculate_counts [OF st] by simp_all
  from sum counts have "sum_list rounds = 1" by simp
  then have "rounds ! 0 = 1" by (subst (asm) rounds) simp
  with cm bw counts show ?thesis by auto
qed

end
