(* ===== verification/Bench_Keys.thy ===== *)
theory Bench_Keys
  imports Bench_Workload
begin

text \<open>
  What the reading workloads of \<^verbatim>\<open>benchmarks/RadishBench.cpp\<close> measure against the server: after
  the database was filled, \<^verbatim>\<open>GET_HIT\<close> and \<^verbatim>\<open>EXISTS\<close> always find their key and
  \<^verbatim>\<open>GET_MISS\<close> never does, if keys are long enough to hold their numbers. With shorter keys, numbers
  are cut off and different keys become one.
\<close>

section \<open>Keys\<close>

lemma length_to_string_mono: "m \<le> n \<Longrightarrow> length (to_string_nat m) \<le> length (to_string_nat n)"
proof (induction n arbitrary: m rule: to_string_nat.induct)
  case (1 n)
  show ?case
  proof (cases "m < 10")
    case True
    then show ?thesis by (subst (1 2) to_string_nat.simps) (simp add: Suc_leI)
  next
    case False
    with 1 have "length (to_string_nat (m div 10)) \<le> length (to_string_nat (n div 10))" by (simp add: div_le_mono)
    with False 1(2) show ?thesis by (subst (1 2) to_string_nat.simps) simp
  qed
qed

text \<open>The size of a key has room for \<^verbatim>\<open>bench:\<close> and all digits of its number.\<close>

definition key_fits :: "nat \<Rightarrow> nat \<Rightarrow> bool" where
  "key_fits n i \<longleftrightarrow> 6 + length (to_string_nat i) \<le> n"

lemma key_fits_mono: "i \<le> j \<Longrightarrow> key_fits n j \<Longrightarrow> key_fits n i"
  using length_to_string_mono [of i j] by (simp add: key_fits_def)

lemma MakeKey_digits:
  assumes "key_fits n i"
  shows "takeWhile is_digit (drop 6 (MakeKey i n)) = to_string_nat i"
proof -
  have "MakeKey i n = ''bench:'' @ to_string_nat i @ replicate (n - (6 + length (to_string_nat i))) (CHR ''k'')"
    using assms by (auto simp: MakeKey_def Let_def key_fits_def numeral_eq_Suc)
  moreover have "\<not> is_digit (CHR ''k'')" by (simp add: is_digit_def)
  ultimately show ?thesis using to_string_nat_digits [of i] by (simp add: takeWhile_append)
qed

lemma MakeKey_inj:
  assumes "key_fits n i" and "key_fits n j" and "MakeKey i n = MakeKey j n"
  shows "i = j"
proof -
  from assms MakeKey_digits have "to_string_nat i = to_string_nat j" by metis
  then show ?thesis using decimal_value_to_string by metis
qed

lemma length_MakeKey [simp]: "length (MakeKey i n) = n"
  by (auto simp: MakeKey_def Let_def numeral_eq_Suc)

section \<open>The contents after filling and the replies to expect\<close>

definition filled :: "Options \<Rightarrow> nat \<Rightarrow> char list view" where
  "filled options n k = (if k \<in> (\<lambda>i. MakeKey i (bo_keySize options)) ` {..<n} then Some (MakeValue (bo_valueSize options), None) else None)"

definition bench_reply :: "Options \<Rightarrow> RespVersion \<Rightarrow> string" where
  "bench_reply options v =
     (if bo_workload options = ''PING'' then RespCodec_SimpleString ''PONG''
      else if bo_workload options = ''GET_HIT'' then RespCodec_BulkString (Some (MakeValue (bo_valueSize options))) v
      else if bo_workload options = ''GET_MISS'' then RespCodec_BulkString None v
      else if bo_workload options = ''EXISTS'' then RespCodec_Integer 1
      else RespCodec_Integer (int (bo_keyCount options)))"

text \<open>Options under which the numbers of keys do not wrap around and fit into keys, and the server takes the requests.\<close>

definition bench_ok :: "Options \<Rightarrow> bool" where
  "bench_ok options \<longleftrightarrow> bo_workload options \<in> {''PING'', ''GET_HIT'', ''GET_MISS'', ''EXISTS'', ''DBSIZE''} \<and>
     0 < bo_keyCount options \<and> 2 * bo_keyCount options \<le> 2 ^ 64 \<and>
     key_fits (bo_keySize options) (2 * bo_keyCount options - 1) \<and>
     bo_keySize options \<le> kMaxBulkLength \<and> bo_valueSize options \<le> kMaxBulkLength"

lemma filled_Suc:
  "(filled options n)(MakeKey n (bo_keySize options) \<mapsto> (MakeValue (bo_valueSize options), None)) = filled options (Suc n)"
  by (auto simp: filled_def lessThan_Suc fun_eq_iff)

lemma filled_0: "filled options 0 = Map.empty"
  by (simp add: filled_def fun_eq_iff)

lemma view_get_filled:
  "view_get now (filled options n) k =
    (if k \<in> (\<lambda>i. MakeKey i (bo_keySize options)) ` {..<n} then Some (MakeValue (bo_valueSize options)) else None)"
  by (simp add: view_get_def filled_def)

lemma scan_filled:
  assumes "bench_ok options" and "scan_ok now (filled options (bo_keyCount options)) ks"
  shows "length ks = bo_keyCount options"
proof -
  let ?key = "\<lambda>i. MakeKey i (bo_keySize options)"
  have fits: "key_fits (bo_keySize options) i" if "i < bo_keyCount options" for i
    by (rule key_fits_mono [of _ "2 * bo_keyCount options - 1"]) (use assms(1) that in \<open>simp_all add: bench_ok_def\<close>)
  have "inj_on ?key {..<bo_keyCount options}"
    by (rule inj_onI) (use fits MakeKey_inj in \<open>metis lessThan_iff\<close>)
  moreover have "set ks = ?key ` {..<bo_keyCount options}" "distinct ks"
    using assms(2) by (auto simp: scan_ok_def view_get_filled split: if_splits)
  ultimately show ?thesis using distinct_card [of ks] card_image [of ?key "{..<bo_keyCount options}"] by simp
qed

section \<open>Commands against the specification\<close>

text \<open>A command that some state of the generator and the counter gives, as every command of a pipeline is.\<close>

definition built :: "'g uniform \<Rightarrow> Options \<Rightarrow> string list \<Rightarrow> bool" where
  "built uniform options command \<longleftrightarrow> (\<exists>g sequence g'. BuildCommand uniform options g sequence = (Inr command, g'))"

lemma build_loop_built:
  "build_loop uniform options n w = (Inr commands, w') \<Longrightarrow> length commands = n \<and> list_all (built uniform options) commands"
proof (induction n arbitrary: w commands)
  case (Suc n)
  obtain r g where b: "BuildCommand uniform options (wk_generator w) (wk_sequence w) = (r, g)" by fastforce
  with Suc.prems obtain command commands' where r: "r = Inr command" and eq: "commands = command # commands'"
    and more: "build_loop uniform options n (w\<lparr>wk_generator := g, wk_sequence := (wk_sequence w + 1) mod 2 ^ 64\<rparr>) = (Inr commands', w')"
    by (cases r) (auto simp: sbind_eq_Inr)
  have "built uniform options command" unfolding built_def using b r by blast
  with Suc.IH [OF more] eq show ?case by simp
qed simp

lemma classify_bench:
  "classify [''PING''] = Ping" "classify [''SET'', k, x] = Set k x" "classify [''GET'', k] = Get k"
  "classify [''EXISTS'', k] = Exists [k]" "classify [''DBSIZE''] = DbSize"
  by (simp_all add: classify_def classify_known_def Uppercase_def toupper_def)

lemma built_cases:
  assumes "built uniform options command" and "uniform_ok uniform" and "bench_ok options"
  obtains (ping) "bo_workload options = ''PING''" "command = [''PING'']"
  | (hit) i where "bo_workload options = ''GET_HIT''" "i < bo_keyCount options" "command = [''GET'', MakeKey i (bo_keySize options)]"
  | (miss) i where "bo_workload options = ''GET_MISS''" "i < bo_keyCount options"
      "command = [''GET'', MakeKey (bo_keyCount options + i) (bo_keySize options)]"
  | (exists) i where "bo_workload options = ''EXISTS''" "i < bo_keyCount options" "command = [''EXISTS'', MakeKey i (bo_keySize options)]"
  | (dbsize) "bo_workload options = ''DBSIZE''" "command = [''DBSIZE'']"
proof -
  from assms(1) obtain g sequence g' where b: "BuildCommand uniform options g sequence = (Inr command, g')"
    by (auto simp: built_def)
  have draw: "fst (uniform 0 (bo_keyCount options - 1) h) < bo_keyCount options" for h
    using assms(2,3) by (auto simp: uniform_ok_def bench_ok_def intro: le_less_trans [of _ "bo_keyCount options - 1"])
  obtain i g1 where i: "uniform 0 (bo_keyCount options - 1) g = (i, g1)" by fastforce
  obtain j g2 where j: "uniform 0 (bo_keyCount options - 1) g1 = (j, g2)" by fastforce
  from draw [of g] draw [of g1] i j have ij: "i < bo_keyCount options" "j < bo_keyCount options" by simp_all
  with assms(3) have "bo_keyCount options + j < 2 ^ 64" by (simp add: bench_ok_def)
  then have wrap: "(bo_keyCount options + j) mod 2 ^ 64 = bo_keyCount options + j" by (rule mod_less)
  from assms(3) consider "bo_workload options = ''PING''" | "bo_workload options = ''GET_HIT''" | "bo_workload options = ''GET_MISS''"
    | "bo_workload options = ''EXISTS''" | "bo_workload options = ''DBSIZE''" by (auto simp: bench_ok_def)
  then show thesis
    by cases (use b i j ij wrap that in \<open>simp_all add: BuildCommand_def\<close>)
qed

lemma built_spec:
  assumes "built uniform options command" and "uniform_ok uniform" and "bench_ok options"
    and "spec_reply env (classify command) v (filled options (bo_keyCount options)) reply"
  shows "reply = bench_reply options v" and "spec_next ttl env (classify command) w = w"
    and "spec_close (classify command) = False" and "spec_version (classify command) v = v" and "\<not> self_rename (classify command)"
proof -
  have size: "6 < kMaxBulkLength" "bo_keySize options \<le> kMaxBulkLength" using assms(3) by (simp_all add: kMaxBulkLength_def bench_ok_def)
  note eval = classify_bench spec_next_def spec_close_def spec_version_def self_rename_def args_ok_def
  from assms(1-3)
  have "reply = bench_reply options v \<and> spec_next ttl env (classify command) w = w \<and> spec_close (classify command) = False \<and>
    spec_version (classify command) v = v \<and> \<not> self_rename (classify command)"
  proof (cases rule: built_cases)
    case ping
    with assms(4) size show ?thesis by (simp add: eval bench_reply_def spec_reply_def)
  next
    case (hit i)
    with assms(4) size show ?thesis by (auto simp: eval bench_reply_def spec_reply_def view_get_filled split: if_splits)
  next
    case (miss i)
    have "bo_keyCount options + i \<noteq> j \<and> MakeKey (bo_keyCount options + i) (bo_keySize options) \<noteq> MakeKey j (bo_keySize options)"
      if "j < bo_keyCount options" for j
    proof -
      have "key_fits (bo_keySize options) (bo_keyCount options + i)" "key_fits (bo_keySize options) j"
        by (rule key_fits_mono [of _ "2 * bo_keyCount options - 1"]; use assms(3) miss(2) that in \<open>simp add: bench_ok_def\<close>)+
      then show ?thesis using MakeKey_inj that by fastforce
    qed
    with miss assms(4) size show ?thesis by (auto simp: eval bench_reply_def spec_reply_def view_get_filled split: if_splits)
  next
    case (exists i)
    with assms(4) size show ?thesis by (auto simp: eval bench_reply_def spec_reply_def view_get_filled split: if_splits)
  next
    case dbsize
    with assms(4) size scan_filled [OF assms(3)] show ?thesis by (auto simp: eval bench_reply_def spec_reply_def)
  qed
  then show "reply = bench_reply options v" "spec_next ttl env (classify command) w = w" "spec_close (classify command) = False"
    "spec_version (classify command) v = v" "\<not> self_rename (classify command)" by blast+
qed

lemma built_args:
  assumes "built uniform options command" and "uniform_ok uniform" and "bench_ok options"
  shows "args_ok command"
proof -
  have "6 < kMaxBulkLength" "bo_keySize options \<le> kMaxBulkLength" using assms(3) by (simp_all add: kMaxBulkLength_def bench_ok_def)
  with assms show ?thesis by (cases rule: built_cases) (simp_all add: args_ok_def)
qed

section \<open>Commands against a database\<close>

context kv_backend
begin

lemma answer_request:
  assumes "inv c st w" and "args_ok args" and "iteration_order (env_ord env)"
    and "answer env args v st = (Inr (reply, close), v', st')"
  shows "spec_reply env (classify args) v w reply" and "close = spec_close (classify args)" and "v' = spec_version (classify args) v"
    and "inv (c \<and> \<not> self_rename (classify args)) st' (spec_next ttl env (classify args) w)"
  using perform_refines [OF assms(1) classify_ok [OF assms(2)] assms(3), of v "Inr (reply, close)" v' st'] assms(2,4)
  by (simp_all add: answer_classify args_ok_def)

lemma serve_filling:
  assumes "ttl = -1" and "\<forall>i. iteration_order (env_ord (envs i))" and "bench_ok options" and "inv c st (filled options n)"
    and "serve envs j (map (\<lambda>i. [''SET'', MakeKey i (bo_keySize options), MakeValue (bo_valueSize options)]) [n..<n + m]) v st =
      Inr (replies, ended, v', st')"
  shows "replies = replicate m (RespCodec_SimpleString ''OK'') \<and> inv c st' (filled options (n + m))"
  using assms(4,5)
proof (induction m arbitrary: n j v st replies)
  case (Suc m)
  let ?cmd = "[''SET'', MakeKey n (bo_keySize options), MakeValue (bo_valueSize options)]"
  have upt: "[n..<n + Suc m] = n # [Suc n..<Suc n + m]" by (simp add: upt_conv_Cons del: upt_Suc)
  obtain x v1 st1 where a: "answer (envs j) ?cmd v st = (x, v1, st1)" by (rule prod_cases3)
  note served = Suc.prems(2) [unfolded upt list.map]
  from served a obtain reply close where x: "x = Inr (reply, close)" by (cases x) auto
  have args: "args_ok ?cmd" using assms(3) by (simp add: args_ok_def bench_ok_def kMaxBulkLength_def MakeValue_def)
  note r = answer_request [OF Suc.prems(1) args _ a [unfolded x]]
  have spec: "reply = RespCodec_SimpleString ''OK''" "\<not> close" "v1 = v" "inv c st1 (filled options (Suc n))"
    using r assms(1,2) by (simp_all add: classify_bench spec_reply_def spec_close_def spec_version_def spec_next_def self_rename_def
        expiry_def filled_Suc)
  then obtain replies' where "serve envs (Suc j) (map (\<lambda>i. [''SET'', MakeKey i (bo_keySize options), MakeValue (bo_valueSize options)])
      [Suc n..<Suc n + m]) v st1 = Inr (replies', ended, v', st')" and eq: "replies = reply # replies'"
    using served a x by (auto simp: result_simps)
  from Suc.IH [OF spec(4) this(1)] eq spec(1) show ?case by simp
qed simp

lemma serve_reading:
  assumes "\<forall>i. iteration_order (env_ord (envs i))" and "bench_ok options" and "uniform_ok uniform"
    and "inv c st (filled options (bo_keyCount options))" and "list_all (built uniform options) commands"
    and "serve envs j commands v st = Inr (replies, ended, v', st')"
  shows "replies = replicate (length commands) (bench_reply options v) \<and> inv c st' (filled options (bo_keyCount options))"
  using assms(4-6)
proof (induction commands arbitrary: j v st replies)
  case (Cons command commands)
  obtain x v1 st1 where a: "answer (envs j) command v st = (x, v1, st1)" by (rule prod_cases3)
  with Cons.prems(3) obtain reply close where x: "x = Inr (reply, close)" by (cases x) auto
  have built: "built uniform options command" using Cons.prems(2) by simp
  note spec = built_spec [OF built assms(3,2)]
  have "args_ok command" by (rule built_args [OF built assms(3,2)])
  note r = answer_request [OF Cons.prems(1) this _ a [unfolded x]]
  from r(1) assms(1) have s: "spec_reply (envs j) (classify command) v (filled options (bo_keyCount options)) reply" by blast
  have next_state: "reply = bench_reply options v" "\<not> close" "v1 = v" "inv c st1 (filled options (bo_keyCount options))"
    using r assms(1) spec(1-5) [OF s] by simp_all
  then obtain replies' where "serve envs (Suc j) commands v st1 = Inr (replies', ended, v', st')" and eq: "replies = reply # replies'"
    using Cons.prems(3) a x by (auto simp: result_simps)
  from Cons.IH [OF next_state(4) _ this(1)] Cons.prems(2) eq next_state(1) show ?case by simp
qed simp

end

section \<open>What the client counts\<close>

lemma read_bench_reply:
  assumes "bench_ok options"
  shows "RespConnection_ReadResponse 33 (bench_reply options v @ rest) = (Inr True, rest)"
proof -
  consider "bench_reply options v = RespCodec_SimpleString ''PONG''" | i where "bench_reply options v = RespCodec_Integer i"
    | x where "bench_reply options v = RespCodec_BulkString x v" "\<And>y. x = Some y \<Longrightarrow> length y < 2 ^ 63"
    using assms by (fastforce simp: bench_reply_def bench_ok_def MakeValue_def kMaxBulkLength_def)
  then show ?thesis
  proof cases
    case 1
    with read_simple [of 32] show ?thesis by (simp del: RespConnection_ReadResponse.simps)
  next
    case (2 i)
    with read_integer [of 32 i rest] show ?thesis by (simp del: RespConnection_ReadResponse.simps)
  next
    case (3 x)
    from read_bulk [OF 3(2), where d = 32] 3(1) show ?thesis by (simp del: RespConnection_ReadResponse.simps)
  qed
qed

lemma read_replicated:
  assumes "\<And>rest. RespConnection_ReadResponse 33 (r @ rest) = (Inr True, rest)"
  shows "RespConnection_ReadResponses n (concat (replicate n r) @ rest) = (Inr (replicate n True), rest)"
  by (induction n) (simp_all add: assms del: RespConnection_ReadResponse.simps)

section \<open>Properties\<close>

text \<open>
  (C32) A database without a time to live, with or without a log, that is empty and then filled by the
  benchmark: however many commands of a reading workload the clients then send, in whatever order, every
  reply is the one that the name of the workload promises (a hit, a miss, one existing key, the number
  of keys), the contents stay as they are, and the client counts every reply as a success. This needs
  keys that are long enough for the numbers they are made of.
\<close>

theorem reading_workloads_measure_what_they_name:
  assumes "bench_ok options" and "uniform_ok uniform"
    and "volatile (-1) c st Map.empty \<or> durable filename (-1) c st Map.empty"
    and "\<forall>i. iteration_order (env_ord (envs i))" and "\<forall>i. iteration_order (env_ord (envs2 i))"
    and "serve envs 0 (Preload_commands options) v st = Inr (filling, ended1, v1, st1)"
    and "list_all (built uniform options) commands"
    and "serve envs2 0 commands v2 st1 = Inr (replies, ended2, v3, st2)"
  shows "filling = replicate (bo_keyCount options) (RespCodec_SimpleString ''OK'') \<and>
    replies = replicate (length commands) (bench_reply options v2) \<and>
    store_view (m_store (fst st2)) = filled options (bo_keyCount options) \<and>
    RespConnection_ReadResponses (length commands) (concat replies @ later) = (Inr (replicate (length commands) True), later)"
proof -
  let ?n = "bo_keyCount options"
  have fill: "serve envs 0 (map (\<lambda>i. [''SET'', MakeKey i (bo_keySize options), MakeValue (bo_valueSize options)]) [0..<0 + ?n]) v st =
      Inr (filling, ended1, v1, st1)"
    using assms(6) by (simp add: Preload_commands_def)
  have "filling = replicate ?n (RespCodec_SimpleString ''OK'') \<and> replies = replicate (length commands) (bench_reply options v2) \<and>
    store_view (m_store (fst st2)) = filled options ?n"
    using assms(3)
  proof
    assume "volatile (-1) c st Map.empty"
    then have "volatile (-1) c st (filled options 0)" by (simp add: filled_0)
    from volatile_db.serve_filling [OF refl assms(4,1) this fill] have
      f: "filling = replicate ?n (RespCodec_SimpleString ''OK'')" "volatile (-1) c st1 (filled options ?n)" by simp_all
    from volatile_db.serve_reading [OF assms(5,1,2) f(2) assms(7,8)] f(1) volatile_db.holds show ?thesis by blast
  next
    assume "durable filename (-1) c st Map.empty"
    then have "durable filename (-1) c st (filled options 0)" by (simp add: filled_0)
    from durable_db.serve_filling [OF refl assms(4,1) this fill] have
      f: "filling = replicate ?n (RespCodec_SimpleString ''OK'')" "durable filename (-1) c st1 (filled options ?n)" by simp_all
    from durable_db.serve_reading [OF assms(5,1,2) f(2) assms(7,8)] f(1) durable_db.holds show ?thesis by blast
  qed
  with read_replicated [OF read_bench_reply [OF assms(1)], where n = "length commands"] show ?thesis by simp
qed

definition small_options :: Options where
  "small_options = bench_defaults\<lparr>bo_workload := ''GET_MISS'', bo_keyCount := 1, bo_keySize := 8, bo_valueSize := 1\<rparr>"

theorem reading_workloads_measure_what_they_name_witness:
  "\<exists>filling ended1 v1 st1 replies ended2 v3 st2.
     serve (\<lambda>_. demo_env) 0 (Preload_commands small_options) Resp2 empty_database = Inr (filling, ended1, v1, st1) \<and>
     serve (\<lambda>_. demo_env) 0 [[''GET'', MakeKey 1 8]] Resp2 st1 = Inr (replies, ended2, v3, st2) \<and>
     replies = [RespCodec_BulkString None Resp2] \<and>
     RespConnection_ReadResponses 1 (concat replies @ ''+OK'') = (Inr [True], ''+OK'')"
proof -
  let ?u = "(\<lambda>a b g. (a, g)) :: nat uniform"
  have fields: "bo_workload small_options = ''GET_MISS''" "bo_keyCount small_options = 1" "bo_keySize small_options = 8"
    "bo_valueSize small_options = 1"
    by (simp_all add: small_options_def bench_defaults_def)
  have ok: "bench_ok small_options"
    by (simp add: bench_ok_def fields key_fits_def to_string_nat.simps kMaxBulkLength_def)
  have u: "uniform_ok ?u" by (simp add: uniform_ok_def)
  have vol: "volatile (-1) True empty_database Map.empty"
    using store_ok_new by (simp add: volatile_def empty_database_def RadishStore_new_def store_view_def umap_find_def fun_eq_iff)
  have built: "list_all (built ?u small_options) [[''GET'', MakeKey 1 8]]"
    by (simp add: built_def BuildCommand_def fields)
  have ords: "\<forall>i. iteration_order (env_ord demo_env)" by (simp add: demo_env_def iteration_order_def)
  have keys: "MakeKey 0 8 = ''bench:0k''" "MakeKey 1 8 = ''bench:1k''" "MakeValue 1 = ''v''" by code_simp+
  then have commands: "Preload_commands small_options = [[''SET'', ''bench:0k'', ''v'']]" "MakeKey 1 8 = ''bench:1k''"
    by (simp_all add: Preload_commands_def fields)
  have "is_ok (rbind (serve (\<lambda>_. demo_env) 0 [[''SET'', ''bench:0k'', ''v'']] Resp2 empty_database)
      (\<lambda>(_, _, _, st1). serve (\<lambda>_. demo_env) 0 [[''GET'', ''bench:1k'']] Resp2 st1))"
    by code_simp
  then have "is_ok (rbind (serve (\<lambda>_. demo_env) 0 (Preload_commands small_options) Resp2 empty_database)
      (\<lambda>(_, _, _, st1). serve (\<lambda>_. demo_env) 0 [[''GET'', MakeKey 1 8]] Resp2 st1))"
    unfolding commands .
  then obtain filling ended1 v1 st1 replies ended2 v3 st2 where
    s: "serve (\<lambda>_. demo_env) 0 (Preload_commands small_options) Resp2 empty_database = Inr (filling, ended1, v1, st1)"
      "serve (\<lambda>_. demo_env) 0 [[''GET'', MakeKey 1 8]] Resp2 st1 = Inr (replies, ended2, v3, st2)"
    by (auto simp: rbind_def simp del: serve.simps split: sum.splits elim!: is_ok.elims)
  from reading_workloads_measure_what_they_name [OF ok u disjI1 [OF vol] ords ords s(1) built s(2), of "''+OK''"]
  have "replies = [RespCodec_BulkString None Resp2]" "RespConnection_ReadResponses 1 (concat replies @ ''+OK'') = (Inr [True], ''+OK'')"
    by (auto simp: bench_reply_def fields simp del: RespConnection_ReadResponses.simps)
  with s show ?thesis by blast
qed

text \<open>
  With keys of 11 bytes and 100000 of them, the key of number 110000 is that of number 11000: the
  workload \<^verbatim>\<open>GET_MISS\<close> reads keys that exist.
\<close>

lemma short_keys_turn_misses_into_hits:
  assumes "uniform 0 99999 g = (i, g1)" and "uniform 0 99999 g1 = (10000, g2)"
  shows "BuildCommand uniform (bench_defaults\<lparr>bo_workload := ''GET_MISS'', bo_keySize := 11\<rparr>) g sequence =
    (Inr [''GET'', MakeKey 11000 11], g2)"
proof -
  have "MakeKey 110000 11 = MakeKey 11000 11" by (simp add: MakeKey_def to_string_nat.simps digit_char_def)
  with assms show ?thesis by (simp add: BuildCommand_def bench_defaults_def)
qed

end
