(* ===== verification/Test_Cases.thy ===== *)
theory Test_Cases
  imports Server_World Bench_Statistics "HOL-Library.Code_Target_Nat"
begin

text \<open>
  The test cases of the repository (\<^verbatim>\<open>tests\<close>) on the model: each test is a definition with
  the calls of the test in their order and what it requires, and a lemma that evaluates it to true.
  They show that the definitions of the other theories compute what the program is tested for.

  The tests run on a working disk, and hash tables are iterated in the order of insertion. A pause of
  100 milliseconds lies between the readings \<open>early\<close> and \<open>late\<close> of the clock. Starting a thread with
  the server and connecting to it is a completion of the event loop, exchanging bytes with the server
  others.
\<close>

definition early :: Timestamp where
  "early = 1000"

definition late :: Timestamp where
  "late = 1100"

definition no_files :: FileSystem where
  "no_files = (\<lambda>f. None)"

text \<open>A test goes on with the state that a call leaves unless the call throws.\<close>

definition after :: "'a result \<times> 's \<Rightarrow> 's result" where
  "after r = (case r of (Inl e, s) \<Rightarrow> Inl e | (Inr x, s) \<Rightarrow> Inr s)"

definition throws :: "'a result \<Rightarrow> bool" where
  "throws r = (\<not> is_ok r)"

definition in_insertion_order :: "'a list \<Rightarrow> 'a list" where
  "in_insertion_order es = es"

lemma word_of_nat_code [code_unfold]: "(of_nat n :: 'a::len word) = word_of_int (int n)"
  by simp

text \<open>
  For the evaluation: the bytes of a timestamp that says that there is no expiry are known, and a call
  is evaluated before what follows it.
\<close>

fun le_bytes_steps :: "nat \<Rightarrow> nat \<Rightarrow> char list" where
  "le_bytes_steps 0 n = []"
| "le_bytes_steps (Suc k) n = char_of (n mod 256) # le_bytes_steps k (n div 256)"

lemma le_bytes_steps: "le_bytes k n = le_bytes_steps k n"
  by (induction k n rule: le_bytes_steps.induct) simp_all

lemma no_expiry_bytes: "le_bytes_steps 8 18446744073709551615 = replicate 8 (CHR 0xFF)"
  by code_simp

lemma le_bytes_code [code]:
  "le_bytes k n = (if k = 8 \<and> n = 18446744073709551615 then replicate 8 (CHR 0xFF) else le_bytes_steps k n)"
  by (auto simp: le_bytes_steps no_expiry_bytes)

declare rbind_def [code_unfold] sbind_def [code_unfold]

section \<open>The store\<close>

definition store_creates_updates_renames :: "bool result" where
  "store_creates_updates_renames =
     rbind (RadishStore_Create early ''first'' ''one'' None (RadishStore_new (-1))) (\<lambda>(t1, s).
     rbind (RadishStore_Create early ''second'' ''two'' None s) (\<lambda>(t2, s).
     rbind (RadishStore_Create early ''first'' ''updated'' None s) (\<lambda>(t3, s).
     let (renamed, s) = RadishStore_Rename early ''second'' ''renamed'' s in
       Inr (t1 = -1 \<and> t2 = -1 \<and> t3 = -1 \<and> renamed \<and>
         RadishStore_Get early s ''first'' = Some ''updated'' \<and> RadishStore_Get early s ''renamed'' = Some ''two'' \<and>
         \<not> RadishStore_Exists early s ''second'' \<and> RadishStore_Size in_insertion_order (\<lambda>_. early) s = 2))))"

lemma store_creates_updates_renames: "store_creates_updates_renames = Inr True"
  by code_simp

definition store_missing_mutations :: "bool result" where
  "store_missing_mutations =
     rbind (RadishStore_Create early ''key'' ''value'' None (RadishStore_new (-1))) (\<lambda>(_, s).
     let (deleted, s) = RadishStore_Delete ''key'' s;
         (deleted_again, s) = RadishStore_Delete ''key'' s;
         (renamed, s) = RadishStore_Rename early ''missing'' ''new-key'' s;
         (cleared, s) = RadishStore_Clear s in
     rbind (RadishStore_Create early ''key'' ''value'' None s) (\<lambda>(_, s).
     let (cleared_again, s) = RadishStore_Clear s in
       Inr (deleted \<and> \<not> deleted_again \<and> \<not> renamed \<and> \<not> cleared \<and> cleared_again \<and>
         RadishStore_Size in_insertion_order (\<lambda>_. early) s = 0 \<and> RadishStore_Scan in_insertion_order (\<lambda>_. early) s = [])))"

lemma store_missing_mutations: "store_missing_mutations = Inr True"
  by code_simp

definition store_expires :: "bool result" where
  "store_expires =
     rbind (RadishStore_Create early ''session'' ''user'' None (RadishStore_new 50)) (\<lambda>(_, s).
       Inr (RadishStore_Exists early s ''session'' \<and> RadishStore_IsExpired late s ''session'' \<and>
         \<not> RadishStore_Exists late s ''session'' \<and> RadishStore_Get late s ''session'' = None \<and>
         RadishStore_Size in_insertion_order (\<lambda>_. late) s = 0 \<and> RadishStore_Scan in_insertion_order (\<lambda>_. late) s = []))"

lemma store_expires: "store_expires = Inr True"
  by code_simp

section \<open>Events\<close>

definition through_a_stream :: "TType \<Rightarrow> RadishEvent \<Rightarrow> RadishEvent result" where
  "through_a_stream ty event =
     rbind (after (RadishEvent_Serialize ty event ostringstream)) (\<lambda>output.
       fst (RadishEvent_Deserialize ty RadishEvent_default (istringstream (obuf output))))"

definition event_restores_create :: "bool result" where
  "event_restores_create =
     (let event = RadishEvent_new CREATE 123 (Some ''blob'') None (Some [CHR 0x00, CHR 0xFF]) in
      rbind (through_a_stream (HeapAllocated 1) event) (\<lambda>restored.
        Inr (GetEventType restored = CREATE \<and> GetTimestamp restored = 123 \<and> GetKey restored = Some ''blob'' \<and>
          GetPayload restored = GetPayload event)))"

lemma event_restores_create: "event_restores_create = Inr True"
  by code_simp

definition event_restores_fields :: "RadishEvent \<Rightarrow> bool result" where
  "event_restores_fields event =
     rbind (through_a_stream std_string event) (\<lambda>restored.
       Inr (GetEventType restored = GetEventType event \<and> GetTimestamp restored = GetTimestamp event \<and>
         GetKey restored = GetKey event \<and> GetRenameKey restored = GetRenameKey event \<and> GetPayload restored = None))"

lemma event_restores_fields:
  "map event_restores_fields
     [RadishEvent_new RENAME (-1) (Some ''old'') (Some ''new'') None, RadishEvent_new DELETE (-1) (Some ''key'') None None,
      RadishEvent_new CLEAR (-1) None None None] = [Inr True, Inr True, Inr True]"
  by code_simp

definition event_rejects_types :: bool where
  "event_rejects_types \<longleftrightarrow>
     throws (fst (RadishEvent_Serialize (BinaryType 4) (RadishEvent_new 255 (-1) None None None) ostringstream))"

lemma event_rejects_types: event_rejects_types
  by code_simp

section \<open>The log\<close>

abbreviation appended :: "PersistenceLog \<Rightarrow> RadishEvent \<Rightarrow> FileSystem \<Rightarrow> FileSystem result" where
  "appended plog event fs \<equiv> after (PersistenceLog_Append std_string plog healthy event fs)"

fun append_all :: "PersistenceLog \<Rightarrow> RadishEvent list \<Rightarrow> FileSystem \<Rightarrow> FileSystem result" where
  "append_all plog [] fs = Inr fs"
| "append_all plog (event # events) fs = rbind (appended plog event fs) (append_all plog events)"

text \<open>A new log with some events.\<close>

definition log_with :: "string \<Rightarrow> RadishEvent list \<Rightarrow> (PersistenceLog \<times> FileSystem) result" where
  "log_with filename events =
     (case PersistenceLog_new filename ''/tmp'' healthy no_files of
        (Inl e, fs) \<Rightarrow> Inl e
      | (Inr plog, fs) \<Rightarrow> rbind (append_all plog events fs) (\<lambda>fs. Inr (plog, fs)))"

definition replayed :: "PersistenceLog \<Rightarrow> FileSystem \<Rightarrow> char list RadishStore result" where
  "replayed plog fs = PersistenceLog_Replay std_string plog healthy (\<lambda>_. early) fs (RadishStore_new (-1))"

definition log_replays_mutations :: "bool result" where
  "log_replays_mutations =
     rbind (log_with ''log.radish''
       [RadishEvent_new CREATE (-1) (Some ''old'') None (Some ''value''),
        RadishEvent_new RENAME (-1) (Some ''old'') (Some ''new'') None,
        RadishEvent_new DELETE (-1) (Some ''new'') None None,
        RadishEvent_new CREATE (-1) (Some ''discarded'') None (Some ''value''),
        RadishEvent_new CLEAR (-1) None None None,
        RadishEvent_new CREATE (-1) (Some ''survives'') None (Some ''final'')]) (\<lambda>(plog, fs).
     rbind (replayed plog fs) (\<lambda>store.
       Inr (RadishStore_Size in_insertion_order (\<lambda>_. early) store = 1 \<and> RadishStore_Get early store ''survives'' = Some ''final'')))"

lemma log_replays_mutations: "log_replays_mutations = Inr True"
  by code_simp

definition log_restores_bytes :: "bool result" where
  "log_restores_bytes =
     (let payload = [CHR 0x00, CHR 0x01, CHR 0xFE, CHR 0xFF] in
      rbind (log_with ''log.radish'' [RadishEvent_new CREATE (-1) (Some ''blob'') None (Some payload)]) (\<lambda>(plog, fs).
      rbind (replayed plog fs) (\<lambda>store.
        Inr (map_option (take 8) (fs ''/tmp/log.radish'') = Some (''RADISH'' @ [CHR 0x00, CHR 0x01]) \<and>
          RadishStore_Get early store ''blob'' = Some payload))))"

lemma log_restores_bytes: "log_restores_bytes = Inr True"
  by code_simp

definition log_compaction_preserves :: "bool result" where
  "log_compaction_preserves =
     rbind (log_with ''log.radish''
       [RadishEvent_new CREATE (-1) (Some ''before'') None (Some ''value''),
        RadishEvent_new RENAME (-1) (Some ''before'') (Some ''after'') None]) (\<lambda>(plog, fs).
     rbind (after (PersistenceLog_Compact std_string plog healthy in_insertion_order (\<lambda>_. early) (\<lambda>_. early) fs)) (\<lambda>fs.
     rbind (replayed plog fs) (\<lambda>store.
       Inr (\<not> RadishStore_Exists early store ''before'' \<and> RadishStore_Get early store ''after'' = Some ''value''))))"

lemma log_compaction_preserves: "log_compaction_preserves = Inr True"
  by code_simp

text \<open>A missing directory shows as a file that cannot be created.\<close>

definition log_rejects :: bool where
  "log_rejects \<longleftrightarrow>
     throws (LogReader_GetEvents std_string ''/tmp/log.radish'' healthy
       (no_files(''/tmp/log.radish'' \<mapsto> ''invalid!''))) \<and>
     throws (fst (PersistenceLog_new ''data.radish'' ''/tmp/missing'' (healthy\<lparr>dev_open_write := False\<rparr>) no_files))"

lemma log_rejects: log_rejects
  by code_simp

definition log_ignores_torn_record :: "bool result" where
  "log_ignores_torn_record =
     rbind (log_with ''log.radish'' [RadishEvent_new CREATE (-1) (Some ''key'') None (Some ''value'')]) (\<lambda>(plog, fs).
     let file = m_filename (m_writer plog); content = file_content fs file in
     rbind (LogReader_GetEvents std_string file healthy (fs(file \<mapsto> take (length content - 1) content))) (\<lambda>events.
       Inr (events = [])))"

lemma log_ignores_torn_record: "log_ignores_torn_record = Inr True"
  by code_simp

section \<open>The database\<close>

text \<open>Opening a database, and the calls of a test on it with the files they leave.\<close>

definition on_database ::
    "RadishDB result \<times> FileSystem \<Rightarrow> (RadishDB \<times> FileSystem \<Rightarrow> 'a result) \<Rightarrow> 'a result" where
  "on_database r body = (case r of (Inl e, fs) \<Rightarrow> Inl e | (Inr db, fs) \<Rightarrow> body (db, fs))"

declare on_database_def [code_unfold]

definition database_persists_mutations :: "bool result" where
  "database_persists_mutations =
     on_database (RadishDB_new std_string ''db'' Flush healthy (\<lambda>_. early) no_files) (\<lambda>st.
     rbind (after (RadishDB_Create std_string early healthy ''first'' ''one'' st)) (\<lambda>st.
     rbind (after (RadishDB_Create std_string early healthy ''second'' ''two'' st)) (\<lambda>st.
     rbind (after (RadishDB_Create std_string early healthy ''first'' ''updated'' st)) (\<lambda>st.
     rbind (after (RadishDB_Rename std_string early healthy ''second'' ''renamed'' st)) (\<lambda>st.
     rbind (after (RadishDB_Delete std_string early healthy ''first'' st)) (\<lambda>(db, fs).
     on_database (RadishDB_new std_string ''db'' Flush healthy (\<lambda>_. early) fs) (\<lambda>(db1, fs1).
       Inr (RadishDB_Size in_insertion_order (\<lambda>_. early) db = 1 \<and> \<not> RadishDB_Exists early db ''first'' \<and>
         RadishDB_Get early db ''renamed'' = Some ''two'' \<and>
         RadishDB_Size in_insertion_order (\<lambda>_. early) db1 = 1 \<and>
         RadishDB_Scan in_insertion_order (\<lambda>_. early) db1 = [''renamed''] \<and>
         RadishDB_Get early db1 ''renamed'' = Some ''two'' \<and> \<not> RadishDB_Exists early db1 ''first''))))))))"

lemma database_persists_mutations: "database_persists_mutations = Inr True"
  by code_simp

definition database_persists_clear :: "bool result" where
  "database_persists_clear =
     on_database (RadishDB_new std_string ''db'' Flush healthy (\<lambda>_. early) no_files) (\<lambda>st.
     rbind (after (RadishDB_Create std_string early healthy ''one'' ''1'' st)) (\<lambda>st.
     rbind (after (RadishDB_Create std_string early healthy ''two'' ''2'' st)) (\<lambda>st.
     rbind (after (RadishDB_Clear std_string early healthy st)) (\<lambda>st.
     rbind (after (RadishDB_Delete std_string early healthy ''missing'' st)) (\<lambda>st.
     rbind (after (RadishDB_Rename std_string early healthy ''missing'' ''still-missing'' st)) (\<lambda>(db, fs).
     on_database (RadishDB_new std_string ''db'' Flush healthy (\<lambda>_. early) fs) (\<lambda>(db1, fs1).
       Inr (RadishDB_Size in_insertion_order (\<lambda>_. early) db1 = 0 \<and> RadishDB_Scan in_insertion_order (\<lambda>_. early) db1 = [] \<and>
         \<not> RadishDB_Exists early db1 ''one'' \<and> \<not> RadishDB_Exists early db1 ''still-missing''))))))))"

lemma database_persists_clear: "database_persists_clear = Inr True"
  by code_simp

definition database_expires :: "bool result" where
  "database_expires =
     on_database (RadishDB_new_ttl std_string ''db'' 50 Flush healthy (\<lambda>_. early) no_files) (\<lambda>st.
     rbind (after (RadishDB_Create std_string early healthy ''session'' ''user'' st)) (\<lambda>(db, fs).
     on_database (RadishDB_new_ttl std_string ''db'' 50 Flush healthy (\<lambda>_. late) fs) (\<lambda>(db1, fs1).
       Inr (RadishDB_Exists early db ''session'' \<and> RadishDB_IsExpired late db ''session'' \<and>
         \<not> RadishDB_Exists late db ''session'' \<and> RadishDB_Size in_insertion_order (\<lambda>_. late) db = 0 \<and>
         \<not> RadishDB_Exists late db1 ''session'' \<and> RadishDB_Size in_insertion_order (\<lambda>_. late) db1 = 0))))"

lemma database_expires: "database_expires = Inr True"
  by code_simp

definition database_compacts :: "bool result" where
  "database_compacts =
     on_database (RadishDB_new std_string ''db'' Flush healthy (\<lambda>_. early) no_files) (\<lambda>st.
     rbind (after (RadishDB_Create std_string early healthy ''discarded'' ''old'' st)) (\<lambda>st.
     rbind (after (RadishDB_Create std_string early healthy ''kept'' ''initial'' st)) (\<lambda>st.
     rbind (after (RadishDB_Create std_string early healthy ''kept'' ''latest'' st)) (\<lambda>st.
     rbind (after (RadishDB_Rename std_string early healthy ''kept'' ''final'' st)) (\<lambda>st.
     rbind (after (RadishDB_Delete std_string early healthy ''discarded'' st)) (\<lambda>st.
     rbind (after (RadishDB_Compact std_string healthy in_insertion_order (\<lambda>_. early) (\<lambda>_. early) st)) (\<lambda>(db, fs).
     on_database (RadishDB_new std_string ''db'' Flush healthy (\<lambda>_. early) fs) (\<lambda>(db1, fs1).
       Inr (RadishDB_Size in_insertion_order (\<lambda>_. early) db1 = 1 \<and> RadishDB_Get early db1 ''final'' = Some ''latest'' \<and>
         \<not> RadishDB_Exists early db1 ''kept'' \<and> \<not> RadishDB_Exists early db1 ''discarded'')))))))))"

lemma database_compacts: "database_compacts = Inr True"
  by code_simp

definition database_volatile :: "bool result" where
  "database_volatile =
     on_database (RadishDB_new std_string ''db'' Disabled healthy (\<lambda>_. early) no_files) (\<lambda>st.
     rbind (after (RadishDB_Create std_string early healthy ''ephemeral'' ''value'' st)) (\<lambda>(db, fs).
     on_database (RadishDB_new std_string ''db'' Disabled healthy (\<lambda>_. early) fs) (\<lambda>(db1, fs1).
       Inr (RadishDB_Get early db ''ephemeral'' = Some ''value'' \<and> fs (log_name ''db'') = None \<and>
         \<not> RadishDB_Exists early db1 ''ephemeral''))))"

lemma database_volatile: "database_volatile = Inr True"
  by code_simp

section \<open>The codec\<close>

definition ping_hello :: string where
  "ping_hello = ''*2'' @ CRLF @ ''$4'' @ CRLF @ ''PING'' @ CRLF @ ''$5'' @ CRLF @ ''hello'' @ CRLF"

definition ping :: string where
  "ping = ''*1'' @ CRLF @ ''$4'' @ CRLF @ ''PING'' @ CRLF"

definition codec_parses_fragments :: "bool result" where
  "codec_parses_fragments =
     rbind (ParseCommand (take 12 ping_hello)) (\<lambda>part.
     rbind (ParseCommand (ping_hello @ ping)) (\<lambda>parsed.
     rbind (ParseCommand (drop (rp_consumed parsed) (ping_hello @ ping))) (\<lambda>second.
       Inr (rp_status part = Incomplete \<and> rp_status parsed = Complete \<and> rp_arguments parsed = [''PING'', ''hello''] \<and>
         rp_consumed parsed = length ping_hello \<and> rp_status second = Complete \<and> rp_arguments second = [''PING'']))))"

lemma codec_parses_fragments: "codec_parses_fragments = Inr True"
  by code_simp

definition codec_binary_safe :: "bool result" where
  "codec_binary_safe =
     rbind (ParseCommand (''*2'' @ CRLF @ ''$3'' @ CRLF @ ''SET'' @ CRLF @ ''$3'' @ CRLF @ [CHR ''a'', CHR 0x00, CHR ''b''] @ CRLF)) (\<lambda>parsed.
       Inr (rp_status parsed = Complete \<and> rp_arguments parsed ! 1 = [CHR ''a'', CHR 0x00, CHR ''b'']))"

lemma codec_binary_safe: "codec_binary_safe = Inr True"
  by code_simp

definition codec_encodes_binary :: bool where
  "codec_encodes_binary \<longleftrightarrow>
     EncodeCommand [''SET'', ''key'', [CHR ''a'', CHR 0x00, CHR ''b'']] =
       ''*3'' @ CRLF @ ''$3'' @ CRLF @ ''SET'' @ CRLF @ ''$3'' @ CRLF @ ''key'' @ CRLF @ ''$3'' @ CRLF @
       [CHR ''a'', CHR 0x00, CHR ''b''] @ CRLF"

lemma codec_encodes_binary: codec_encodes_binary
  by code_simp

definition codec_rejects :: "RespStatus result list" where
  "codec_rejects = map (\<lambda>input. rbind (ParseCommand input) (\<lambda>parsed. Inr (rp_status parsed)))
     [''+PING'' @ CRLF, ''*1'' @ CRLF @ ''+PING'' @ CRLF, ''*1025'' @ CRLF, ''*1'' @ CRLF @ ''$4194305'' @ CRLF]"

lemma codec_rejects: "codec_rejects = replicate 4 (Inr StatusError)"
  by code_simp

definition starts_with :: "string \<Rightarrow> string \<Rightarrow> bool" where
  "starts_with s p = (take (length p) s = p)"

definition codec_versions :: bool where
  "codec_versions \<longleftrightarrow>
     RespCodec_BulkString None Resp2 = ''$-1'' @ CRLF \<and> RespCodec_BulkString None Resp3 = ''_'' @ CRLF \<and>
     starts_with (RespCodec_Hello Resp2) (''*12'' @ CRLF) \<and> starts_with (RespCodec_Hello Resp3) (''%6'' @ CRLF)"

lemma codec_versions: codec_versions
  by code_simp

section \<open>The statistics of the benchmark\<close>

definition statistics_percentiles :: "bool result" where
  "statistics_percentiles =
     rbind (CalculateBenchmarkStatistics [4000000, 1000000, 3000000, 2000000] 2 2) (\<lambda>statistics.
       Inr (bs_operations statistics = 4 \<and> bs_errors statistics = 2 \<and> bs_throughput statistics = 2 \<and>
         bs_minimumMilliseconds statistics = 1 \<and> bs_meanMilliseconds statistics = 5 / 2 \<and>
         bs_p50Milliseconds statistics = 2 \<and> bs_p99Milliseconds statistics = 4 \<and>
         bs_p995Milliseconds statistics = 4 \<and> bs_maximumMilliseconds statistics = 4))"

lemma statistics_percentiles: "statistics_percentiles = Inr True"
  by (simp add: statistics_percentiles_def statistics_example)

definition statistics_refuse :: bool where
  "statistics_refuse \<longleftrightarrow> throws (CalculateBenchmarkStatistics [] 0 1) \<and> throws (CalculateBenchmarkStatistics [1000000] 0 0)"

lemma statistics_refuse: statistics_refuse
  by code_simp

section \<open>The server\<close>

definition surroundings :: "nat \<Rightarrow> Env" where
  "surroundings j = \<lparr>env_now = \<lambda>_. early, env_dev = \<lambda>_. healthy, env_ord = in_insertion_order\<rparr>"

definition RunningServer :: "FileSystem \<Rightarrow> World result" where
  "RunningServer fs =
     on_database (RadishDB_new std_string ''db'' Flush healthy (\<lambda>_. early) fs) (\<lambda>db. Inr (World_start db))"

definition Connect :: "World \<Rightarrow> World" where
  "Connect w = snd (io_run [Accepted None] w)"

text \<open>Sending bytes on a connection, and what comes back on it; a session has at most two replies to send here.\<close>

definition Request :: "nat \<Rightarrow> string \<Rightarrow> World \<Rightarrow> string \<times> World" where
  "Request i request w =
     (let w1 = snd (io_run [ReadDone i surroundings (Some request), WriteDone i None, WriteDone i None] w)
      in (drop (length (sk_sent (w_sessions w ! i))) (sk_sent (w_sessions w1 ! i)), w1))"

text \<open>
  What a new server replies to some requests of one connection. The first test sends its requests on one
  connection; here each of them follows only those that it depends on.
\<close>

fun replies :: "string list \<Rightarrow> World \<Rightarrow> string list" where
  "replies [] w = []"
| "replies (request # requests) w = (case Request 0 request w of (reply, w1) \<Rightarrow> reply # replies requests w1)"

definition server_replies :: "string list \<Rightarrow> string list result" where
  "server_replies requests = rbind (RunningServer no_files) (\<lambda>server. Inr (replies requests (Connect server)))"

definition set_key_value :: string where
  "set_key_value =
     ''*3'' @ CRLF @ ''$3'' @ CRLF @ ''SET'' @ CRLF @ ''$3'' @ CRLF @ ''key'' @ CRLF @ ''$5'' @ CRLF @ ''value'' @ CRLF"

definition server_dispatches_ping :: bool where
  "server_dispatches_ping \<longleftrightarrow> server_replies [ping] = Inr [''+PONG'' @ CRLF]"

lemma server_dispatches_ping: server_dispatches_ping
  by code_simp

definition server_dispatches_get :: bool where
  "server_dispatches_get \<longleftrightarrow>
     server_replies [set_key_value, ''*2'' @ CRLF @ ''$3'' @ CRLF @ ''GET'' @ CRLF @ ''$3'' @ CRLF @ ''key'' @ CRLF] =
       Inr [''+OK'' @ CRLF, ''$5'' @ CRLF @ ''value'' @ CRLF]"

lemma server_dispatches_get: server_dispatches_get
  by code_simp

definition server_dispatches_exists :: bool where
  "server_dispatches_exists \<longleftrightarrow>
     server_replies [set_key_value, ''*2'' @ CRLF @ ''$6'' @ CRLF @ ''EXISTS'' @ CRLF @ ''$3'' @ CRLF @ ''key'' @ CRLF] =
       Inr [''+OK'' @ CRLF, '':1'' @ CRLF]"

lemma server_dispatches_exists: server_dispatches_exists
  by code_simp

definition server_dispatches_del :: bool where
  "server_dispatches_del \<longleftrightarrow>
     server_replies [set_key_value, ''*2'' @ CRLF @ ''$3'' @ CRLF @ ''DEL'' @ CRLF @ ''$3'' @ CRLF @ ''key'' @ CRLF] =
       Inr [''+OK'' @ CRLF, '':1'' @ CRLF]"

lemma server_dispatches_del: server_dispatches_del
  by code_simp

definition server_pipelines :: "bool result" where
  "server_pipelines =
     rbind (RunningServer no_files) (\<lambda>server.
     case Request 0 (ping @ ping) (Connect server) of (pongs, w) \<Rightarrow>
     case Request 0 (''*2'' @ CRLF @ ''$5'' @ CRLF @ ''HELLO'' @ CRLF @ ''$1'' @ CRLF @ ''3'' @ CRLF) w of (hello, w) \<Rightarrow>
     Inr (pongs = ''+PONG'' @ CRLF @ ''+PONG'' @ CRLF \<and> starts_with hello (''%6'' @ CRLF)))"

lemma server_pipelines: "server_pipelines = Inr True"
  by code_simp

definition server_rejects_malformed :: "bool result" where
  "server_rejects_malformed =
     rbind (RunningServer no_files) (\<lambda>server.
     case Request 0 ping (Connect (Connect server)) of (first, w) \<Rightarrow>
     case Request 1 ping w of (second, w) \<Rightarrow>
     case Request 0 (''+PING'' @ CRLF) w of (malformed, w) \<Rightarrow>
     Inr (first = ''+PONG'' @ CRLF \<and> second = ''+PONG'' @ CRLF \<and> starts_with malformed ''-ERR ''))"

lemma server_rejects_malformed: "server_rejects_malformed = Inr True"
  by code_simp

definition server_restores_values :: "bool result" where
  "server_restores_values =
     rbind (RunningServer no_files) (\<lambda>server.
     case Request 0 (''*3'' @ CRLF @ ''$3'' @ CRLF @ ''SET'' @ CRLF @ ''$7'' @ CRLF @ ''persist'' @ CRLF @ ''$5'' @ CRLF @ ''value'' @ CRLF) (Connect server) of (stored, w) \<Rightarrow>
     rbind (RunningServer (snd (w_db w))) (\<lambda>server.
     case Request 0 (''*2'' @ CRLF @ ''$3'' @ CRLF @ ''GET'' @ CRLF @ ''$7'' @ CRLF @ ''persist'' @ CRLF) (Connect server) of (got, w) \<Rightarrow>
     Inr (stored = ''+OK'' @ CRLF \<and> got = ''$5'' @ CRLF @ ''value'' @ CRLF)))"

lemma server_restores_values: "server_restores_values = Inr True"
  by code_simp

end
