(* ===== verification/Spec2Isabelle.thy ===== *)
theory Spec2Isabelle
  imports Server_Main Db_Crash Bench_Keys Test_Cases
begin

text \<open>
  \<^bold>\<open>A verification of Radish\<close>, a key-value database in C++ with an optional time to live, an append-only
  log on disk, and a TCP server that speaks the RESP protocol.

  \<^bold>\<open>The parts of the program.\<close> A client sends requests over TCP. The acceptor
  (\<^verbatim>\<open>src/network/TcpServer.cpp\<close>) makes a session for each connection. A session collects bytes,
  takes requests out of them with the codec (\<^verbatim>\<open>src/network/RespCodec.cpp\<close>), dispatches them by
  name to handlers, which call the database (\<^verbatim>\<open>include/RadishDB.h\<close>) that all sessions share, and
  queues the encoded replies. The database builds an event for every mutation
  (\<^verbatim>\<open>include/RadishEvent.h\<close>), applies it to a copy of the store
  (\<^verbatim>\<open>include/RadishStore.h\<close>), appends it to the log (\<^verbatim>\<open>include/persistence\<close>) and then swaps
  the copy in. On start the log is replayed; on shutdown it is compacted into one creation per key.
  \<^verbatim>\<open>src/main.cpp\<close> reads the command line, opens the database, runs the event loop and compacts.

  \<^bold>\<open>How it is modelled.\<close> Classes are records, their methods are functions with the name
  \<^verbatim>\<open>Class_Method\<close>; loops are recursive functions that return with a termination proof, with
  three exceptions: \<open>Hello_loop\<close> has a counter of 12 for the at most 6 rounds of its loop over a fixed string,
  the client that reads a reply recurses as deep as the code allows
  (33 levels, 32 of them nested), and the loop of the benchmark, which waits for the clock, has an
  optional value and a theorem that it returns; exceptions are values of the type \<open>error\<close>, and what the C++ standard leaves
  undefined (signed overflow, an empty optional, a read out of range) is an error of its own, so that
  its absence is part of every statement that says that a result is \<open>Inr\<close>. Timestamps are 64-bit
  words compared as signed integers, sizes on disk are 32-bit words. What the program reads from
  outside is an argument: the readings of the clock (one for each time the code reads it), the
  behaviour of the disk (a \<open>Device\<close>: whether files open, after how many bytes a write or a read
  fails, whether a rename succeeds), the order in which a hash table is iterated, and the order
  and outcome of asynchronous operations (a list of \<open>Completion\<close>s). Statements quantify over all
  of them. The template parameter of the database is a \<open>TType\<close>, a description of how values lie in
  memory; the server uses strings of bytes.

  \<^bold>\<open>The theories\<close>, in the order in which they build on one another:
  \<^item> \<open>Radish_Prelude\<close>: errors and results, 64-bit addition, little-endian integers.
  \<^item> \<open>Unordered_Map\<close>: \<^verbatim>\<open>std::unordered_map\<close> as an association list behind the interface
    \<open>dictionary\<close>, and iteration in any order.
  \<^item> \<open>Binary_File\<close> (\<^verbatim>\<open>BinaryFile.h\<close>, \<^verbatim>\<open>Concepts.h\<close>): streams that can fail, and values on
    them, as an instance of the interface \<open>stream_codec\<close>: what was written is read back, a cut value
    is not read.
  \<^item> \<open>Radish_Event\<close> (\<^verbatim>\<open>RadishEvent.h\<close>, \<^verbatim>\<open>EventType.h\<close>): events and their serialisation;
    round trip, and soundness of what is read.
  \<^item> \<open>Radish_Store\<close> (\<^verbatim>\<open>RadishStore.h\<close>): the store with lazy expiry; its invariant, its refinement of
    a map from keys to values with expiries, agreement of its reads.
  \<^item> \<open>System_Clock\<close> (\<^verbatim>\<open>SystemClock.h\<close>): milliseconds since the epoch, and when an expiry can
    overflow.
  \<^item> \<open>Journal\<close>: the interface between a store and a log that is replayed into it.
  \<^item> \<open>Log_Reader\<close> (\<^verbatim>\<open>LogReader.h\<close>): the reader accepts exactly the logs, drops one unfinished
    record at the end, and reports other damage.
  \<^item> \<open>Log_Writer\<close> (\<^verbatim>\<open>LogWriter.h\<close>, \<^verbatim>\<open>CompactStrategy.h\<close>, \<^verbatim>\<open>PersistenceLog.h\<close>):
    creation, append, replay and compaction of the log. An append is all or nothing for every later
    reader; a compaction that fails leaves the log as it was.
  \<^item> \<open>Compaction\<close>: when the compacted log replays to the same contents, and two cases in which it does
    not.
  \<^item> \<open>Radish_DB\<close> (\<^verbatim>\<open>RadishDB.h\<close>): the public operations. Each of them is
    one function here; that the lock makes it one step among threads is the subject of \<open>Db_Threads\<close>.
  \<^item> \<open>Durability\<close>: the database without a time to live refines a map through mutations,
    compactions, restarts, and failures that leave the log as it was (relation \<open>db_reach\<close>); a failed
    mutation leaves no trace.
  \<^item> \<open>Recovery\<close>: with any time to live, from the opening of a clean log to the next compaction, the store is the
    replay of the log at the readings of the commits (\<open>db_run\<close>); what a restart restores and
    what it does not.
  \<^item> \<open>Expiring_Log\<close>: logs in which nothing is overwritten by something that expires earlier read as a
    map of expiring entries, and keep doing so through replays and compactions.
  \<^item> \<open>Expiry\<close>: the database with a time to live refines a map of expiring entries through mutations,
    compactions and restarts (relation \<open>ttl_reach\<close>); a rename must not overwrite a key that expires
    later than what it moves.
  \<^item> \<open>Shared_Mutex\<close>: threads, calls under a \<^verbatim>\<open>std::shared_mutex\<close>, and the interface
    \<open>locked_calls\<close> of a call that runs under it.
  \<^item> \<open>Db_Steps\<close>, \<open>Db_Solo\<close> (\<^verbatim>\<open>RadishDB.h\<close>, \<^verbatim>\<open>PersistenceLog.h\<close>,
    \<^verbatim>\<open>LogWriter.h\<close>): the public operations statement by statement, down to the bytes that reach
    a file, and the invariant of one call that runs alone, by which \<open>locked_calls\<close> is interpreted.
  \<^item> \<open>Db_Threads\<close>: any number of threads on one database are linearizable to the operations of
    \<open>Radish_DB\<close>, only readers share the lock and nothing changes while they do, and the two mutexes never deadlock (relation
    \<open>threads_reach\<close>).
  \<^item> \<open>Db_Crash\<close>: threads on a database with a log, and a process that dies between any two statements.
  \<^item> \<open>Decimal\<close>, \<open>Incremental_Parser\<close>, \<open>Resp_Codec\<close> (\<^verbatim>\<open>RespCodec.cpp\<close>): numbers, the interface of a
    parser that is fed piecewise, and the codec as an instance of it; the parser stays in bounds, its
    verdicts are final, requests are parsed back.
  \<^item> \<open>Tcp_Session\<close>, \<open>Tcp_Server\<close> (\<^verbatim>\<open>TcpServer.cpp\<close>): handlers, dispatch, input and output
    of one session and the acceptor; replies in order, one per request, whatever the
    fragmentation, and the socket closed only after everything was sent (relation \<open>session_reach\<close>).
  \<^item> \<open>Kv_Spec\<close>: the sequential specification of the service: requests, their effects on the contents
    and the replies they may get.
  \<^item> \<open>Kv_Service\<close>: the interface \<open>kv_backend\<close> of the database for its sessions, the proof that every
    request follows the specification, and its two providers: the database with a log and the
    database without persistence.
  \<^item> \<open>Server_World\<close>: any number of sessions on one database under the event loop are linearizable.
  \<^item> \<open>Session_Bounds\<close>: bounds on the work of one read and on the buffers.
  \<^item> \<open>Resp_Client\<close> (\<^verbatim>\<open>benchmarks/RadishBench.cpp\<close>): the client that reads replies stays in step
    with the session.
  \<^item> \<open>Double_Rounding\<close>, \<open>Bench_Statistics\<close> (\<^verbatim>\<open>BenchmarkStatistics.h\<close>): the arithmetic of
    \<^verbatim>\<open>double\<close> with its rounding; the percentiles are exact nearest ranks.
  \<^item> \<open>Bench_Workload\<close>, \<open>Bench_Keys\<close> (\<^verbatim>\<open>benchmarks/RadishBench.cpp\<close>): command line, workloads,
    the loop of each client and the merging of results; the statistics are those of exactly the
    replies of the measured rounds, and the reading workloads get from the server the replies that their names promise.
  \<^item> \<open>Server_Main\<close> (\<^verbatim>\<open>main.cpp\<close>): the accepted command lines, exactly, and the whole program; without a
    time to live one run after the other keeps the contents, and when the program dies between two completions
    or by an exception the log on disk restores them.
  \<^item> \<open>Test_Cases\<close> (\<^verbatim>\<open>tests\<close>): the test cases of the repository, evaluated on the model.

  \<^bold>\<open>What is shown of the whole.\<close> Whatever the clients send, in whatever order reads, writes and
  accepts complete and fail, there is one order of the executed requests, consistent with the order
  of each client and with real time, such that all replies and the contents of the database are those
  of a sequential key-value service (\<open>server_is_linearizable\<close>). Without a time to live, killing the program between
  handlers, or an exception in one, loses nothing that was executed (\<open>crash_keeps_executed_requests\<close>), and
  stopping, compacting and starting again keeps the contents (\<open>next_start_restores_map\<close>). The same holds of
  the library without the server (\<open>database_refines_map\<close>, \<open>expiring_database_refines_map\<close>), also when
  threads share it (\<open>threads_are_linearizable\<close>) and when the process dies in the middle of an operation
  (\<open>crash_at_any_instant_restores_map\<close>): the files then restore the map of the finished calls, perhaps
  with the one mutation in progress. The
  states of these statements come from runs that begin without a log or with a log of whole records, rename no key onto
  itself, and go on after a mutation that threw only if it left the log as it was; with a time to
  live the clock is not set back. These restrictions are necessary, and a theorem each says what happens without them:
  renaming a key onto itself deletes it and is compacted differently (\<open>rename_onto_itself_deletes\<close>,
  \<open>compaction_revives_self_renamed_key\<close>); replaying a rename depends on the clock
  (\<open>restart_resurrects_overwritten_key\<close>); expiries that go back let compaction uncover old values
  (\<open>compaction_uncovers_overwritten_value\<close>); a log written without a time to live reads as expired with
  one (\<open>ttl_hides_keys_written_without\<close>); a record appended behind an unfinished one is lost
  (\<open>append_after_cut_off_record_is_lost\<close>).

  \<^bold>\<open>Bounds.\<close> The constants are those of the code: 1024 arguments, 4 MiB per argument, 8 MiB of
  buffered input, reads of 8192 bytes. Requests that the parser lets through always fit into a record
  of the log, so no request fails because of its size.

  \<^bold>\<open>Not modelled.\<close> The socket library itself (its guarantees are that handlers run one after the other
  and only for outstanding operations); addresses and socket options beyond their success or failure;
  printing; the memory model (a statement under the lock is one step, and threads without the lock touch
  nothing that is shared); what the operating system keeps in its caches when the machine, not only the
  process, stops; two \<^verbatim>\<open>unordered_map\<close> iterators that a rename keeps across an insertion
  (the model has no rehashing); of the benchmark program, the random generator and the text of a
  \<^verbatim>\<open>double\<close>, which are parameters, and exponents of a \<^verbatim>\<open>double\<close> out of range; of the tests, threads and
  sockets, and the first server test runs in parts.
\<close>

end
